(* ===== verification/Kcp_Prelude.thy ===== *)
theory Kcp_Prelude
  imports Main "HOL-Library.Word"
begin

text \<open>
  Shared vocabulary of the development: the machine integers and byte strings of the Rust
  sources, results with an error value, the clock, the few functions of the Rust standard library
  the sources call (\<open>clamp\<close>, \<open>saturating_sub\<close>, \<open>div_ceil\<close>, casts between integer
  types, decimal formatting of a \<open>usize\<close>), and the generic lemmas on words, lists and
  transition systems that the component theories share.

  Integers. \<open>u8\<close>, \<open>u16\<close>, \<open>u32\<close> and \<open>u64\<close> are words of that width, so \<open>+\<close>, \<open>-\<close>,
  \<open>*\<close> and \<open>+=\<close> wrap around: the arithmetic of a release build, where overflow checks are
  off. \<open>i32\<close> is an \<open>int\<close> in two's complement range, with the wrap-around of a subtraction written
  out. \<open>usize\<close> counts bytes and queue entries in memory and is a \<open>nat\<close>.
\<close>

section \<open>Machine integers, bytes, results, the clock\<close>

type_synonym u8 = "8 word"
type_synonym u16 = "16 word"
type_synonym u32 = "32 word"
type_synonym u64 = "64 word"
type_synonym i32 = int
type_synonym usize = nat
type_synonym bytes = "u8 list"

text \<open>\<open>Result<T, E>\<close>: \<open>Inl\<close> is \<open>Err\<close>, \<open>Inr\<close> is \<open>Ok\<close>.\<close>

abbreviation Err :: "'e \<Rightarrow> 'e + 'a" where
  "Err \<equiv> Inl"

abbreviation Ok :: "'a \<Rightarrow> 'e + 'a" where
  "Ok \<equiv> Inr"

text \<open>
  A method on \<open>&mut self\<close> that returns \<open>Result\<close> keeps what it wrote to \<open>self\<close> when it fails,
  so it returns the new state beside the result. \<open>and_then\<close> is the \<open>?\<close> operator: the
  rest runs on the new state unless the result was an error.
\<close>

type_synonym ('s, 'e, 'a) outcome = "'s \<times> ('e + 'a)"

definition and_then :: "('s, 'e, 'a) outcome \<Rightarrow> ('s \<Rightarrow> ('s, 'e, 'b) outcome) \<Rightarrow> ('s, 'e, 'b) outcome" where
  "and_then r f = (case snd r of Inl e \<Rightarrow> (fst r, Inl e) | Inr _ \<Rightarrow> f (fst r))"

text \<open>
  \<open>current_timestamp()\<close> reads a process-wide clock. A call of an engine method reads it at
  fixed places, and the readings may differ; \<open>clk k\<close> is the value of the \<open>k\<close>-th read of the
  call (each operation says which read is which).
\<close>

type_synonym clock = "nat \<Rightarrow> u32"

section \<open>Functions of the Rust standard library\<close>

definition clamp :: "'a::linorder \<Rightarrow> 'a \<Rightarrow> 'a \<Rightarrow> 'a" where
  "clamp x lo hi = (if x < lo then lo else if hi < x then hi else x)"

definition saturating_sub :: "'a::len word \<Rightarrow> 'a word \<Rightarrow> 'a word" where
  "saturating_sub a b = (if a < b then 0 else a - b)"

definition div_ceil_usize :: "usize \<Rightarrow> usize \<Rightarrow> usize" where
  "div_ceil_usize a b = (if a mod b = 0 then a div b else a div b + 1)"

definition div_ceil_u32 :: "u32 \<Rightarrow> u32 \<Rightarrow> u32" where
  "div_ceil_u32 a b = (if a mod b = 0 then a div b else a div b + 1)"

text \<open>The cast \<open>as i32\<close> of a \<open>u32\<close> or a \<open>usize\<close>, and \<open>as u32\<close> of an \<open>i32\<close>.\<close>

definition u32_as_i32 :: "u32 \<Rightarrow> i32" where
  "u32_as_i32 w = sint w"

definition usize_as_i32 :: "usize \<Rightarrow> i32" where
  "usize_as_i32 n = sint (word_of_nat n :: u32)"

definition i32_as_u32 :: "i32 \<Rightarrow> u32" where
  "i32_as_u32 i = word_of_int i"

text \<open>Subtraction of two \<open>i32\<close> values, wrapping.\<close>

definition i32_sub :: "i32 \<Rightarrow> i32 \<Rightarrow> i32" where
  "i32_sub a b = sint (word_of_int (a - b) :: u32)"

text \<open>\<open>{}\<close> formatting of a \<open>usize\<close>: its decimal digits.\<close>

fun show_usize :: "usize \<Rightarrow> string" where
  "show_usize n =
     (let d = char_of (48 + n mod 10) in
      if n < 10 then [d] else show_usize (n div 10) @ [d])"

declare show_usize.simps [simp del]

section \<open>Shared simplification rules\<close>

named_theorems kcp_defs \<open>definitions of small operations that component proofs unfold\<close>

lemma and_then_Ok [simp]: "and_then (s, Inr a) f = f s"
  by (simp add: and_then_def)

lemma and_then_Err [simp]: "and_then (s, Inl e) f = (s, Inl e)"
  by (simp add: and_then_def)

lemma clamp_bounds: "lo \<le> hi \<Longrightarrow> lo \<le> clamp x lo hi \<and> clamp x lo hi \<le> hi"
  by (auto simp: clamp_def)

lemma clamp_id: "lo \<le> x \<Longrightarrow> x \<le> hi \<Longrightarrow> clamp x lo hi = x"
  by (auto simp: clamp_def)

section \<open>Serial numbers: unsigned distance and signed difference\<close>

text \<open>
  Sequence numbers and timestamps are compared by the sign of their wrapping difference. All
  proofs about them go through the unsigned distance \<open>unat (b - a)\<close> from \<open>a\<close> forward to \<open>b\<close>.
\<close>

declare of_nat_unat [simp del]

lemma u32_unat_bound: "unat (w :: u32) < 4294967296"
  using unsigned_less [of w, where ?'a = nat] by simp

lemma two_complement_mod:
  fixes u :: int
  assumes "0 \<le> u" "u < 4294967296"
  shows "(u + 2147483648) mod 4294967296 - 2147483648 = (if u < 2147483648 then u else u - 4294967296)"
proof (cases "u < 2147483648")
  case True
  with assms show ?thesis by (simp add: mod_pos_pos_trivial)
next
  case False
  have "(u + 2147483648) mod 4294967296 = ((u - 2147483648) + 4294967296) mod 4294967296"
    by (rule arg_cong [where f = "\<lambda>v. v mod 4294967296"]) simp
  also have "\<dots> = (u - 2147483648) mod 4294967296"
    by (rule mod_add_self2)
  also have "\<dots> = u - 2147483648"
    using assms False by (intro mod_pos_pos_trivial) simp_all
  finally show ?thesis using False by simp
qed

lemma sint_u32_unat:
  "sint (w :: u32) = (if unat w < 2147483648 then int (unat w) else int (unat w) - 4294967296)"
proof -
  have "sint w = (uint w + 2147483648) mod 4294967296 - 2147483648"
    by (simp add: sint_uint signed_take_bit_eq_take_bit_shift take_bit_eq_mod)
  also have "\<dots> = (if uint w < 2147483648 then uint w else uint w - 4294967296)"
    using uint_lt2p [of w] by (intro two_complement_mod) simp_all
  finally have "sint w = (if uint w < 2147483648 then uint w else uint w - 4294967296)" .
  moreover have "unat w < 2147483648 \<longleftrightarrow> uint w < 2147483648"
    using of_nat_less_iff [of "unat w" 2147483648, where ?'a = int] by (simp add: of_nat_unat)
  ultimately show ?thesis by (simp add: of_nat_unat)
qed

text \<open>The distance from \<open>a\<close> to \<open>b\<close>, measured from a common base \<open>x\<close>.\<close>

lemma unat_diff_cases:
  "unat ((p :: u32) - q) = (if unat q \<le> unat p then unat p - unat q
                           else 4294967296 + unat p - unat q)"
proof -
  have "unat (p - q) = (if unat q \<le> unat p then unat p - unat q
                        else unat p + 2 ^ size p - unat q)"
    by (rule unat_sub_if_size)
  then show ?thesis
    by (simp only: word_size add.commute) simp
qed

lemma dist_via_base:
  fixes x a b :: u32
  shows "unat (b - a) = (if unat (a - x) \<le> unat (b - x) then unat (b - x) - unat (a - x)
                         else 4294967296 + unat (b - x) - unat (a - x))"
  using unat_diff_cases [of "b - x" "a - x"] by simp

lemma unat_eq_dist: "unat ((a :: u32) - x) = unat (b - x) \<longleftrightarrow> a = b"
  by (metis diff_add_cancel word_unat_eq_iff)

lemma unat_word_of_nat_u32: "n < 4294967296 \<Longrightarrow> unat (word_of_nat n :: u32) = n"
  by (simp add: unat_of_nat)

lemma unat_word_of_nat_less: "n < unat (w :: u32) \<Longrightarrow> unat (word_of_nat n :: u32) = n"
  by (rule unat_word_of_nat_u32) (rule less_trans [OF _ u32_unat_bound])

lemma unat_ucast_u16: "unat (w :: u32) \<le> 65535 \<Longrightarrow> unat (ucast w :: u16) = unat w"
  by (simp add: unsigned_ucast_eq take_bit_nat_eq_self)

lemma unat_add_u32:
  "unat (a :: u32) + unat b < 4294967296 \<Longrightarrow> unat (a + b) = unat a + unat b"
  by (simp add: unat_word_ariths)

lemma unat_Suc_u32: "unat (a :: u32) < 4294967295 \<Longrightarrow> unat (a + 1) = Suc (unat a)"
  by (simp add: unat_word_ariths)

text \<open>The distance between two counters known as natural numbers.\<close>

lemma unat_word_of_nat_diff:
  "n \<le> i \<Longrightarrow> i < n + 4294967296 \<Longrightarrow> unat (word_of_nat i - word_of_nat n :: u32) = i - n"
  using unat_word_of_nat_u32 [of "i - n"] by simp

lemma unat_word_of_nat_diff_neg:
  assumes "i < n" "n \<le> i + 4294967295"
  shows "unat (word_of_nat i - word_of_nat n :: u32) = 4294967296 - (n - i)"
proof -
  have "unat (word_of_nat n - word_of_nat i :: u32) = n - i"
    using assms by (intro unat_word_of_nat_diff) auto
  then show ?thesis
    using assms dist_via_base [of "word_of_nat i :: u32" "word_of_nat n" "word_of_nat i"] by simp
qed

lemma word_of_nat_inj_window:
  "n \<le> i \<Longrightarrow> i < n + 4294967296 \<Longrightarrow> (word_of_nat i :: u32) = word_of_nat n \<Longrightarrow> i = n"
  using unat_word_of_nat_diff [of n i] by simp

lemma unat_dist_Suc:
  "(k :: u32) \<noteq> n \<Longrightarrow> unat (k - (n + 1)) = unat (k - n) - 1"
  using unat_minus_one [of "k - n"] by (simp add: diff_diff_eq)

end
