(* ===== verification/Kcp_Protocol.thy ===== *)
theory Kcp_Protocol
  imports Kcp_Prelude
begin

text \<open>
  The wire types of \<open>kcp-core/src/protocol.rs\<close>: protocol constants, the 24-byte segment header and
  the segment with their encoders and decoders, connection statistics, the millisecond clock
  and the wrapping comparisons of timestamps and sequence numbers.

  The integer readers and writers of the \<open>bytes\<close> crate (\<open>put_u32_le\<close>, \<open>get_u32_le\<close>, ...) are not
  part of the repository. They are the fields of the record \<open>buf_api\<close>, an argument \<open>B\<close> of the
  encoders and decoders, and the locale \<open>buf_codec\<close> states what their documentation promises:
  a writer appends a fixed number of bytes, and the reader of the same width takes them back.
  The crate's buffer types \<open>Bytes\<close> and \<open>BytesMut\<close> are byte lists.
\<close>

unbundle bit_operations_syntax

section \<open>Constants\<close>

abbreviation IKCP_RTO_NDL :: u32 where "IKCP_RTO_NDL \<equiv> 30"
abbreviation IKCP_RTO_MIN :: u32 where "IKCP_RTO_MIN \<equiv> 100"
abbreviation IKCP_RTO_DEF :: u32 where "IKCP_RTO_DEF \<equiv> 200"
abbreviation IKCP_RTO_MAX :: u32 where "IKCP_RTO_MAX \<equiv> 60000"
abbreviation IKCP_CMD_PUSH :: u8 where "IKCP_CMD_PUSH \<equiv> 81"
abbreviation IKCP_CMD_ACK :: u8 where "IKCP_CMD_ACK \<equiv> 82"
abbreviation IKCP_CMD_WASK :: u8 where "IKCP_CMD_WASK \<equiv> 83"
abbreviation IKCP_CMD_WINS :: u8 where "IKCP_CMD_WINS \<equiv> 84"
abbreviation IKCP_ASK_SEND :: u32 where "IKCP_ASK_SEND \<equiv> 1"
abbreviation IKCP_ASK_TELL :: u32 where "IKCP_ASK_TELL \<equiv> 2"
abbreviation IKCP_WND_SND :: u32 where "IKCP_WND_SND \<equiv> 32"
abbreviation IKCP_WND_RCV :: u32 where "IKCP_WND_RCV \<equiv> 128"
abbreviation IKCP_MTU_DEF :: u32 where "IKCP_MTU_DEF \<equiv> 1400"
abbreviation IKCP_ACK_FAST :: u32 where "IKCP_ACK_FAST \<equiv> 3"
abbreviation IKCP_INTERVAL :: u32 where "IKCP_INTERVAL \<equiv> 100"
abbreviation IKCP_OVERHEAD :: u32 where "IKCP_OVERHEAD \<equiv> 24"
abbreviation IKCP_DEADLINK :: u32 where "IKCP_DEADLINK \<equiv> 20"
abbreviation IKCP_THRESH_INIT :: u32 where "IKCP_THRESH_INIT \<equiv> 2"
abbreviation IKCP_THRESH_MIN :: u32 where "IKCP_THRESH_MIN \<equiv> 2"
abbreviation IKCP_PROBE_INIT :: u32 where "IKCP_PROBE_INIT \<equiv> 7000"
abbreviation IKCP_PROBE_LIMIT :: u32 where "IKCP_PROBE_LIMIT \<equiv> 120000"
abbreviation IKCP_FASTACK_LIMIT :: u32 where "IKCP_FASTACK_LIMIT \<equiv> 5"

type_synonym ConvId = u32
type_synonym SeqNum = u32
type_synonym Timestamp = u32

section \<open>Conversation ids, time and sequence numbers\<close>

text \<open>
  \<open>random_conv_id\<close> hashes with a freshly seeded hasher until the low 32 bits are not zero.
  \<open>rnd k\<close> is the \<open>k\<close>-th hash value; the loop need not end, so the result is an option.
\<close>

partial_function (option) random_conv_id :: "(nat \<Rightarrow> u64) \<Rightarrow> nat \<Rightarrow> ConvId option" where
  "random_conv_id rnd k =
     (let id = (ucast (rnd k) :: u32) in
      if id \<noteq> 0 then Some id else random_conv_id rnd (Suc k))"

text \<open>The milliseconds since the process-wide base instant, cast to \<open>u32\<close>.\<close>

definition current_timestamp :: "nat \<Rightarrow> Timestamp" where
  "current_timestamp elapsed_millis = word_of_nat elapsed_millis"

definition time_diff :: "Timestamp \<Rightarrow> Timestamp \<Rightarrow> i32" where
  "time_diff later earlier = u32_as_i32 (later - earlier)"

definition seq_before :: "SeqNum \<Rightarrow> SeqNum \<Rightarrow> bool" where
  "seq_before seq1 seq2 = (u32_as_i32 (seq1 - seq2) < 0)"

definition seq_after :: "SeqNum \<Rightarrow> SeqNum \<Rightarrow> bool" where
  "seq_after seq1 seq2 = (u32_as_i32 (seq1 - seq2) > 0)"

section \<open>The buffer interface of the bytes crate\<close>

record buf_api =
  put_u8 :: "bytes \<Rightarrow> u8 \<Rightarrow> bytes"
  put_u16_le :: "bytes \<Rightarrow> u16 \<Rightarrow> bytes"
  put_u32_le :: "bytes \<Rightarrow> u32 \<Rightarrow> bytes"
  get_u8 :: "bytes \<Rightarrow> u8 \<times> bytes"
  get_u16_le :: "bytes \<Rightarrow> u16 \<times> bytes"
  get_u32_le :: "bytes \<Rightarrow> u32 \<times> bytes"

section \<open>Header\<close>

record KcpHeader =
  h_conv :: ConvId
  h_cmd :: u8
  h_frg :: u8
  h_wnd :: u16
  h_ts :: Timestamp
  h_sn :: SeqNum
  h_una :: SeqNum
  h_len :: u32

abbreviation KcpHeader_SIZE :: usize where
  "KcpHeader_SIZE \<equiv> 24"

text \<open>\<open>now\<close> is the value \<open>current_timestamp()\<close> returns in the constructor.\<close>

definition KcpHeader_new :: "Timestamp \<Rightarrow> ConvId \<Rightarrow> u8 \<Rightarrow> KcpHeader" where
  "KcpHeader_new now conv cmd =
     \<lparr> h_conv = conv, h_cmd = cmd, h_frg = 0, h_wnd = 0, h_ts = now, h_sn = 0, h_una = 0,
       h_len = 0 \<rparr>"

definition KcpHeader_encode :: "buf_api \<Rightarrow> KcpHeader \<Rightarrow> bytes \<Rightarrow> bytes" where
  "KcpHeader_encode B h buf =
     (let buf = put_u32_le B buf (h_conv h);
          buf = put_u8 B buf (h_cmd h);
          buf = put_u8 B buf (h_frg h);
          buf = put_u16_le B buf (h_wnd h);
          buf = put_u32_le B buf (h_ts h);
          buf = put_u32_le B buf (h_sn h);
          buf = put_u32_le B buf (h_una h);
          buf = put_u32_le B buf (h_len h)
      in buf)"

text \<open>The decoder advances the buffer; it returns the header and what is left.\<close>

definition KcpHeader_decode :: "buf_api \<Rightarrow> bytes \<Rightarrow> (KcpHeader \<times> bytes) option" where
  "KcpHeader_decode B buf =
     (if length buf < KcpHeader_SIZE then None
      else
        (let (conv, buf) = get_u32_le B buf;
             (cmd, buf) = get_u8 B buf;
             (frg, buf) = get_u8 B buf;
             (wnd, buf) = get_u16_le B buf;
             (ts, buf) = get_u32_le B buf;
             (sn, buf) = get_u32_le B buf;
             (una, buf) = get_u32_le B buf;
             (len, buf) = get_u32_le B buf
         in Some (\<lparr> h_conv = conv, h_cmd = cmd, h_frg = frg, h_wnd = wnd, h_ts = ts,
                    h_sn = sn, h_una = una, h_len = len \<rparr>, buf)))"

definition cmd_str :: "KcpHeader \<Rightarrow> string" where
  "cmd_str h =
     (if h_cmd h = IKCP_CMD_PUSH then ''PUSH''
      else if h_cmd h = IKCP_CMD_ACK then ''ACK''
      else if h_cmd h = IKCP_CMD_WASK then ''WASK''
      else if h_cmd h = IKCP_CMD_WINS then ''WINS''
      else ''UNKNOWN'')"

section \<open>Segment\<close>

record KcpSegment =
  s_header :: KcpHeader
  s_data :: bytes
  s_resendts :: Timestamp
  s_rto :: u32
  s_fastack :: u32
  s_xmit :: u32

definition KcpSegment_new :: "Timestamp \<Rightarrow> ConvId \<Rightarrow> u8 \<Rightarrow> bytes \<Rightarrow> KcpSegment" where
  "KcpSegment_new now conv cmd data =
     \<lparr> s_header = (KcpHeader_new now conv cmd)\<lparr>h_len := word_of_nat (length data)\<rparr>,
       s_data = data, s_resendts = 0, s_rto = IKCP_RTO_DEF, s_fastack = 0, s_xmit = 0 \<rparr>"

definition KcpSegment_push :: "Timestamp \<Rightarrow> ConvId \<Rightarrow> SeqNum \<Rightarrow> bytes \<Rightarrow> KcpSegment" where
  "KcpSegment_push now conv sn data =
     (let seg = KcpSegment_new now conv IKCP_CMD_PUSH data
      in seg\<lparr>s_header := (s_header seg)\<lparr>h_sn := sn\<rparr>\<rparr>)"

definition KcpSegment_ack :: "Timestamp \<Rightarrow> ConvId \<Rightarrow> SeqNum \<Rightarrow> Timestamp \<Rightarrow> KcpSegment" where
  "KcpSegment_ack now conv sn ts =
     (let seg = KcpSegment_new now conv IKCP_CMD_ACK []
      in seg\<lparr>s_header := (s_header seg)\<lparr>h_sn := sn, h_ts := ts\<rparr>\<rparr>)"

definition KcpSegment_encode :: "buf_api \<Rightarrow> KcpSegment \<Rightarrow> bytes \<Rightarrow> bytes" where
  "KcpSegment_encode B seg buf = KcpHeader_encode B (s_header seg) buf @ s_data seg"

definition KcpSegment_decode :: "buf_api \<Rightarrow> bytes \<Rightarrow> KcpSegment option" where
  "KcpSegment_decode B buf =
     (case KcpHeader_decode B buf of
        None \<Rightarrow> None
      | Some (header, buf) \<Rightarrow>
          if length buf \<noteq> unat (h_len header) then None
          else Some \<lparr> s_header = header, s_data = buf, s_resendts = 0, s_rto = IKCP_RTO_DEF,
                      s_fastack = 0, s_xmit = 0 \<rparr>)"

definition KcpSegment_size :: "KcpSegment \<Rightarrow> usize" where
  "KcpSegment_size seg = KcpHeader_SIZE + length (s_data seg)"

text \<open>The size of a segment is its size on the wire.\<close>

instantiation KcpSegment_ext :: (type) size
begin

definition size_KcpSegment_ext :: "'a KcpSegment_scheme \<Rightarrow> nat" where
  "size_KcpSegment_ext seg = KcpSegment_size (KcpSegment.truncate seg)"

instance ..

end

lemma size_KcpSegment [simp]: "(size :: KcpSegment \<Rightarrow> nat) = KcpSegment_size"
proof
  show "size seg = KcpSegment_size seg" for seg :: KcpSegment
    by (cases seg) (simp add: size_KcpSegment_ext_def KcpSegment.truncate_def)
qed

definition is_data :: "KcpSegment \<Rightarrow> bool" where
  "is_data seg = (h_cmd (s_header seg) = IKCP_CMD_PUSH)"

definition is_ack :: "KcpSegment \<Rightarrow> bool" where
  "is_ack seg = (h_cmd (s_header seg) = IKCP_CMD_ACK)"

definition is_probe :: "KcpSegment \<Rightarrow> bool" where
  "is_probe seg = (h_cmd (s_header seg) = IKCP_CMD_WASK \<or> h_cmd (s_header seg) = IKCP_CMD_WINS)"

abbreviation s_sn :: "KcpSegment \<Rightarrow> SeqNum" where
  "s_sn seg \<equiv> h_sn (s_header seg)"

abbreviation s_frg :: "KcpSegment \<Rightarrow> u8" where
  "s_frg seg \<equiv> h_frg (s_header seg)"

section \<open>Statistics\<close>

record KcpStats =
  st_bytes_sent :: u64
  st_bytes_received :: u64
  st_packets_sent :: u64
  st_packets_received :: u64
  st_retransmissions :: u64
  st_fast_retransmissions :: u64
  st_rtt :: u32
  st_rtt_var :: u32
  st_rto :: u32
  st_snd_wnd :: u32
  st_rcv_wnd :: u32
  st_cwnd :: u32
  st_snd_buf_size :: u32
  st_rcv_buf_size :: u32

definition KcpStats_default :: KcpStats where
  "KcpStats_default =
     \<lparr> st_bytes_sent = 0, st_bytes_received = 0, st_packets_sent = 0, st_packets_received = 0,
       st_retransmissions = 0, st_fast_retransmissions = 0, st_rtt = 0, st_rtt_var = 0,
       st_rto = 0, st_snd_wnd = 0, st_rcv_wnd = 0, st_cwnd = 0, st_snd_buf_size = 0,
       st_rcv_buf_size = 0 \<rparr>"

text \<open>The trait \<open>Default\<close> is the class \<open>default\<close>.\<close>

instantiation KcpStats_ext :: (default) default
begin

definition default_KcpStats_ext :: "'a KcpStats_scheme" where
  "default_KcpStats_ext = KcpStats.extend KcpStats_default default"

instance ..

end

lemma default_KcpStats [simp]: "(default :: KcpStats) = KcpStats_default"
  by (simp add: default_KcpStats_ext_def KcpStats.extend_def KcpStats_default_def)

section \<open>A little-endian instance of the buffer interface\<close>

text \<open>
  \<open>to_le_bytes\<close> and \<open>from_le_bytes\<close> of the standard library, and the buffer interface built on
  them: the instance at which the hypotheses of \<open>buf_codec\<close> are discharged.
\<close>

definition u16_to_le_bytes :: "u16 \<Rightarrow> bytes" where
  "u16_to_le_bytes x = [ucast x, ucast (drop_bit 8 x)]"

definition u16_from_le_bytes :: "bytes \<Rightarrow> u16" where
  "u16_from_le_bytes b = ucast (b ! 0) OR push_bit 8 (ucast (b ! 1))"

definition u32_to_le_bytes :: "u32 \<Rightarrow> bytes" where
  "u32_to_le_bytes x = [ucast x, ucast (drop_bit 8 x), ucast (drop_bit 16 x), ucast (drop_bit 24 x)]"

definition u32_from_le_bytes :: "bytes \<Rightarrow> u32" where
  "u32_from_le_bytes b =
     ucast (b ! 0) OR push_bit 8 (ucast (b ! 1)) OR push_bit 16 (ucast (b ! 2)) OR
     push_bit 24 (ucast (b ! 3))"

definition le_buf_api :: buf_api where
  "le_buf_api =
     \<lparr> put_u8 = (\<lambda>buf x. buf @ [x]),
       put_u16_le = (\<lambda>buf x. buf @ u16_to_le_bytes x),
       put_u32_le = (\<lambda>buf x. buf @ u32_to_le_bytes x),
       get_u8 = (\<lambda>buf. (hd buf, tl buf)),
       get_u16_le = (\<lambda>buf. (u16_from_le_bytes (take 2 buf), drop 2 buf)),
       get_u32_le = (\<lambda>buf. (u32_from_le_bytes (take 4 buf), drop 4 buf)) \<rparr>"

section \<open>Comparison of sequence numbers and timestamps\<close>

lemma time_diff_unat:
  "time_diff a b = (if unat (a - b) < 2147483648 then int (unat (a - b))
                    else int (unat (a - b)) - 4294967296)"
  unfolding time_diff_def u32_as_i32_def by (rule sint_u32_unat)

lemma time_diff_range: "- 2147483648 \<le> time_diff a b \<and> time_diff a b < 2147483648"
  using u32_unat_bound [of "a - b"] by (auto simp: time_diff_unat)

lemma time_diff_self [simp]: "time_diff a a = 0"
  by (simp add: time_diff_unat)

lemma time_diff_nonneg_iff: "0 \<le> time_diff a b \<longleftrightarrow> unat (a - b) < 2147483648"
  using u32_unat_bound [of "a - b"] by (auto simp: time_diff_unat)

lemma seq_before_time_diff: "seq_before a b \<longleftrightarrow> time_diff a b < 0"
  by (simp add: seq_before_def time_diff_def)

lemma seq_after_time_diff: "seq_after a b \<longleftrightarrow> 0 < time_diff a b"
  by (simp add: seq_after_def time_diff_def)

lemma seq_before_iff: "seq_before a b \<longleftrightarrow> 2147483648 \<le> unat (a - b)"
  using time_diff_nonneg_iff [of a b] by (auto simp: seq_before_time_diff)

lemma seq_after_iff: "seq_after a b \<longleftrightarrow> a \<noteq> b \<and> unat (a - b) < 2147483648"
proof -
  have "0 < time_diff a b \<longleftrightarrow> 0 \<le> time_diff a b \<and> time_diff a b \<noteq> 0" by auto
  moreover have "time_diff a b = 0 \<longleftrightarrow> a = b"
    using u32_unat_bound [of "a - b"]
    by (auto simp: time_diff_unat unat_0_iff)
  ultimately show ?thesis
    by (auto simp: seq_after_time_diff time_diff_nonneg_iff)
qed

lemma seq_before_irrefl [simp]: "\<not> seq_before a a"
  by (simp add: seq_before_iff)

text \<open>
  Within half the number space from a common base, both comparisons are the comparison of the
  distances from the base. All ordering arguments about sequence numbers use these two facts.
\<close>

lemma seq_before_base:
  assumes "unat (a - x) < 2147483648" "unat (b - x) \<le> 2147483648"
  shows "seq_before a b \<longleftrightarrow> unat (a - x) < unat (b - x)"
  using assms by (auto simp: seq_before_iff dist_via_base [of a b x])

lemma time_diff_base:
  assumes "unat (a - x) < 2147483648" "unat (b - x) < 2147483648"
  shows "time_diff a b = int (unat (a - x)) - int (unat (b - x))"
  using assms by (auto simp: time_diff_unat dist_via_base [of a b x])

section \<open>Codec laws\<close>

text \<open>
  The documented behaviour of the buffer interface: a writer appends the bytes it would write to
  an empty buffer, \<open>n\<close> of them for an \<open>n\<close>-byte integer; the reader takes the first \<open>n\<close> bytes
  and inverts the writer, in both directions.
\<close>

locale buf_codec =
  fixes B :: buf_api
  assumes put_u8_append: "put_u8 B buf x8 = buf @ put_u8 B [] x8"
    and put_u16_append: "put_u16_le B buf x16 = buf @ put_u16_le B [] x16"
    and put_u32_append: "put_u32_le B buf x32 = buf @ put_u32_le B [] x32"
    and put_u8_length: "length (put_u8 B [] x8) = 1"
    and put_u16_length: "length (put_u16_le B [] x16) = 2"
    and put_u32_length: "length (put_u32_le B [] x32) = 4"
    and get_put_u8: "get_u8 B (put_u8 B [] x8 @ buf) = (x8, buf)"
    and get_put_u16: "get_u16_le B (put_u16_le B [] x16 @ buf) = (x16, buf)"
    and get_put_u32: "get_u32_le B (put_u32_le B [] x32 @ buf) = (x32, buf)"
    and put_get_u8: "1 \<le> length buf \<Longrightarrow> put_u8 B [] (fst (get_u8 B buf)) @ snd (get_u8 B buf) = buf"
    and put_get_u16:
      "2 \<le> length buf \<Longrightarrow> put_u16_le B [] (fst (get_u16_le B buf)) @ snd (get_u16_le B buf) = buf"
    and put_get_u32:
      "4 \<le> length buf \<Longrightarrow> put_u32_le B [] (fst (get_u32_le B buf)) @ snd (get_u32_le B buf) = buf"
begin

lemmas put_append = put_u8_append put_u16_append put_u32_append
lemmas put_length = put_u8_length put_u16_length put_u32_length
lemmas get_put = get_put_u8 get_put_u16 get_put_u32

lemma header_encode_flat:
  "KcpHeader_encode B h buf =
     buf @ put_u32_le B [] (h_conv h) @ put_u8 B [] (h_cmd h) @ put_u8 B [] (h_frg h) @
     put_u16_le B [] (h_wnd h) @ put_u32_le B [] (h_ts h) @ put_u32_le B [] (h_sn h) @
     put_u32_le B [] (h_una h) @ put_u32_le B [] (h_len h)"
proof -
  define e8 where "e8 = put_u8 B []"
  define e16 where "e16 = put_u16_le B []"
  define e32 where "e32 = put_u32_le B []"
  have app: "put_u8 B b x = b @ e8 x" "put_u16_le B b y = b @ e16 y" "put_u32_le B b z = b @ e32 z"
    for b x y z
    unfolding e8_def e16_def e32_def by (rule put_append)+
  show ?thesis
    by (simp add: KcpHeader_encode_def app)
qed

lemma header_encode_append: "KcpHeader_encode B h buf = buf @ KcpHeader_encode B h []"
  by (simp add: header_encode_flat)

lemma header_encode_length: "length (KcpHeader_encode B h buf) = length buf + KcpHeader_SIZE"
  by (simp add: header_encode_flat put_length)

lemma header_decode_encode: "KcpHeader_decode B (KcpHeader_encode B h [] @ rest) = Some (h, rest)"
proof -
  have "\<not> length (KcpHeader_encode B h [] @ rest) < KcpHeader_SIZE"
    by (simp add: header_encode_length)
  then show ?thesis
    unfolding KcpHeader_decode_def by (simp add: header_encode_flat get_put)
qed

text \<open>One read step of the decoder: the reader splits the buffer at the writer's bytes.\<close>

lemma get_split_u8: "1 \<le> length buf \<Longrightarrow> \<exists>x rest. get_u8 B buf = (x, rest) \<and> buf = put_u8 B [] x @ rest"
  by (metis put_get_u8 prod.collapse)

lemma get_split_u16: "2 \<le> length buf \<Longrightarrow> \<exists>x rest. get_u16_le B buf = (x, rest) \<and> buf = put_u16_le B [] x @ rest"
  by (metis put_get_u16 prod.collapse)

lemma get_split_u32: "4 \<le> length buf \<Longrightarrow> \<exists>x rest. get_u32_le B buf = (x, rest) \<and> buf = put_u32_le B [] x @ rest"
  by (metis put_get_u32 prod.collapse)

lemma header_encode_surj:
  assumes "KcpHeader_SIZE \<le> length buf"
  shows "\<exists>h rest. buf = KcpHeader_encode B h [] @ rest"
proof -
  obtain conv b1 where b1: "buf = put_u32_le B [] conv @ b1"
    using get_split_u32 [of buf] assms by auto
  have l1: "20 \<le> length b1" using assms by (simp add: b1 put_length)
  obtain cmd b2 where b2: "b1 = put_u8 B [] cmd @ b2"
    using get_split_u8 [of b1] l1 by auto
  have l2: "19 \<le> length b2" using l1 by (simp add: b2 put_length)
  obtain frg b3 where b3: "b2 = put_u8 B [] frg @ b3"
    using get_split_u8 [of b2] l2 by auto
  have l3: "18 \<le> length b3" using l2 by (simp add: b3 put_length)
  obtain wnd b4 where b4: "b3 = put_u16_le B [] wnd @ b4"
    using get_split_u16 [of b3] l3 by auto
  have l4: "16 \<le> length b4" using l3 by (simp add: b4 put_length)
  obtain ts b5 where b5: "b4 = put_u32_le B [] ts @ b5"
    using get_split_u32 [of b4] l4 by auto
  have l5: "12 \<le> length b5" using l4 by (simp add: b5 put_length)
  obtain sn b6 where b6: "b5 = put_u32_le B [] sn @ b6"
    using get_split_u32 [of b5] l5 by auto
  have l6: "8 \<le> length b6" using l5 by (simp add: b6 put_length)
  obtain una b7 where b7: "b6 = put_u32_le B [] una @ b7"
    using get_split_u32 [of b6] l6 by auto
  have l7: "4 \<le> length b7" using l6 by (simp add: b7 put_length)
  obtain len b8 where b8: "b7 = put_u32_le B [] len @ b8"
    using get_split_u32 [of b7] l7 by auto
  let ?h = "\<lparr> h_conv = conv, h_cmd = cmd, h_frg = frg, h_wnd = wnd, h_ts = ts, h_sn = sn,
              h_una = una, h_len = len \<rparr>"
  have "buf = KcpHeader_encode B ?h [] @ b8"
    by (simp add: header_encode_flat b1 b2 b3 b4 b5 b6 b7 b8)
  then show ?thesis by blast
qed

lemma header_decode_total:
  assumes "KcpHeader_SIZE \<le> length buf"
  shows "\<exists>h rest. KcpHeader_decode B buf = Some (h, rest) \<and> buf = KcpHeader_encode B h [] @ rest
           \<and> rest = drop KcpHeader_SIZE buf"
proof -
  obtain h rest where b: "buf = KcpHeader_encode B h [] @ rest"
    using header_encode_surj [OF assms] by blast
  then have "rest = drop KcpHeader_SIZE buf"
    by (simp add: header_encode_length)
  with b show ?thesis
    using header_decode_encode by blast
qed

lemma segment_encode_append: "KcpSegment_encode B seg buf = buf @ KcpSegment_encode B seg []"
  by (simp add: KcpSegment_encode_def header_encode_append [of _ buf])

lemma segment_encode_length: "length (KcpSegment_encode B seg buf) = length buf + KcpSegment_size seg"
  by (simp add: KcpSegment_encode_def KcpSegment_size_def header_encode_length)

lemma segment_decode_encode:
  assumes "unat (h_len (s_header seg)) = length (s_data seg)"
  shows "KcpSegment_decode B (KcpSegment_encode B seg []) =
           Some (seg\<lparr>s_resendts := 0, s_rto := IKCP_RTO_DEF, s_fastack := 0, s_xmit := 0\<rparr>)"
  using assms by (simp add: KcpSegment_decode_def KcpSegment_encode_def header_decode_encode)

end

section \<open>The little-endian instance satisfies the laws\<close>

lemma u16_from_to_le_bytes: "u16_from_le_bytes (u16_to_le_bytes x) = x"
  unfolding u16_from_le_bytes_def u16_to_le_bytes_def
  by (rule bit_word_eqI) (auto simp: bit_simps)

lemma u32_from_to_le_bytes: "u32_from_le_bytes (u32_to_le_bytes x) = x"
proof (rule bit_word_eqI)
  fix n
  assume n: "n < LENGTH(32)"
  consider "n < 8" | "8 \<le> n" "n < 16" | "16 \<le> n" "n < 24" | "24 \<le> n" "n < 32"
    using n by fastforce
  then show "bit (u32_from_le_bytes (u32_to_le_bytes x)) n = bit x n"
    by cases (auto simp: u32_from_le_bytes_def u32_to_le_bytes_def bit_simps)
qed

lemma u8_bit_high: "8 \<le> n \<Longrightarrow> \<not> bit (b :: u8) n"
  using bit_imp_le_length [of b n] by auto

lemma u16_to_from_le_bytes: "u16_to_le_bytes (u16_from_le_bytes [b0, b1]) = [b0, b1]"
  unfolding u16_from_le_bytes_def u16_to_le_bytes_def
  by (auto intro!: bit_word_eqI simp: bit_simps u8_bit_high)

lemma u32_to_from_le_bytes:
  "u32_to_le_bytes (u32_from_le_bytes [b0, b1, b2, b3]) = [b0, b1, b2, b3]"
  unfolding u32_from_le_bytes_def u32_to_le_bytes_def
  by (auto intro!: bit_word_eqI simp: bit_simps u8_bit_high)

lemma take_2_split: "2 \<le> length xs \<Longrightarrow> \<exists>a b. take 2 xs = [a, b]"
  by (cases xs; cases "tl xs") auto

lemma take_4_split: "4 \<le> length xs \<Longrightarrow> \<exists>a b c d. take 4 xs = [a, b, c, d]"
  by (cases xs; cases "tl xs"; cases "tl (tl xs)"; cases "tl (tl (tl xs))") auto

interpretation le: buf_codec le_buf_api
proof unfold_locales
  fix buf :: bytes
  assume "2 \<le> length buf"
  then obtain a b where "take 2 buf = [a, b]" using take_2_split by blast
  then show "put_u16_le le_buf_api [] (fst (get_u16_le le_buf_api buf)) @ snd (get_u16_le le_buf_api buf) = buf"
    by (simp add: le_buf_api_def u16_to_from_le_bytes) (metis append_take_drop_id append_Cons append_Nil)
next
  fix buf :: bytes
  assume "4 \<le> length buf"
  then obtain a b c d where "take 4 buf = [a, b, c, d]" using take_4_split by blast
  then show "put_u32_le le_buf_api [] (fst (get_u32_le le_buf_api buf)) @ snd (get_u32_le le_buf_api buf) = buf"
    by (simp add: le_buf_api_def u32_to_from_le_bytes) (metis append_take_drop_id append_Cons append_Nil)
next
  fix x :: u16 and buf :: bytes
  show "get_u16_le le_buf_api (put_u16_le le_buf_api [] x @ buf) = (x, buf)"
    using u16_from_to_le_bytes [of x] by (simp add: le_buf_api_def u16_to_le_bytes_def)
next
  fix x :: u32 and buf :: bytes
  show "get_u32_le le_buf_api (put_u32_le le_buf_api [] x @ buf) = (x, buf)"
    using u32_from_to_le_bytes [of x] by (simp add: le_buf_api_def u32_to_le_bytes_def)
qed (auto simp: le_buf_api_def u16_to_le_bytes_def u32_to_le_bytes_def Suc_le_length_iff)

section \<open>Properties\<close>

text \<open>
  C19. Segment round trip. For any buffer implementation that follows the documented contract,
  encoding a segment whose \<open>len\<close> field is its payload length appends exactly \<open>size()\<close> bytes, and
  decoding these bytes gives the segment back with its transmission bookkeeping (resend time, RTO,
  fast-ack and transmit counters) reset.
\<close>

theorem segment_roundtrip:
  assumes "buf_codec B" and "unat (h_len (s_header seg)) = length (s_data seg)"
  shows "length (KcpSegment_encode B seg buf) = length buf + KcpSegment_size seg
       \<and> KcpSegment_encode B seg buf = buf @ KcpSegment_encode B seg []
       \<and> KcpSegment_decode B (KcpSegment_encode B seg []) =
           Some (seg\<lparr>s_resendts := 0, s_rto := IKCP_RTO_DEF, s_fastack := 0, s_xmit := 0\<rparr>)"
  using buf_codec.segment_encode_length [OF assms(1), of seg buf]
    buf_codec.segment_encode_append [OF assms(1), of seg buf] buf_codec.segment_decode_encode [OF assms]
  by blast

definition sample_segment :: KcpSegment where
  "sample_segment = (KcpSegment_push 7 305419896 9 [1, 2, 3])\<lparr>s_xmit := 4, s_rto := 350\<rparr>"

theorem segment_roundtrip_witness:
  "buf_codec le_buf_api \<and>
   KcpSegment_decode le_buf_api (KcpSegment_encode le_buf_api sample_segment []) =
     Some (sample_segment\<lparr>s_resendts := 0, s_rto := IKCP_RTO_DEF, s_fastack := 0, s_xmit := 0\<rparr>)"
proof -
  have "unat (h_len (s_header sample_segment)) = length (s_data sample_segment)"
    by (simp add: sample_segment_def KcpSegment_push_def KcpSegment_new_def KcpHeader_new_def)
  from segment_roundtrip [OF le.buf_codec_axioms this] show ?thesis
    using le.buf_codec_axioms by blast
qed

text \<open>
  The header decoder is total and exact: on fewer than 24 bytes it returns \<open>None\<close>; on 24 or more
  it returns a header, leaves everything after byte 24, and the header re-encodes to the bytes read.
\<close>

theorem header_decode_exact:
  assumes "buf_codec B"
  shows "(length buf < 24 \<longrightarrow> KcpHeader_decode B buf = None)
       \<and> (24 \<le> length buf \<longrightarrow>
            (\<exists>h. KcpHeader_decode B buf = Some (h, drop 24 buf) \<and> KcpHeader_encode B h [] = take 24 buf))"
proof (intro conjI impI)
  assume "length buf < 24"
  then show "KcpHeader_decode B buf = None" by (simp add: KcpHeader_decode_def)
next
  assume "24 \<le> length buf"
  then obtain h rest where h: "KcpHeader_decode B buf = Some (h, rest)"
      "buf = KcpHeader_encode B h [] @ rest" "rest = drop 24 buf"
    using buf_codec.header_decode_total [OF assms] by blast
  then have "KcpHeader_encode B h [] = take 24 buf"
    by (metis append_take_drop_id append_same_eq)
  moreover have "KcpHeader_decode B buf = Some (h, drop 24 buf)"
    using h(1) by (simp only: h(3) [symmetric])
  ultimately show "\<exists>h. KcpHeader_decode B buf = Some (h, drop 24 buf) \<and> KcpHeader_encode B h [] = take 24 buf"
    by blast
qed

theorem header_decode_exact_witness:
  "\<exists>h. KcpHeader_decode le_buf_api (replicate 25 7) = Some (h, [7]) \<and>
       KcpHeader_encode le_buf_api h [] = replicate 24 7"
  using header_decode_exact [OF le.buf_codec_axioms, of "replicate 25 7"] by simp

text \<open>
  Wrap-around of sequence numbers. For two numbers at distances \<open>i\<close> and \<open>j\<close> from any base, both
  less than \<open>2^31\<close>, \<open>seq_before\<close> and \<open>seq_after\<close> order them as \<open>i\<close> and \<open>j\<close>, and \<open>time_diff\<close> is \<open>i - j\<close>,
  also when the 32-bit counter wraps between them.
\<close>

theorem seq_order_wraps:
  assumes "i < 2 ^ 31" and "j < 2 ^ 31"
  shows "seq_before (x + word_of_nat i) (x + word_of_nat j) = (i < j)
       \<and> seq_after (x + word_of_nat i) (x + word_of_nat j) = (j < i)
       \<and> time_diff (x + word_of_nat i) (x + word_of_nat j) = int i - int j"
proof -
  have d: "unat (word_of_nat k :: u32) = k" if "k < 2 ^ 31" for k
    using that by (simp add: unat_of_nat)
  have t: "time_diff (x + word_of_nat i) (x + word_of_nat j) = int i - int j"
    using time_diff_base [of "x + word_of_nat i" x "x + word_of_nat j"] assms by (simp add: d)
  show ?thesis
    using t by (auto simp: seq_before_time_diff seq_after_time_diff)
qed

theorem seq_order_wraps_witness:
  "seq_before (4294967295 + word_of_nat 0) (4294967295 + word_of_nat 5) = ((0::nat) < 5)"
  using seq_order_wraps [of 0 5 4294967295] by simp

text \<open>
  The millisecond clock is cast to 32 bits and wraps after about 49.7 days; \<open>time_diff\<close> of two
  readings less than \<open>2^31\<close> ms apart is still the elapsed time.
\<close>

theorem clock_difference_exact:
  assumes "d < 2 ^ 31"
  shows "time_diff (current_timestamp (t + d)) (current_timestamp t) = int d"
proof -
  have "current_timestamp (t + d) - current_timestamp t = word_of_nat d"
    by (simp add: current_timestamp_def)
  then show ?thesis
    using assms by (simp add: time_diff_unat unat_of_nat)
qed

theorem clock_difference_exact_witness:
  "time_diff (current_timestamp (4294967290 + 10)) (current_timestamp 4294967290) = int 10"
  using clock_difference_exact [of 10 4294967290] by simp

lemma random_conv_id_nonzero: "random_conv_id rnd k = Some c \<Longrightarrow> c \<noteq> 0"
proof (rule random_conv_id.raw_induct [where P = "\<lambda>rnd k c. c \<noteq> 0"])
  fix f :: "(nat \<Rightarrow> u64) \<Rightarrow> nat \<Rightarrow> u32 option" and rnd k c
  assume "\<And>rnd k c. f rnd k = Some c \<Longrightarrow> c \<noteq> 0"
    and "(let id = ucast (rnd k) in if id \<noteq> 0 then Some id else f rnd (Suc k)) = Some c"
  then show "c \<noteq> 0" by (auto simp: Let_def split: if_splits)
qed

lemma random_conv_id_returns:
  "(ucast (rnd (k + n)) :: u32) \<noteq> 0 \<Longrightarrow> \<exists>c. random_conv_id rnd k = Some c"
proof (induction n arbitrary: k)
  case 0
  then show ?case by (subst random_conv_id.simps) simp
next
  case (Suc n)
  then obtain c where "random_conv_id rnd (Suc k) = Some c" by force
  then show ?case by (subst random_conv_id.simps) (auto simp: Let_def)
qed

text \<open>
  \<open>random_conv_id\<close> never returns 0, the id reserved for an unassigned conversation, and it returns
  whenever the random source yields a value with non-zero low 32 bits.
\<close>

theorem random_conv_id_returns_nonzero:
  assumes "(ucast (rnd n) :: u32) \<noteq> 0"
  shows "\<exists>c. random_conv_id rnd 0 = Some c \<and> c \<noteq> 0"
  using random_conv_id_returns [of rnd 0 n] random_conv_id_nonzero [of rnd 0] assms by auto

theorem random_conv_id_returns_nonzero_witness:
  "\<exists>c. random_conv_id (\<lambda>k. if k = 0 then 4294967296 else 77) 0 = Some c \<and> c \<noteq> 0"
proof (rule random_conv_id_returns_nonzero [of "\<lambda>k. if k = 0 then 4294967296 else 77" 1])
  show "(ucast ((\<lambda>k::nat. if k = 0 then 4294967296 else 77 :: u64) 1) :: u32) \<noteq> 0" by simp
qed

end
