(* ===== verification/Kcp_Error.thy ===== *)
theory Kcp_Error
  imports Kcp_Prelude
begin

text \<open>
  The error types: \<open>KcpCoreError\<close> of \<open>kcp-core/src/error.rs\<close> with its fatality test, and \<open>KcpError\<close>
  and \<open>ConnectionError\<close> of \<open>kcp/error.rs\<close> with the conversion from core errors and the four
  predicates. \<open>io_error_kind\<close> is \<open>std::io::ErrorKind\<close>, of which the code names eight variants.
\<close>

section \<open>Core errors\<close>

datatype KcpCoreError =
    Core_Protocol string
  | Core_Buffer string
  | Core_ConnectionLost

type_synonym 'a KcpCoreResult = "KcpCoreError + 'a"

definition core_protocol :: "string \<Rightarrow> KcpCoreError" where
  "core_protocol message = Core_Protocol message"

definition core_buffer :: "string \<Rightarrow> KcpCoreError" where
  "core_buffer message = Core_Buffer message"

definition core_connection_lost :: KcpCoreError where
  "core_connection_lost = Core_ConnectionLost"

fun core_is_fatal :: "KcpCoreError \<Rightarrow> bool" where
  "core_is_fatal Core_ConnectionLost = True"
| "core_is_fatal _ = False"

fun core_error_fmt :: "KcpCoreError \<Rightarrow> string" where
  "core_error_fmt (Core_Protocol message) = ''Protocol error: '' @ message"
| "core_error_fmt (Core_Buffer message) = ''Buffer error: '' @ message"
| "core_error_fmt Core_ConnectionLost = ''Connection lost''"

section \<open>Errors of the async layer\<close>

datatype ConnectionError =
  Closed | Reset | Refused | Lost | InvalidConv | HandshakeFailed | ConnTimeout | NotConnected

fun ConnectionError_fmt :: "ConnectionError \<Rightarrow> string" where
  "ConnectionError_fmt Closed = ''connection closed''"
| "ConnectionError_fmt Reset = ''connection reset by peer''"
| "ConnectionError_fmt Refused = ''connection refused''"
| "ConnectionError_fmt Lost = ''connection lost''"
| "ConnectionError_fmt InvalidConv = ''invalid conversation ID''"
| "ConnectionError_fmt HandshakeFailed = ''handshake failed''"
| "ConnectionError_fmt ConnTimeout = ''connection timed out''"
| "ConnectionError_fmt NotConnected = ''not connected''"

datatype io_error_kind =
    WouldBlock | TimedOut | Interrupted | BrokenPipe | ConnectionAborted | ConnectionRefused
  | ConnectionReset | UnexpectedEof | OtherKind string

datatype KcpError =
    Io io_error_kind
  | Protocol string
  | Connection ConnectionError
  | Timeout u64
  | Buffer string
  | Config string
  | Session string
  | Internal string

type_synonym 'a KcpResult = "KcpError + 'a"

fun KcpError_from :: "KcpCoreError \<Rightarrow> KcpError" where
  "KcpError_from (Core_Protocol message) = Protocol message"
| "KcpError_from (Core_Buffer message) = Buffer message"
| "KcpError_from Core_ConnectionLost = Connection Lost"

fun is_recoverable :: "KcpError \<Rightarrow> bool" where
  "is_recoverable (Io e) = (e = WouldBlock \<or> e = TimedOut \<or> e = Interrupted)"
| "is_recoverable (Timeout _) = True"
| "is_recoverable (Buffer _) = True"
| "is_recoverable _ = False"

fun is_connection_error :: "KcpError \<Rightarrow> bool" where
  "is_connection_error (Connection _) = True"
| "is_connection_error _ = False"

fun is_fatal :: "KcpError \<Rightarrow> bool" where
  "is_fatal (Connection kind) = (kind = Lost \<or> kind = Closed \<or> kind = Reset)"
| "is_fatal (Internal _) = True"
| "is_fatal _ = False"

fun is_closed :: "KcpError \<Rightarrow> bool" where
  "is_closed (Connection kind) = (kind = Closed \<or> kind = Reset \<or> kind = Refused)"
| "is_closed (Io e) =
     (e = BrokenPipe \<or> e = ConnectionAborted \<or> e = ConnectionRefused \<or> e = ConnectionReset \<or>
      e = UnexpectedEof)"
| "is_closed _ = False"

section \<open>Properties\<close>

text \<open>
  The conversion from core errors keeps fatality: a core error stops the actor exactly when the
  converted error is fatal, and then it is a lost connection. No error is both fatal and recoverable,
  and no recoverable error reports a closed connection.
\<close>

theorem error_classes_consistent:
  "is_fatal (KcpError_from e) = core_is_fatal e
   \<and> (core_is_fatal e = (KcpError_from e = Connection Lost))
   \<and> \<not> (is_fatal k \<and> is_recoverable k)
   \<and> \<not> (is_closed k \<and> is_recoverable k)"
  by (cases e; cases k) auto

end
