(* ===== verification/Kcp_Config.thy ===== *)
theory Kcp_Config
  imports Complex_Main Kcp_Protocol Kcp_Error
begin

text \<open>
  The configurations: \<open>NodeDelayConfig\<close> and \<open>KcpCoreConfig\<close> of \<open>kcp-core/src/config.rs\<close>, which the
  engine reads, and \<open>KcpConfig\<close> of \<open>kcp/config.rs\<close> with its builder methods, presets, validation and the
  extraction of the core fields. A \<open>Duration\<close> is its number of nanoseconds. Of \<open>f32\<close> the code only uses
  the comparison with the bounds of \<open>0.0..=1.0\<close>, so a float is its rational value, an infinity or NaN.
\<close>

section \<open>Core configuration\<close>

record NodeDelayConfig =
  n_nodelay :: bool
  n_interval :: u32
  n_resend :: u32
  n_no_congestion_control :: bool

definition NodeDelayConfig_normal :: NodeDelayConfig where
  "NodeDelayConfig_normal =
     \<lparr> n_nodelay = False, n_interval = 40, n_resend = 0, n_no_congestion_control = False \<rparr>"

definition NodeDelayConfig_fast :: NodeDelayConfig where
  "NodeDelayConfig_fast =
     \<lparr> n_nodelay = True, n_interval = 8, n_resend = 2, n_no_congestion_control = False \<rparr>"

definition NodeDelayConfig_turbo :: NodeDelayConfig where
  "NodeDelayConfig_turbo =
     \<lparr> n_nodelay = True, n_interval = 4, n_resend = 1, n_no_congestion_control = True \<rparr>"

definition NodeDelayConfig_gaming :: NodeDelayConfig where
  "NodeDelayConfig_gaming =
     \<lparr> n_nodelay = True, n_interval = 3, n_resend = 1, n_no_congestion_control = True \<rparr>"

definition NodeDelayConfig_custom :: "bool \<Rightarrow> u32 \<Rightarrow> u32 \<Rightarrow> bool \<Rightarrow> NodeDelayConfig" where
  "NodeDelayConfig_custom nodelay interval resend no_congestion_control =
     \<lparr> n_nodelay = nodelay, n_interval = interval, n_resend = resend,
       n_no_congestion_control = no_congestion_control \<rparr>"

record KcpCoreConfig =
  c_mtu :: u32
  c_snd_wnd :: u32
  c_rcv_wnd :: u32
  c_nodelay :: NodeDelayConfig
  c_max_retries :: u32
  c_stream_mode :: bool

definition KcpCoreConfig_default :: KcpCoreConfig where
  "KcpCoreConfig_default =
     \<lparr> c_mtu = 1400, c_snd_wnd = 32, c_rcv_wnd = 128, c_nodelay = NodeDelayConfig_normal,
       c_max_retries = 20, c_stream_mode = False \<rparr>"

instantiation KcpCoreConfig_ext :: (default) default
begin

definition default_KcpCoreConfig_ext :: "'a KcpCoreConfig_scheme" where
  "default_KcpCoreConfig_ext = KcpCoreConfig.extend KcpCoreConfig_default default"

instance ..

end

lemma default_KcpCoreConfig [simp]: "(default :: KcpCoreConfig) = KcpCoreConfig_default"
  by (simp add: default_KcpCoreConfig_ext_def KcpCoreConfig.extend_def KcpCoreConfig_default_def)

section \<open>Configuration of the async layer\<close>

datatype f32 = Finite rat | PosInf | NegInf | NaN

text \<open>\<open>(0.0..=1.0).contains(&x)\<close>; every comparison with NaN is false.\<close>

fun in_unit_range :: "f32 \<Rightarrow> bool" where
  "in_unit_range (Finite q) = (0 \<le> q \<and> q \<le> 1)"
| "in_unit_range _ = False"

type_synonym duration = nat

definition from_secs :: "nat \<Rightarrow> duration" where
  "from_secs s = s * 1000000000"

definition as_millis :: "duration \<Rightarrow> nat" where
  "as_millis d = d div 1000000"

record KcpConfig =
  k_mtu :: u32
  k_snd_wnd :: u32
  k_rcv_wnd :: u32
  k_nodelay :: NodeDelayConfig
  k_max_retries :: u32
  k_stream_mode :: bool
  k_connect_timeout :: duration
  k_keep_alive :: "duration option"
  k_socket_buffer_size :: "usize option"
  k_simulate_packet_loss :: "f32 option"
  k_max_pending_connections :: usize
  k_cleanup_interval :: duration

definition KcpConfig_default :: KcpConfig where
  "KcpConfig_default =
     \<lparr> k_mtu = 1400, k_snd_wnd = 32, k_rcv_wnd = 128, k_nodelay = NodeDelayConfig_normal,
       k_max_retries = 20, k_stream_mode = False, k_connect_timeout = from_secs 10,
       k_keep_alive = Some (from_secs 30), k_socket_buffer_size = None,
       k_simulate_packet_loss = None, k_max_pending_connections = 256,
       k_cleanup_interval = from_secs 30 \<rparr>"

instantiation KcpConfig_ext :: (default) default
begin

definition default_KcpConfig_ext :: "'a KcpConfig_scheme" where
  "default_KcpConfig_ext = KcpConfig.extend KcpConfig_default default"

instance ..

end

lemma default_KcpConfig [simp]: "(default :: KcpConfig) = KcpConfig_default"
  by (simp add: default_KcpConfig_ext_def KcpConfig.extend_def KcpConfig_default_def)

definition KcpCoreConfig_from :: "KcpConfig \<Rightarrow> KcpCoreConfig" where
  "KcpCoreConfig_from c =
     \<lparr> c_mtu = k_mtu c, c_snd_wnd = k_snd_wnd c, c_rcv_wnd = k_rcv_wnd c, c_nodelay = k_nodelay c,
       c_max_retries = k_max_retries c, c_stream_mode = k_stream_mode c \<rparr>"

definition KcpConfig_new :: KcpConfig where
  "KcpConfig_new = KcpConfig_default"

definition cfg_mtu :: "u32 \<Rightarrow> KcpConfig \<Rightarrow> KcpConfig" where
  "cfg_mtu mtu c = c\<lparr>k_mtu := mtu\<rparr>"

definition cfg_send_window :: "u32 \<Rightarrow> KcpConfig \<Rightarrow> KcpConfig" where
  "cfg_send_window wnd c = c\<lparr>k_snd_wnd := wnd\<rparr>"

definition cfg_recv_window :: "u32 \<Rightarrow> KcpConfig \<Rightarrow> KcpConfig" where
  "cfg_recv_window wnd c = c\<lparr>k_rcv_wnd := wnd\<rparr>"

definition cfg_window_size :: "u32 \<Rightarrow> u32 \<Rightarrow> KcpConfig \<Rightarrow> KcpConfig" where
  "cfg_window_size snd_wnd rcv_wnd c = c\<lparr>k_snd_wnd := snd_wnd, k_rcv_wnd := rcv_wnd\<rparr>"

definition cfg_normal_mode :: "KcpConfig \<Rightarrow> KcpConfig" where
  "cfg_normal_mode c = c\<lparr>k_nodelay := NodeDelayConfig_normal\<rparr>"

definition cfg_fast_mode :: "KcpConfig \<Rightarrow> KcpConfig" where
  "cfg_fast_mode c = c\<lparr>k_nodelay := NodeDelayConfig_fast\<rparr>"

definition cfg_turbo_mode :: "KcpConfig \<Rightarrow> KcpConfig" where
  "cfg_turbo_mode c = c\<lparr>k_nodelay := NodeDelayConfig_turbo\<rparr>"

definition cfg_nodelay_config :: "NodeDelayConfig \<Rightarrow> KcpConfig \<Rightarrow> KcpConfig" where
  "cfg_nodelay_config config c = c\<lparr>k_nodelay := config\<rparr>"

definition cfg_max_retries :: "u32 \<Rightarrow> KcpConfig \<Rightarrow> KcpConfig" where
  "cfg_max_retries retries c = c\<lparr>k_max_retries := retries\<rparr>"

definition cfg_stream_mode :: "bool \<Rightarrow> KcpConfig \<Rightarrow> KcpConfig" where
  "cfg_stream_mode enabled c = c\<lparr>k_stream_mode := enabled\<rparr>"

definition cfg_connect_timeout :: "duration \<Rightarrow> KcpConfig \<Rightarrow> KcpConfig" where
  "cfg_connect_timeout timeout c = c\<lparr>k_connect_timeout := timeout\<rparr>"

definition cfg_keep_alive :: "duration option \<Rightarrow> KcpConfig \<Rightarrow> KcpConfig" where
  "cfg_keep_alive interval c = c\<lparr>k_keep_alive := interval\<rparr>"

definition cfg_socket_buffer_size :: "usize \<Rightarrow> KcpConfig \<Rightarrow> KcpConfig" where
  "cfg_socket_buffer_size n c = c\<lparr>k_socket_buffer_size := Some n\<rparr>"

definition cfg_simulate_packet_loss :: "f32 \<Rightarrow> KcpConfig \<Rightarrow> KcpConfig" where
  "cfg_simulate_packet_loss loss_rate c =
     (if in_unit_range loss_rate then c\<lparr>k_simulate_packet_loss := Some loss_rate\<rparr> else c)"

definition validate :: "KcpConfig \<Rightarrow> unit KcpResult" where
  "validate c =
     (if k_mtu c < 64 \<or> k_mtu c > 65535 then Err (Config ''MTU must be between 64 and 65535'')
      else if k_snd_wnd c = 0 \<or> k_rcv_wnd c = 0
        then Err (Config ''Window sizes must be greater than 0'')
      else if k_snd_wnd c > 65535 \<or> k_rcv_wnd c > 65535
        then Err (Config ''Window sizes must not exceed 65535'')
      else if n_interval (k_nodelay c) = 0
        then Err (Config ''Update interval must be greater than 0'')
      else if k_max_retries c = 0 then Err (Config ''Max retries must be greater than 0'')
      else Ok ())"

definition preset_gaming :: KcpConfig where
  "preset_gaming =
     cfg_keep_alive (Some (from_secs 10)) (cfg_connect_timeout (from_secs 3) (cfg_mtu 1200
       (cfg_window_size 64 128 (cfg_nodelay_config NodeDelayConfig_gaming KcpConfig_default))))"

definition preset_file_transfer :: KcpConfig where
  "preset_file_transfer =
     cfg_keep_alive (Some (from_secs 60)) (cfg_connect_timeout (from_secs 30) (cfg_stream_mode True
       (cfg_mtu 1400 (cfg_window_size 256 256 (cfg_normal_mode KcpConfig_default)))))"

definition preset_realtime :: KcpConfig where
  "preset_realtime =
     cfg_keep_alive (Some (from_secs 10)) (cfg_connect_timeout (from_secs 3) (cfg_mtu 1200
       (cfg_window_size 64 64 (cfg_fast_mode KcpConfig_default))))"

definition preset_testing :: "f32 \<Rightarrow> KcpConfig" where
  "preset_testing packet_loss =
     cfg_connect_timeout (from_secs 5) (cfg_simulate_packet_loss packet_loss
       (cfg_fast_mode KcpConfig_default))"

lemmas config_defs =
  KcpConfig_default_def KcpConfig_new_def KcpCoreConfig_from_def KcpCoreConfig_default_def
  NodeDelayConfig_normal_def NodeDelayConfig_fast_def NodeDelayConfig_turbo_def
  NodeDelayConfig_gaming_def NodeDelayConfig_custom_def
  cfg_mtu_def cfg_send_window_def cfg_recv_window_def cfg_window_size_def cfg_normal_mode_def
  cfg_fast_mode_def cfg_turbo_mode_def cfg_nodelay_config_def cfg_max_retries_def
  cfg_stream_mode_def cfg_connect_timeout_def cfg_keep_alive_def cfg_socket_buffer_size_def
  cfg_simulate_packet_loss_def preset_gaming_def preset_file_transfer_def preset_realtime_def
  preset_testing_def

section \<open>What validation guarantees\<close>

text \<open>The condition on a core configuration under which the engine's window arithmetic is exact.\<close>

definition core_config_ok :: "KcpCoreConfig \<Rightarrow> bool" where
  "core_config_ok c \<longleftrightarrow>
     0 < c_snd_wnd c \<and> c_snd_wnd c \<le> 65535 \<and> 0 < c_rcv_wnd c \<and> c_rcv_wnd c \<le> 65535 \<and>
     c_mtu c \<le> 65535 \<and> 0 < n_interval (c_nodelay c) \<and> 0 < c_max_retries c"

lemma validate_Ok_iff:
  "validate c = Ok () \<longleftrightarrow>
     64 \<le> k_mtu c \<and> k_mtu c \<le> 65535 \<and> 0 < k_snd_wnd c \<and> k_snd_wnd c \<le> 65535 \<and>
     0 < k_rcv_wnd c \<and> k_rcv_wnd c \<le> 65535 \<and> 0 < n_interval (k_nodelay c) \<and> 0 < k_max_retries c"
  by (auto simp: validate_def not_less word_neq_0_conv)

lemma validate_cases: "validate c = Ok () \<or> (\<exists>m. validate c = Err (Config m))"
  by (simp add: validate_def)

lemma validate_core_config_ok:
  "validate c = Ok () \<Longrightarrow> core_config_ok (KcpCoreConfig_from c)"
  by (simp add: validate_Ok_iff core_config_ok_def KcpCoreConfig_from_def)

section \<open>Properties\<close>

text \<open>
  C35. \<open>validate\<close> accepts a configuration exactly when the MTU is between 64 and 65535, both windows
  between 1 and 65535 (they fit the 16-bit window field of the wire), and the update interval and the
  retry limit are positive; every other configuration is refused with a configuration error, which is
  neither fatal nor recoverable.
\<close>

theorem validate_exact:
  "(validate c = Ok () \<longleftrightarrow>
     k_mtu c \<in> {64..65535} \<and> k_snd_wnd c \<in> {1..65535} \<and> k_rcv_wnd c \<in> {1..65535} \<and>
     1 \<le> n_interval (k_nodelay c) \<and> 1 \<le> k_max_retries c)
   \<and> (validate c = Ok () \<or>
      (\<exists>m. validate c = Err (Config m) \<and> \<not> is_fatal (Config m) \<and> \<not> is_recoverable (Config m)))"
proof -
  have one: "1 \<le> w \<longleftrightarrow> 0 < w" for w :: u32
    by (simp add: word_less_nat_alt word_le_nat_alt Suc_le_eq)
  have "validate c = Ok () \<longleftrightarrow>
     k_mtu c \<in> {64..65535} \<and> k_snd_wnd c \<in> {1..65535} \<and> k_rcv_wnd c \<in> {1..65535} \<and>
     1 \<le> n_interval (k_nodelay c) \<and> 1 \<le> k_max_retries c"
    by (simp add: validate_Ok_iff one)
  then show ?thesis
    using validate_cases [of c] by auto
qed

text \<open>
  Every preset and every builder mode starting from the default configuration passes validation,
  whatever loss rate is asked for; a loss rate outside \<open>0.0..=1.0\<close> (or NaN) is ignored.
\<close>

theorem presets_validate:
  "validate KcpConfig_new = Ok () \<and> validate preset_gaming = Ok ()
   \<and> validate preset_file_transfer = Ok () \<and> validate preset_realtime = Ok ()
   \<and> validate (preset_testing p) = Ok () \<and> validate (cfg_turbo_mode KcpConfig_new) = Ok ()
   \<and> k_simulate_packet_loss (preset_testing p) = (if in_unit_range p then Some p else None)"
  by (simp add: validate_def config_defs)

end
