(* ===== verification/Kcp_BTree.thy ===== *)
theory Kcp_BTree
  imports Kcp_Prelude
begin

text \<open>
  The receive buffer of the engine is a \<open>std::collections::BTreeMap<SeqNum, KcpSegment>\<close>. A tree is
  its entries in key order: an association list with strictly ascending keys. The theory gives the
  methods the engine calls (\<open>insert\<close>, \<open>remove\<close>, \<open>entry(..).or_insert(..)\<close>, \<open>len\<close>) and the interface
  \<open>finite_map\<close> through which the receive path uses them, interpreted on these methods.
\<close>

section \<open>Operations\<close>

type_synonym ('k, 'v) btree = "('k \<times> 'v) list"

definition bt_empty :: "('k, 'v) btree" where
  "bt_empty = []"

fun bt_get :: "('k::linorder, 'v) btree \<Rightarrow> 'k \<Rightarrow> 'v option" where
  "bt_get [] k = None"
| "bt_get ((a, b) # m) k = (if k = a then Some b else bt_get m k)"

fun bt_insert :: "'k::linorder \<Rightarrow> 'v \<Rightarrow> ('k, 'v) btree \<Rightarrow> ('k, 'v) btree" where
  "bt_insert k v [] = [(k, v)]"
| "bt_insert k v ((a, b) # m) =
     (if k < a then (k, v) # (a, b) # m
      else if k = a then (k, v) # m
      else (a, b) # bt_insert k v m)"

fun bt_remove :: "'k::linorder \<Rightarrow> ('k, 'v) btree \<Rightarrow> ('k, 'v) btree" where
  "bt_remove k [] = []"
| "bt_remove k ((a, b) # m) = (if k = a then m else (a, b) # bt_remove k m)"

definition bt_len :: "('k, 'v) btree \<Rightarrow> usize" where
  "bt_len m = length m"

definition bt_or_insert :: "'k::linorder \<Rightarrow> 'v \<Rightarrow> ('k, 'v) btree \<Rightarrow> ('k, 'v) btree" where
  "bt_or_insert k v m = (case bt_get m k of Some _ \<Rightarrow> m | None \<Rightarrow> bt_insert k v m)"

definition bt_invar :: "('k::linorder, 'v) btree \<Rightarrow> bool" where
  "bt_invar m = sorted_wrt (<) (map fst m)"

section \<open>The interface\<close>

locale finite_map =
  fixes emp :: 'm
    and get :: "'m \<Rightarrow> 'k \<Rightarrow> 'v option"
    and ins :: "'k \<Rightarrow> 'v \<Rightarrow> 'm \<Rightarrow> 'm"
    and rem :: "'k \<Rightarrow> 'm \<Rightarrow> 'm"
    and len :: "'m \<Rightarrow> nat"
    and invar :: "'m \<Rightarrow> bool"
  assumes get_emp: "get emp = (\<lambda>_. None)"
    and get_ins: "invar m \<Longrightarrow> get (ins k v m) = (get m)(k \<mapsto> v)"
    and get_rem: "invar m \<Longrightarrow> get (rem k m) = (get m)(k := None)"
    and len_card: "invar m \<Longrightarrow> finite (dom (get m)) \<and> len m = card (dom (get m))"
    and invar_emp: "invar emp"
    and invar_ins: "invar m \<Longrightarrow> invar (ins k v m)"
    and invar_rem: "invar m \<Longrightarrow> invar (rem k m)"
    and ins_rem: "invar m \<Longrightarrow> get m k = Some v \<Longrightarrow> ins k v (rem k m) = m"
begin

lemma len_emp: "len emp = 0"
  using len_card [OF invar_emp] by (simp add: get_emp)

lemma len_rem:
  assumes "invar m" "get m k = Some v"
  shows "Suc (len (rem k m)) = len m"
proof -
  have "dom (get (rem k m)) = dom (get m) - {k}"
    by (simp add: get_rem [OF assms(1)])
  moreover have "k \<in> dom (get m)" using assms(2) by blast
  ultimately show ?thesis
    using len_card [OF assms(1)] len_card [OF invar_rem [OF assms(1)], of k]
    by (simp add: card_Suc_Diff1 del: card_Diff_insert)
qed

lemma len_ins_new: "invar m \<Longrightarrow> get m k = None \<Longrightarrow> len (ins k v m) = Suc (len m)"
  using len_card [of m] len_card [of "ins k v m"] by (auto simp: invar_ins get_ins domIff)

lemma dom_le_len: "invar m \<Longrightarrow> finite A \<Longrightarrow> dom (get m) \<subseteq> A \<Longrightarrow> len m \<le> card A"
  using len_card [of m] by (simp add: card_mono)

end

section \<open>The interpretation\<close>

lemma bt_get_none_below:
  "bt_invar m \<Longrightarrow> \<forall>(a, b) \<in> set m. k < a \<Longrightarrow> bt_get m k = None"
  by (induction m) (auto simp: bt_invar_def)

lemma bt_invar_Cons: "bt_invar ((a, b) # m) \<longleftrightarrow> (\<forall>(c, d) \<in> set m. a < c) \<and> bt_invar m"
  by (auto simp: bt_invar_def)

lemma set_bt_insert: "set (bt_insert k v m) \<subseteq> insert (k, v) (set m)"
  by (induction k v m rule: bt_insert.induct) auto

lemma set_bt_remove: "set (bt_remove k m) \<subseteq> set m"
  by (induction k m rule: bt_remove.induct) auto

lemma bt_invar_insert: "bt_invar m \<Longrightarrow> bt_invar (bt_insert k v m)"
proof (induction k v m rule: bt_insert.induct)
  case (1 k v)
  show ?case by (simp add: bt_invar_def)
next
  case (2 k v a b m)
  then show ?case
    using set_bt_insert [of k v m] by (auto simp: bt_invar_Cons not_less)
qed

lemma bt_invar_remove: "bt_invar m \<Longrightarrow> bt_invar (bt_remove k m)"
proof (induction k m rule: bt_remove.induct)
  case (2 k a b m)
  then show ?case
    using set_bt_remove [of k m] by (auto simp: bt_invar_Cons)
qed simp

lemma bt_get_insert: "bt_invar m \<Longrightarrow> bt_get (bt_insert k v m) = (bt_get m)(k \<mapsto> v)"
  by (induction k v m rule: bt_insert.induct) (auto simp: fun_eq_iff bt_invar_Cons)

lemma bt_get_remove: "bt_invar m \<Longrightarrow> bt_get (bt_remove k m) = (bt_get m)(k := None)"
proof (induction k m rule: bt_remove.induct)
  case (2 k a b m)
  then show ?case
    using bt_get_none_below [of m a] by (auto simp: fun_eq_iff bt_invar_Cons)
qed (simp add: fun_eq_iff)

lemma bt_get_map_of: "bt_get m = map_of m"
  by (induction m) (auto simp: fun_eq_iff)

lemma dom_bt_get: "dom (bt_get m) = fst ` set m"
  by (simp add: bt_get_map_of dom_map_of_conv_image_fst)

lemma bt_insert_below: "\<forall>(a, b) \<in> set m. k < a \<Longrightarrow> bt_insert k v m = (k, v) # m"
  by (cases m) auto

lemma bt_insert_remove:
  "bt_invar m \<Longrightarrow> bt_get m k = Some v \<Longrightarrow> bt_insert k v (bt_remove k m) = m"
proof (induction k m rule: bt_remove.induct)
  case (2 k a b m)
  show ?case
  proof (cases "k = a")
    case True
    with 2 show ?thesis by (simp add: bt_invar_Cons bt_insert_below)
  next
    case False
    with 2 have g: "bt_get m k = Some v" by simp
    then have "k \<in> fst ` set m" using dom_bt_get [of m] by auto
    with 2 have "a < k" by (auto simp: bt_invar_Cons)
    with False g 2 show ?thesis by (simp add: bt_invar_Cons)
  qed
qed simp

interpretation bt: finite_map bt_empty bt_get bt_insert bt_remove bt_len bt_invar
proof unfold_locales
  fix m :: "('a, 'b) btree"
  assume "bt_invar m"
  then have "distinct (map fst m)"
    by (auto simp: bt_invar_def strict_sorted_iff)
  then show "finite (dom (bt_get m)) \<and> bt_len m = card (dom (bt_get m))"
    by (simp add: dom_bt_get bt_len_def distinct_card flip: set_map)
qed (auto simp: bt_empty_def bt_get_insert bt_get_remove bt_invar_insert bt_invar_remove
      bt_insert_remove fun_eq_iff, simp add: bt_invar_def)

lemma bt_get_or_insert:
  "bt_invar m \<Longrightarrow> bt_get (bt_or_insert k v m) =
     (bt_get m)(k := (case bt_get m k of Some u \<Rightarrow> Some u | None \<Rightarrow> Some v))"
  by (auto simp: bt_or_insert_def bt_get_insert fun_eq_iff split: option.splits)

lemma bt_invar_or_insert: "bt_invar m \<Longrightarrow> bt_invar (bt_or_insert k v m)"
  by (auto simp: bt_or_insert_def bt_invar_insert split: option.splits)

end
