(* ===== verification/Kcp_Engine_State.thy ===== *)
theory Kcp_Engine_State
  imports Kcp_Config Kcp_BTree
begin

text \<open>
  The state of the protocol engine of \<open>kcp-core/src/engine.rs\<close> (\<open>RttState\<close>, \<open>WindowState\<close>,
  \<open>ProbeState\<close>, \<open>KcpEngine\<close>), its constructor, and the accessors and small helpers the other
  engine theories share. The queues are lists with the front at the head, the receive buffer is a
  \<open>btree\<close>, and byte buffers are byte lists; capacities (\<open>with_capacity\<close>, \<open>reserve\<close>) have no
  counterpart.
\<close>

unbundle bit_operations_syntax

section \<open>State\<close>

record RttState =
  r_avg :: u32
  r_var :: u32
  r_rto :: u32
  r_min_rto :: u32

record WindowState =
  w_snd :: u32
  w_rcv :: u32
  w_rmt :: u32
  w_cwnd :: u32
  w_ssthresh :: u32
  w_incr :: u32

record ProbeState =
  p_flags :: u32
  p_wait :: u32
  p_ts :: Timestamp

definition ProbeState_default :: ProbeState where
  "ProbeState_default = \<lparr> p_flags = 0, p_wait = 0, p_ts = 0 \<rparr>"

instantiation ProbeState_ext :: (default) default
begin

definition default_ProbeState_ext :: "'a ProbeState_scheme" where
  "default_ProbeState_ext = ProbeState.extend ProbeState_default default"

instance ..

end

lemma default_ProbeState [simp]: "(default :: ProbeState) = ProbeState_default"
  by (simp add: default_ProbeState_ext_def ProbeState.extend_def ProbeState_default_def)

record KcpEngine =
  e_conv :: ConvId
  e_config :: KcpCoreConfig
  e_snd_una :: SeqNum
  e_snd_nxt :: SeqNum
  e_rcv_nxt :: SeqNum
  e_rtt :: RttState
  e_wnd :: WindowState
  e_probe :: ProbeState
  e_snd_queue :: "KcpSegment list"
  e_rcv_queue :: "KcpSegment list"
  e_snd_buf :: "KcpSegment list"
  e_rcv_buf :: "(SeqNum, KcpSegment) btree"
  e_ack_list :: "(SeqNum \<times> Timestamp) list"
  e_output_queue :: "bytes list"
  e_out_buf :: bytes
  e_stats :: KcpStats
  e_last_update :: Timestamp
  e_last_activity :: Timestamp
  e_dead_link :: u32

type_synonym 'a engine_result = "(KcpEngine, KcpCoreError, 'a) outcome"

section \<open>Construction\<close>

text \<open>Clock reads: \<open>clk 0\<close> for \<open>last_update\<close>, \<open>clk 1\<close> for \<open>last_activity\<close>.\<close>

definition KcpEngine_new :: "clock \<Rightarrow> ConvId \<Rightarrow> KcpCoreConfig \<Rightarrow> KcpEngine" where
  "KcpEngine_new clk conv config0 =
     (let config = config0\<lparr>c_mtu := max (c_mtu config0) (IKCP_OVERHEAD + 1)\<rparr>;
          min_rto = (if n_nodelay (c_nodelay config) then IKCP_RTO_NDL else IKCP_RTO_MIN)
      in \<lparr> e_conv = conv, e_config = config, e_snd_una = 0, e_snd_nxt = 0, e_rcv_nxt = 0,
           e_rtt = \<lparr> r_avg = 0, r_var = 0, r_rto = IKCP_RTO_DEF, r_min_rto = min_rto \<rparr>,
           e_wnd = \<lparr> w_snd = c_snd_wnd config, w_rcv = c_rcv_wnd config, w_rmt = IKCP_WND_RCV,
                     w_cwnd = c_snd_wnd config, w_ssthresh = IKCP_THRESH_INIT, w_incr = 0 \<rparr>,
           e_probe = ProbeState_default,
           e_snd_queue = [], e_rcv_queue = [], e_snd_buf = [], e_rcv_buf = bt_empty,
           e_ack_list = [], e_output_queue = [], e_out_buf = [],
           e_stats = KcpStats_default, e_last_update = clk 0, e_last_activity = clk 1,
           e_dead_link = c_max_retries config \<rparr>)"

definition start :: "KcpEngine \<Rightarrow> unit engine_result" where
  "start e = (e, Ok ())"

definition set_conv :: "ConvId \<Rightarrow> KcpEngine \<Rightarrow> KcpEngine" where
  "set_conv conv e = e\<lparr>e_conv := conv\<rparr>"

definition drain_output :: "KcpEngine \<Rightarrow> bytes list \<times> KcpEngine" where
  "drain_output e = (e_output_queue e, e\<lparr>e_output_queue := []\<rparr>)"

section \<open>Accessors and helpers\<close>

definition is_dead :: "KcpEngine \<Rightarrow> bool" where
  "is_dead e = list_ex (\<lambda>seg. e_dead_link e \<le> s_xmit seg) (e_snd_buf e)"

definition send_queue_len :: "KcpEngine \<Rightarrow> usize" where
  "send_queue_len e = length (e_snd_queue e)"

definition has_unsent_data :: "KcpEngine \<Rightarrow> bool" where
  "has_unsent_data e = (e_snd_queue e \<noteq> [] \<or> e_snd_buf e \<noteq> [])"

text \<open>\<open>now\<close> is the clock reading of the call.\<close>

definition idle_ms :: "Timestamp \<Rightarrow> KcpEngine \<Rightarrow> u32" where
  "idle_ms now e = saturating_sub now (e_last_activity e)"

definition mss :: "KcpEngine \<Rightarrow> u32" where
  "mss e = c_mtu (e_config e) - IKCP_OVERHEAD"

definition wnd_unused :: "KcpEngine \<Rightarrow> u32" where
  "wnd_unused e =
     (if length (e_rcv_queue e) < unat (w_rcv (e_wnd e))
      then w_rcv (e_wnd e) - word_of_nat (length (e_rcv_queue e)) else 0)"

definition reset_cwnd :: "KcpEngine \<Rightarrow> KcpEngine" where
  "reset_cwnd e = e\<lparr>e_wnd := (e_wnd e)\<lparr>w_cwnd := 1, w_incr := mss e\<rparr>\<rparr>"

definition create_probe_segment :: "Timestamp \<Rightarrow> u8 \<Rightarrow> KcpEngine \<Rightarrow> KcpSegment" where
  "create_probe_segment now cmd e =
     (let segment = KcpSegment_new now (e_conv e) cmd []
      in segment\<lparr>s_header := (s_header segment)\<lparr>h_wnd := ucast (wnd_unused e), h_una := e_rcv_nxt e\<rparr>\<rparr>)"

section \<open>Basic facts\<close>

text \<open>The invariant of the configuration part of the state: the constructor's MTU clamp.\<close>

definition mtu_ok :: "KcpEngine \<Rightarrow> bool" where
  "mtu_ok e \<longleftrightarrow> 25 \<le> unat (c_mtu (e_config e))"

lemma unat_mss: "mtu_ok e \<Longrightarrow> unat (mss e) = unat (c_mtu (e_config e)) - 24"
  by (simp add: mtu_ok_def mss_def unat_diff_cases)

lemma mss_pos: "mtu_ok e \<Longrightarrow> 0 < unat (mss e)"
  using unat_mss [of e] by (simp add: mtu_ok_def)

lemma mss_mtu: "mtu_ok e \<Longrightarrow> 24 + unat (mss e) = unat (c_mtu (e_config e))"
  using unat_mss [of e] by (simp add: mtu_ok_def)

lemma new_mtu_ok: "mtu_ok (KcpEngine_new clk conv config)"
  by (auto simp: mtu_ok_def KcpEngine_new_def max_def word_le_nat_alt)

lemma wnd_unused_unat:
  "unat (wnd_unused e) = unat (w_rcv (e_wnd e)) - length (e_rcv_queue e)"
proof (cases "length (e_rcv_queue e) < unat (w_rcv (e_wnd e))")
  case True
  then have "unat (word_of_nat (length (e_rcv_queue e)) :: u32) = length (e_rcv_queue e)"
    by (rule unat_word_of_nat_less)
  with True show ?thesis
    by (simp add: wnd_unused_def unat_diff_cases)
qed (simp add: wnd_unused_def)

section \<open>Properties\<close>

text \<open>
  The advertised receive window is exact: \<open>wnd_unused\<close> is the free room of the receive queue, and
  for a validated configuration the 16-bit window field of outgoing segments holds it without loss.
\<close>

theorem wnd_unused_exact:
  "unat (wnd_unused e) = unat (w_rcv (e_wnd e)) - length (e_rcv_queue e)
   \<and> (unat (w_rcv (e_wnd e)) \<le> 65535 \<longrightarrow>
        unat (ucast (wnd_unused e) :: u16) = unat (wnd_unused e))"
proof -
  have "unat (ucast (wnd_unused e) :: u16) = unat (wnd_unused e)" if "unat (w_rcv (e_wnd e)) \<le> 65535"
    using that by (intro unat_ucast_u16) (simp add: wnd_unused_unat)
  then show ?thesis by (simp add: wnd_unused_unat)
qed

theorem wnd_unused_exact_witness:
  "unat (ucast (wnd_unused (KcpEngine_new (\<lambda>_. 0) 1 KcpCoreConfig_default)) :: u16) = 128"
proof -
  have "unat (w_rcv (e_wnd (KcpEngine_new (\<lambda>_. 0) 1 KcpCoreConfig_default))) = 128"
    and "length (e_rcv_queue (KcpEngine_new (\<lambda>_. 0) 1 KcpCoreConfig_default)) = 0"
    by (simp_all add: KcpEngine_new_def KcpCoreConfig_default_def)
  then show ?thesis
    using wnd_unused_exact [of "KcpEngine_new (\<lambda>_. 0) 1 KcpCoreConfig_default"] by simp
qed

text \<open>
  A new engine has a usable segment size whatever MTU it is given: the MTU is clamped to at
  least 25, so \<open>mss()\<close> is at least 1 and header plus payload fill the MTU exactly; no subtraction
  underflows. The engine starts with both windows as configured, empty queues and no dead segment.
\<close>

theorem new_engine_mss_positive:
  "let e = KcpEngine_new clk conv config in
     1 \<le> unat (mss e) \<and> 24 + unat (mss e) = unat (c_mtu (e_config e))
     \<and> unat (c_mtu (e_config e)) = max (unat (c_mtu config)) 25
     \<and> w_snd (e_wnd e) = c_snd_wnd config \<and> w_rcv (e_wnd e) = c_rcv_wnd config
     \<and> \<not> has_unsent_data e \<and> \<not> is_dead e"
proof -
  let ?e = "KcpEngine_new clk conv config"
  have "unat (c_mtu (e_config ?e)) = max (unat (c_mtu config)) 25"
    by (simp add: KcpEngine_new_def max_def word_le_nat_alt)
  then show ?thesis
    using mss_pos [OF new_mtu_ok, of clk conv config] mss_mtu [OF new_mtu_ok, of clk conv config]
    by (simp add: KcpEngine_new_def has_unsent_data_def is_dead_def)
qed

text \<open>
  Idle time and the clock wrap. \<open>idle_ms\<close> is the time since the last activity as long as the
  32-bit clock has not wrapped in between; after the wrap it is 0, whatever the real idle time, until
  the clock passes the old reading again.
\<close>

theorem idle_ms_lost_at_clock_wrap:
  assumes "d < 4294967296"
  shows "unat (idle_ms (e_last_activity e + word_of_nat d) e) =
    (if unat (e_last_activity e) + d < 4294967296 then d else 0)"
proof -
  have d: "unat (word_of_nat d :: u32) = d" using assms by (rule unat_word_of_nat_u32)
  have sum: "unat (e_last_activity e + word_of_nat d) = (unat (e_last_activity e) + d) mod 4294967296"
    by (simp add: unat_word_ariths d)
  show ?thesis
  proof (cases "unat (e_last_activity e) + d < 4294967296")
    case True
    then show ?thesis by (simp add: idle_ms_def saturating_sub_def word_less_nat_alt sum d)
  next
    case False
    have "(unat (e_last_activity e) + d) mod 4294967296 = unat (e_last_activity e) + d - 4294967296"
      using False assms u32_unat_bound [of "e_last_activity e"] by (simp add: le_mod_geq)
    then have "e_last_activity e + word_of_nat d < e_last_activity e"
      unfolding word_less_nat_alt sum using False assms by linarith
    then show ?thesis using False by (simp add: idle_ms_def saturating_sub_def)
  qed
qed

theorem idle_ms_lost_at_clock_wrap_witness:
  "unat (idle_ms (- 10 + word_of_nat 60000) (KcpEngine_new (\<lambda>_. - 10) 1 KcpCoreConfig_default)) = 0"
proof -
  have "e_last_activity (KcpEngine_new (\<lambda>_. - 10) 1 KcpCoreConfig_default) = - 10"
    by (simp add: KcpEngine_new_def)
  moreover have "unat (- 10 :: u32) = 4294967286" by simp
  ultimately show ?thesis
    using idle_ms_lost_at_clock_wrap [of 60000 "KcpEngine_new (\<lambda>_. - 10) 1 KcpCoreConfig_default"] by simp
qed

end
