(* ===== verification/Kcp_Engine_Recv.thy ===== *)
theory Kcp_Engine_Recv
  imports Kcp_Engine_State
begin

text \<open>
  The receive path of the engine: \<open>parse_data\<close> stores an incoming segment in the receive buffer,
  \<open>move_to_recv_queue\<close> moves the consecutive segments to the receive queue, \<open>peek_size\<close> and \<open>recv\<close>
  reassemble a message from the queue. The invariant \<open>recv_inv\<close> bounds buffer and queue by the
  receive window; \<open>tracks\<close> relates the engine to the sequence of segments the peer numbered, and
  gives in-order, exactly-once delivery.
\<close>

unbundle bit_operations_syntax

section \<open>Operations\<close>

lemma bt_remove_length: "bt_get m k = Some v \<Longrightarrow> length (bt_remove k m) < length m"
  by (induction k m rule: bt_remove.induct) (auto split: if_splits)

text \<open>
  The loop \<open>while let Some(segment) = self.rcv_buf.remove(&self.rcv_nxt)\<close>: it puts the segment
  back and stops when the queue is full.
\<close>

function move_to_recv_queue :: "KcpEngine \<Rightarrow> KcpEngine" where
  "move_to_recv_queue e =
     (case bt_get (e_rcv_buf e) (e_rcv_nxt e) of
        None \<Rightarrow> e
      | Some segment \<Rightarrow>
          (let e1 = e\<lparr>e_rcv_buf := bt_remove (e_rcv_nxt e) (e_rcv_buf e)\<rparr> in
           if length (e_rcv_queue e1) \<ge> unat (w_rcv (e_wnd e1))
           then e1\<lparr>e_rcv_buf := bt_insert (e_rcv_nxt e1) segment (e_rcv_buf e1)\<rparr>
           else move_to_recv_queue
                  (e1\<lparr>e_rcv_queue := e_rcv_queue e1 @ [segment], e_rcv_nxt := e_rcv_nxt e1 + 1\<rparr>)))"
  by pat_completeness auto
termination
  by (relation "measure (\<lambda>e. length (e_rcv_buf e))") (auto simp: bt_remove_length)

declare move_to_recv_queue.simps [simp del]

definition parse_data :: "KcpSegment \<Rightarrow> KcpEngine \<Rightarrow> KcpEngine" where
  "parse_data newseg e =
     (let sn = s_sn newseg in
      if \<not> seq_before sn (e_rcv_nxt e + w_rcv (e_wnd e)) \<or> seq_before sn (e_rcv_nxt e) then e
      else move_to_recv_queue (e\<lparr>e_rcv_buf := bt_or_insert sn newseg (e_rcv_buf e)\<rparr>))"

text \<open>The summing loop of \<open>peek_size\<close>: it stops after the first segment with fragment number 0.\<close>

fun peek_len :: "KcpSegment list \<Rightarrow> usize" where
  "peek_len [] = 0"
| "peek_len (seg # q) =
     (if s_frg seg = 0 then length (s_data seg) else length (s_data seg) + peek_len q)"

definition peek_size :: "KcpEngine \<Rightarrow> i32" where
  "peek_size e =
     (case e_rcv_queue e of
        [] \<Rightarrow> -1
      | seg # _ \<Rightarrow>
          if s_frg seg = 0 then usize_as_i32 (length (s_data seg))
          else if length (e_rcv_queue e) < unat (s_frg seg) + 1 then -1
          else usize_as_i32 (peek_len (e_rcv_queue e)))"

text \<open>The assembling loop of \<open>recv\<close>: the assembled data and the queue that is left.\<close>

fun recv_loop :: "usize \<Rightarrow> bytes \<Rightarrow> KcpSegment list \<Rightarrow> bytes \<times> KcpSegment list" where
  "recv_loop peek data [] = (data, [])"
| "recv_loop peek data (seg # q) =
     (if length data + length (s_data seg) > peek then (data, seg # q)
      else if s_frg seg = 0 then (data @ s_data seg, q)
      else recv_loop peek (data @ s_data seg) q)"

definition set_flag :: "u32 \<Rightarrow> KcpEngine \<Rightarrow> KcpEngine" where
  "set_flag f e = e\<lparr>e_probe := (e_probe e)\<lparr>p_flags := p_flags (e_probe e) OR f\<rparr>\<rparr>"

definition recv :: "KcpEngine \<Rightarrow> bytes option engine_result" where
  "recv e =
     (if e_rcv_queue e = [] then (e, Ok None)
      else
        (let ps = peek_size e in
         if ps \<le> 0 then (e, Ok None)
         else
           (let recovered = (length (e_rcv_queue e) \<ge> unat (w_rcv (e_wnd e)));
                (data, queue) = recv_loop (nat ps) [] (e_rcv_queue e);
                e1 = e\<lparr>e_rcv_queue := queue\<rparr>
            in if data = [] then (e1, Ok None)
               else
                 (let e2 = e1\<lparr>e_stats := (e_stats e1)\<lparr>st_bytes_received :=
                             st_bytes_received (e_stats e1) + word_of_nat (length data)\<rparr>\<rparr>;
                      e3 = move_to_recv_queue e2;
                      e4 = (if recovered \<and> length (e_rcv_queue e3) < unat (w_rcv (e_wnd e3))
                            then set_flag IKCP_ASK_TELL e3 else e3)
                  in (e4, Ok (Some data))))))"

section \<open>The move loop\<close>

lemma move_none: "bt_get (e_rcv_buf e) (e_rcv_nxt e) = None \<Longrightarrow> move_to_recv_queue e = e"
  by (subst move_to_recv_queue.simps) simp

lemma move_full:
  "bt_invar (e_rcv_buf e) \<Longrightarrow> length (e_rcv_queue e) \<ge> unat (w_rcv (e_wnd e)) \<Longrightarrow> move_to_recv_queue e = e"
  by (subst move_to_recv_queue.simps) (auto simp: bt.ins_rem Let_def split: option.split)

lemma move_step:
  "bt_get (e_rcv_buf e) (e_rcv_nxt e) = Some seg \<Longrightarrow> length (e_rcv_queue e) < unat (w_rcv (e_wnd e)) \<Longrightarrow>
   move_to_recv_queue e = move_to_recv_queue
     (e\<lparr>e_rcv_buf := bt_remove (e_rcv_nxt e) (e_rcv_buf e), e_rcv_queue := e_rcv_queue e @ [seg],
        e_rcv_nxt := e_rcv_nxt e + 1\<rparr>)"
  by (subst move_to_recv_queue.simps) simp

text \<open>Induction over the loop: one case per way an iteration can end.\<close>

lemma move_induct [consumes 1, case_names stop step]:
  assumes inv: "bt_invar (e_rcv_buf e)"
    and stop: "\<And>e. bt_invar (e_rcv_buf e) \<Longrightarrow>
      bt_get (e_rcv_buf e) (e_rcv_nxt e) = None \<or> length (e_rcv_queue e) \<ge> unat (w_rcv (e_wnd e)) \<Longrightarrow>
      P e e"
    and step: "\<And>e seg e'. bt_invar (e_rcv_buf e) \<Longrightarrow>
      bt_get (e_rcv_buf e) (e_rcv_nxt e) = Some seg \<Longrightarrow>
      length (e_rcv_queue e) < unat (w_rcv (e_wnd e)) \<Longrightarrow>
      P (e\<lparr>e_rcv_buf := bt_remove (e_rcv_nxt e) (e_rcv_buf e), e_rcv_queue := e_rcv_queue e @ [seg],
           e_rcv_nxt := e_rcv_nxt e + 1\<rparr>) e' \<Longrightarrow> P e e'"
  shows "P e (move_to_recv_queue e)"
  using inv
proof (induction e rule: move_to_recv_queue.induct)
  case (1 e)
  show ?case
  proof (cases "bt_get (e_rcv_buf e) (e_rcv_nxt e)")
    case None
    then show ?thesis using stop [of e] 1(2) by (simp add: move_none)
  next
    case (Some seg)
    show ?thesis
    proof (cases "length (e_rcv_queue e) \<ge> unat (w_rcv (e_wnd e))")
      case True
      then show ?thesis using stop [of e] 1(2) by (simp add: move_full)
    next
      case False
      then show ?thesis
        using Some 1 by (auto simp: move_step [OF Some] bt_invar_remove intro!: step [OF 1(2) Some])
    qed
  qed
qed

lemma move_frame:
  "\<exists>n q b. move_to_recv_queue e = e\<lparr>e_rcv_nxt := n, e_rcv_queue := q, e_rcv_buf := b\<rparr>"
proof (induction e rule: move_to_recv_queue.induct)
  case (1 e)
  have id: "\<exists>n q b. e = e\<lparr>e_rcv_nxt := n, e_rcv_queue := q, e_rcv_buf := b\<rparr>"
    by (intro exI [of _ "e_rcv_nxt e"] exI [of _ "e_rcv_queue e"] exI [of _ "e_rcv_buf e"]) simp
  have buf: "\<exists>n q b. e\<lparr>e_rcv_buf := b0\<rparr> = e\<lparr>e_rcv_nxt := n, e_rcv_queue := q, e_rcv_buf := b\<rparr>" for b0
    by (intro exI [of _ "e_rcv_nxt e"] exI [of _ "e_rcv_queue e"] exI [of _ b0]) simp
  show ?case
  proof (cases "bt_get (e_rcv_buf e) (e_rcv_nxt e)")
    case None
    then show ?thesis using id by (simp add: move_none)
  next
    case (Some seg)
    show ?thesis
    proof (cases "length (e_rcv_queue e) \<ge> unat (w_rcv (e_wnd e))")
      case True
      then show ?thesis
        using buf by (subst move_to_recv_queue.simps) (simp add: Some)
    next
      case False
      obtain n q b where "move_to_recv_queue
          (e\<lparr>e_rcv_buf := bt_remove (e_rcv_nxt e) (e_rcv_buf e), e_rcv_queue := e_rcv_queue e @ [seg],
             e_rcv_nxt := e_rcv_nxt e + 1\<rparr>) = e\<lparr>e_rcv_nxt := n, e_rcv_queue := q, e_rcv_buf := b\<rparr>"
        using 1 [OF Some refl] False by auto
      then show ?thesis using False by (auto simp: move_step [OF Some])
    qed
  qed
qed

lemma move_fields [simp]:
  "e_conv (move_to_recv_queue e) = e_conv e" "e_config (move_to_recv_queue e) = e_config e"
  "e_snd_una (move_to_recv_queue e) = e_snd_una e" "e_snd_nxt (move_to_recv_queue e) = e_snd_nxt e"
  "e_rtt (move_to_recv_queue e) = e_rtt e" "e_wnd (move_to_recv_queue e) = e_wnd e"
  "e_probe (move_to_recv_queue e) = e_probe e" "e_snd_queue (move_to_recv_queue e) = e_snd_queue e"
  "e_snd_buf (move_to_recv_queue e) = e_snd_buf e" "e_ack_list (move_to_recv_queue e) = e_ack_list e"
  "e_output_queue (move_to_recv_queue e) = e_output_queue e"
  "e_out_buf (move_to_recv_queue e) = e_out_buf e" "e_stats (move_to_recv_queue e) = e_stats e"
  "e_last_update (move_to_recv_queue e) = e_last_update e"
  "e_last_activity (move_to_recv_queue e) = e_last_activity e"
  "e_dead_link (move_to_recv_queue e) = e_dead_link e"
  using move_frame [of e] by auto

section \<open>The receive invariant\<close>

definition recv_inv :: "KcpEngine \<Rightarrow> bool" where
  "recv_inv e \<longleftrightarrow>
     bt_invar (e_rcv_buf e) \<and> unat (w_rcv (e_wnd e)) < 2147483648 \<and>
     length (e_rcv_queue e) \<le> unat (w_rcv (e_wnd e)) \<and>
     (\<forall>k seg. bt_get (e_rcv_buf e) k = Some seg \<longrightarrow>
        s_sn seg = k \<and> unat (k - e_rcv_nxt e) < unat (w_rcv (e_wnd e)))"

lemma recv_inv_step:
  assumes "recv_inv e" "length (e_rcv_queue e) < unat (w_rcv (e_wnd e))"
  shows "recv_inv (e\<lparr>e_rcv_buf := bt_remove (e_rcv_nxt e) (e_rcv_buf e),
    e_rcv_queue := e_rcv_queue e @ [seg], e_rcv_nxt := e_rcv_nxt e + 1\<rparr>)"
  using assms
  by (auto simp: recv_inv_def bt_invar_remove bt.get_rem unat_dist_Suc split: if_splits)
    (metis less_imp_diff_less)

lemma move_recv_inv: "recv_inv e \<Longrightarrow> recv_inv (move_to_recv_queue e)"
proof -
  assume inv: "recv_inv e"
  then have "bt_invar (e_rcv_buf e)" by (simp add: recv_inv_def)
  then have "recv_inv e \<longrightarrow> recv_inv (move_to_recv_queue e)"
  proof (induction rule: move_induct)
    case (stop e)
    then show ?case by simp
  next
    case (step e seg e')
    show ?case using step(4) recv_inv_step [of e seg] step(3) by blast
  qed
  with inv show ?thesis by blast
qed

lemma parse_data_accept_iff:
  assumes "unat (w_rcv (e_wnd e)) < 2147483648"
  shows "(\<not> seq_before sn (e_rcv_nxt e + w_rcv (e_wnd e)) \<or> seq_before sn (e_rcv_nxt e)) \<longleftrightarrow>
     unat (w_rcv (e_wnd e)) \<le> unat (sn - e_rcv_nxt e)"
proof (cases "unat (sn - e_rcv_nxt e) < 2147483648")
  case True
  then show ?thesis
    using assms seq_before_base [of sn "e_rcv_nxt e" "e_rcv_nxt e + w_rcv (e_wnd e)"]
    by (auto simp: seq_before_iff)
next
  case False
  then show ?thesis using assms by (auto simp: seq_before_iff)
qed

lemma or_insert_recv_inv:
  assumes "recv_inv e" "unat (s_sn seg - e_rcv_nxt e) < unat (w_rcv (e_wnd e))"
  shows "recv_inv (e\<lparr>e_rcv_buf := bt_or_insert (s_sn seg) seg (e_rcv_buf e)\<rparr>)"
  using assms
  by (auto simp: recv_inv_def bt_invar_or_insert bt_get_or_insert split: if_splits option.splits)

lemma parse_data_cases:
  assumes "unat (w_rcv (e_wnd e)) < 2147483648"
  shows "parse_data seg e =
    (if unat (s_sn seg - e_rcv_nxt e) < unat (w_rcv (e_wnd e))
     then move_to_recv_queue (e\<lparr>e_rcv_buf := bt_or_insert (s_sn seg) seg (e_rcv_buf e)\<rparr>) else e)"
  using parse_data_accept_iff [OF assms] by (auto simp: parse_data_def Let_def)

lemma parse_data_recv_inv: "recv_inv e \<Longrightarrow> recv_inv (parse_data seg e)"
  using parse_data_cases [of e seg]
  by (auto intro!: move_recv_inv or_insert_recv_inv simp: recv_inv_def [of e])

lemma rcv_buf_len_bound:
  assumes "recv_inv e"
  shows "bt_len (e_rcv_buf e) \<le> unat (w_rcv (e_wnd e))"
proof -
  let ?f = "\<lambda>i. e_rcv_nxt e + (word_of_nat i :: u32)"
  have "dom (bt_get (e_rcv_buf e)) \<subseteq> ?f ` {..< unat (w_rcv (e_wnd e))}"
  proof
    fix k assume "k \<in> dom (bt_get (e_rcv_buf e))"
    then have "unat (k - e_rcv_nxt e) < unat (w_rcv (e_wnd e))"
      using assms by (auto simp: recv_inv_def)
    moreover have "k = ?f (unat (k - e_rcv_nxt e))" by (simp add: of_nat_unat)
    ultimately show "k \<in> ?f ` {..< unat (w_rcv (e_wnd e))}" by blast
  qed
  then have "bt_len (e_rcv_buf e) \<le> card (?f ` {..< unat (w_rcv (e_wnd e))})"
    using assms by (intro bt.dom_le_len) (auto simp: recv_inv_def)
  also have "\<dots> \<le> unat (w_rcv (e_wnd e))"
    using card_image_le [of "{..< unat (w_rcv (e_wnd e))}" ?f] by simp
  finally show ?thesis .
qed

section \<open>In-order, exactly-once delivery into the receive queue\<close>

text \<open>
  The peer numbers its segments \<open>0, 1, 2, \<dots>\<close>; a segment carries the number modulo \<open>2\<^sup>3\<^sup>2\<close>.
  \<open>D i\<close> is what segment \<open>i\<close> holds (fragment number and payload; the time stamp and window of a
  retransmission may differ). \<open>tracks D n e\<close>: the first \<open>n\<close> segments have left the receive buffer,
  and what the buffer holds are segments of the window above \<open>n\<close>, each under its own number.
\<close>

definition content :: "KcpSegment \<Rightarrow> u8 \<times> bytes" where
  "content seg = (s_frg seg, s_data seg)"

definition tracks :: "(nat \<Rightarrow> u8 \<times> bytes) \<Rightarrow> nat \<Rightarrow> KcpEngine \<Rightarrow> bool" where
  "tracks D n e \<longleftrightarrow> e_rcv_nxt e = word_of_nat n \<and>
     (\<forall>k seg. bt_get (e_rcv_buf e) k = Some seg \<longrightarrow>
        (\<exists>i. n \<le> i \<and> i < n + unat (w_rcv (e_wnd e)) \<and> k = word_of_nat i \<and> content seg = D i))"

lemma tracks_step:
  assumes "tracks D n e" "recv_inv e" "bt_get (e_rcv_buf e) (e_rcv_nxt e) = Some seg"
  shows "content seg = D n \<and>
    tracks D (Suc n) (e\<lparr>e_rcv_buf := bt_remove (e_rcv_nxt e) (e_rcv_buf e),
      e_rcv_queue := e_rcv_queue e @ [seg], e_rcv_nxt := e_rcv_nxt e + 1\<rparr>)"
proof
  have inv: "bt_invar (e_rcv_buf e)" using assms(2) by (simp add: recv_inv_def)
  have wnd: "unat (w_rcv (e_wnd e)) < 4294967296" by (rule u32_unat_bound)
  obtain i where i: "n \<le> i" "i < n + unat (w_rcv (e_wnd e))" "e_rcv_nxt e = word_of_nat i"
      "content seg = D i" "e_rcv_nxt e = word_of_nat n"
    using assms(1,3) unfolding tracks_def by blast
  then show "content seg = D n"
    using word_of_nat_inj_window [of n i] wnd by simp
  have "\<exists>j. Suc n \<le> j \<and> j < Suc n + unat (w_rcv (e_wnd e)) \<and> k = word_of_nat j \<and> content s = D j"
    if get: "bt_get (e_rcv_buf e) k = Some s" and ne: "k \<noteq> word_of_nat n" for k s
  proof -
    obtain j where j: "n \<le> j" "j < n + unat (w_rcv (e_wnd e))" "k = word_of_nat j" "content s = D j"
      using assms(1) get unfolding tracks_def by blast
    moreover have "j \<noteq> n" using j(3) ne by auto
    ultimately show ?thesis by (intro exI [of _ j]) simp
  qed
  then show "tracks D (Suc n) (e\<lparr>e_rcv_buf := bt_remove (e_rcv_nxt e) (e_rcv_buf e),
      e_rcv_queue := e_rcv_queue e @ [seg], e_rcv_nxt := e_rcv_nxt e + 1\<rparr>)"
    using inv i(5) by (auto simp: tracks_def bt.get_rem split: if_splits)
qed

text \<open>What the loop delivers: the next segments in order, until one is missing or the queue is full.\<close>

lemma move_delivers:
  assumes "recv_inv e" "tracks D n e"
  shows "\<exists>m\<ge>n. tracks D m (move_to_recv_queue e) \<and>
    map content (e_rcv_queue (move_to_recv_queue e)) = map content (e_rcv_queue e) @ map D [n..<m] \<and>
    (bt_get (e_rcv_buf (move_to_recv_queue e)) (word_of_nat m) = None \<or>
     unat (w_rcv (e_wnd e)) \<le> length (e_rcv_queue (move_to_recv_queue e)))"
proof -
  have "bt_invar (e_rcv_buf e)" using assms(1) by (simp add: recv_inv_def)
  then have "recv_inv e \<longrightarrow> (\<forall>n. tracks D n e \<longrightarrow>
    (\<exists>m\<ge>n. tracks D m (move_to_recv_queue e) \<and>
      map content (e_rcv_queue (move_to_recv_queue e)) = map content (e_rcv_queue e) @ map D [n..<m] \<and>
      (bt_get (e_rcv_buf (move_to_recv_queue e)) (word_of_nat m) = None \<or>
       unat (w_rcv (e_wnd e)) \<le> length (e_rcv_queue (move_to_recv_queue e)))))"
  proof (induction rule: move_induct)
    case (stop e)
    then show ?case by (auto simp: tracks_def)
  next
    case (step e seg e')
    let ?e = "e\<lparr>e_rcv_buf := bt_remove (e_rcv_nxt e) (e_rcv_buf e), e_rcv_queue := e_rcv_queue e @ [seg],
           e_rcv_nxt := e_rcv_nxt e + 1\<rparr>"
    have "\<exists>m\<ge>n. tracks D m e' \<and> map content (e_rcv_queue e') = map content (e_rcv_queue e) @ map D [n..<m] \<and>
       (bt_get (e_rcv_buf e') (word_of_nat m) = None \<or> unat (w_rcv (e_wnd e)) \<le> length (e_rcv_queue e'))"
      if inv: "recv_inv e" and tr: "tracks D n e" for n
    proof -
      note st = tracks_step [OF tr inv step(2)]
      obtain m where m: "Suc n \<le> m" "tracks D m e'"
        "map content (e_rcv_queue e') = map content (e_rcv_queue ?e) @ map D [Suc n..<m]"
        "bt_get (e_rcv_buf e') (word_of_nat m) = None \<or> unat (w_rcv (e_wnd e)) \<le> length (e_rcv_queue e')"
        using step(4) recv_inv_step [OF inv step(3)] st by force
      then show ?thesis
        using st by (intro exI [of _ m]) (simp add: upt_conv_Cons)
    qed
    then show ?case by blast
  qed
  with assms show ?thesis by blast
qed

lemma or_insert_tracks:
  assumes "recv_inv e" "tracks D n e" "s_sn seg = word_of_nat i" "content seg = D i"
    and "n \<le> i" "i < n + unat (w_rcv (e_wnd e))"
  shows "tracks D n (e\<lparr>e_rcv_buf := bt_or_insert (s_sn seg) seg (e_rcv_buf e)\<rparr>)"
  using assms
  by (auto simp: tracks_def recv_inv_def bt_get_or_insert split: if_splits option.splits)

text \<open>Whether a numbered segment falls into the window, by its number.\<close>

lemma in_window_iff:
  assumes "unat r < 2147483648" "i < n + 4294967296" "n \<le> i + 2147483648"
  shows "unat (word_of_nat i - word_of_nat n :: u32) < unat (r :: u32) \<longleftrightarrow> n \<le> i \<and> i < n + unat r"
proof (cases "n \<le> i")
  case True
  then show ?thesis using assms unat_word_of_nat_diff [of n i] by auto
next
  case False
  then show ?thesis using assms unat_word_of_nat_diff_neg [of i n] by auto
qed

lemma parse_data_delivers:
  assumes inv: "recv_inv e" and tr: "tracks D n e"
    and seg: "s_sn seg = word_of_nat i" "content seg = D i"
    and near: "i < n + 4294967296" "n \<le> i + 2147483648"
  shows "\<exists>m\<ge>n. tracks D m (parse_data seg e) \<and>
    map content (e_rcv_queue (parse_data seg e)) = map content (e_rcv_queue e) @ map D [n..<m]"
proof -
  have wnd: "unat (w_rcv (e_wnd e)) < 2147483648" using inv by (simp add: recv_inv_def)
  have nxt: "e_rcv_nxt e = word_of_nat n" using tr by (simp add: tracks_def)
  let ?e = "e\<lparr>e_rcv_buf := bt_or_insert (s_sn seg) seg (e_rcv_buf e)\<rparr>"
  show ?thesis
  proof (cases "n \<le> i \<and> i < n + unat (w_rcv (e_wnd e))")
    case True
    then have acc: "unat (s_sn seg - e_rcv_nxt e) < unat (w_rcv (e_wnd e))"
      using in_window_iff [OF wnd near] seg(1) nxt by simp
    have "tracks D n ?e" using or_insert_tracks [OF inv tr seg] True by blast
    then show ?thesis
      using acc move_delivers [OF or_insert_recv_inv [OF inv acc], of D n]
      by (auto simp: parse_data_cases [OF wnd])
  next
    case False
    then have "parse_data seg e = e"
      using in_window_iff [OF wnd near] seg(1) nxt by (auto simp: parse_data_cases [OF wnd])
    then show ?thesis using tr by (intro exI [of _ n]) simp
  qed
qed

section \<open>Reassembly\<close>

text \<open>The fragments of one message: numbered downwards to 0.\<close>

definition fragments :: "KcpSegment list \<Rightarrow> bool" where
  "fragments segs \<longleftrightarrow> segs \<noteq> [] \<and> map (unat \<circ> s_frg) segs = rev [0..<length segs]"

lemma fragments_Cons:
  "fragments (seg # segs) \<longleftrightarrow> unat (s_frg seg) = length segs \<and> (segs = [] \<or> fragments segs)"
  by (auto simp: fragments_def)

definition payload :: "KcpSegment list \<Rightarrow> bytes" where
  "payload segs = concat (map s_data segs)"

lemma payload_simps [simp]:
  "payload [] = []" "payload (seg # segs) = s_data seg @ payload segs"
  "payload (xs @ ys) = payload xs @ payload ys"
  by (simp_all add: payload_def)

lemma frg_zero_iff: "s_frg seg = 0 \<longleftrightarrow> unat (s_frg seg) = 0"
  by (simp add: unat_eq_0)

lemma peek_len_fragments: "fragments segs \<Longrightarrow> peek_len (segs @ rest) = length (payload segs)"
  by (induction segs) (auto simp: fragments_Cons frg_zero_iff fragments_def [of "[]"])

lemma recv_loop_fragments:
  "fragments segs \<Longrightarrow> length data + length (payload segs) \<le> peek \<Longrightarrow>
   recv_loop peek data (segs @ rest) = (data @ payload segs, rest)"
  by (induction segs arbitrary: data) (auto simp: fragments_Cons frg_zero_iff fragments_def [of "[]"])

lemma usize_as_i32_small: "n < 2147483648 \<Longrightarrow> usize_as_i32 n = int n"
  by (simp add: usize_as_i32_def sint_u32_unat unat_word_of_nat_u32)

lemma peek_size_fragments:
  assumes "fragments segs" "e_rcv_queue e = segs @ rest" "length (payload segs) < 2147483648"
  shows "peek_size e = int (length (payload segs))"
proof -
  obtain seg segs' where segs: "segs = seg # segs'"
    using assms(1) by (cases segs) (auto simp: fragments_def)
  show ?thesis
    using assms usize_as_i32_small [of "length (payload segs)"] peek_len_fragments [of segs rest]
    by (cases "segs' = []") (auto simp: peek_size_def segs fragments_Cons frg_zero_iff)
qed

text \<open>The engine after a message has left the queue: more segments move up, and a window update
  is requested when the queue was full.\<close>

definition after_recv :: "bytes \<Rightarrow> KcpSegment list \<Rightarrow> KcpEngine \<Rightarrow> KcpEngine" where
  "after_recv data rest e =
     (let e1 = move_to_recv_queue (e\<lparr>e_rcv_queue := rest,
                 e_stats := (e_stats e)\<lparr>st_bytes_received :=
                   st_bytes_received (e_stats e) + word_of_nat (length data)\<rparr>\<rparr>)
      in if unat (w_rcv (e_wnd e)) \<le> length (e_rcv_queue e)
            \<and> length (e_rcv_queue e1) < unat (w_rcv (e_wnd e))
         then set_flag IKCP_ASK_TELL e1 else e1)"

lemma recv_fragments:
  assumes "fragments segs" "e_rcv_queue e = segs @ rest"
    and "payload segs \<noteq> []" "length (payload segs) < 2147483648"
  shows "recv e = (after_recv (payload segs) rest e, Ok (Some (payload segs)))"
proof -
  have "segs @ rest \<noteq> []" using assms(1) by (simp add: fragments_def)
  then show ?thesis
    using assms recv_loop_fragments [OF assms(1), of "[]" "length (payload segs)" rest]
    by (simp add: recv_def peek_size_fragments [OF assms(1,2,4)] after_recv_def Let_def)
qed

lemma recv_cases:
  obtains (none) "snd (recv e) = Ok None" "\<exists>q. fst (recv e) = e\<lparr>e_rcv_queue := drop q (e_rcv_queue e)\<rparr>"
  | (some) data q where "data \<noteq> []" "recv e = (after_recv data (drop q (e_rcv_queue e)) e, Ok (Some data))"
proof -
  have loop: "\<exists>n. snd (recv_loop p d qs) = drop n qs" for p d qs
  proof (induction qs arbitrary: d)
    case (Cons seg qs)
    obtain n where "snd (recv_loop p (d @ s_data seg) qs) = drop n qs" using Cons by blast
    then have "snd (recv_loop p (d @ s_data seg) qs) = drop (Suc n) (seg # qs)" by simp
    moreover have "seg # qs = drop 0 (seg # qs)" "qs = drop 1 (seg # qs)" by simp_all
    ultimately show ?case by (simp only: recv_loop.simps split: if_split) (metis snd_conv)
  qed simp
  obtain data queue where l: "recv_loop (nat (peek_size e)) [] (e_rcv_queue e) = (data, queue)"
    by force
  then obtain n where q: "queue = drop n (e_rcv_queue e)"
    using loop [of "nat (peek_size e)" "[]" "e_rcv_queue e"] by auto
  have id: "e = e\<lparr>e_rcv_queue := drop 0 (e_rcv_queue e)\<rparr>" by simp
  show thesis
  proof (cases "e_rcv_queue e = [] \<or> peek_size e \<le> 0")
    case True
    then have "recv e = (e, Ok None)" by (auto simp: recv_def Let_def)
    then show thesis using none id by (metis fst_conv snd_conv)
  next
    case False
    show thesis
    proof (cases "data = []")
      case True
      then have "recv e = (e\<lparr>e_rcv_queue := queue\<rparr>, Ok None)"
        using False l by (auto simp: recv_def Let_def)
      then show thesis using none q by auto
    next
      case ne: False
      then have "recv e = (after_recv data queue e, Ok (Some data))"
        using False l by (auto simp: recv_def after_recv_def Let_def)
      then show thesis using some [of data n] ne q by simp
    qed
  qed
qed

text \<open>The bytes \<open>recv\<close> returns are those of the segments it takes, and \<open>None\<close> takes no bytes.\<close>

lemma recv_loop_takes:
  "\<exists>q. recv_loop p d qs = (d @ payload (take q qs), drop q qs)"
proof (induction qs arbitrary: d)
  case Nil
  show ?case by simp
next
  case (Cons seg qs)
  obtain q where "recv_loop p (d @ s_data seg) qs = (d @ s_data seg @ payload (take q qs), drop q qs)"
    using Cons [of "d @ s_data seg"] by auto
  then have "\<exists>q. recv_loop p (d @ s_data seg) qs = (d @ payload (take q (seg # qs)), drop q (seg # qs))"
    by (intro exI [of _ "Suc q"]) simp
  moreover have "\<exists>q. (d, seg # qs) = (d @ payload (take q (seg # qs)), drop q (seg # qs))"
    by (intro exI [of _ 0]) simp
  moreover have "\<exists>q. (d @ s_data seg, qs) = (d @ payload (take q (seg # qs)), drop q (seg # qs))"
    by (intro exI [of _ 1]) simp
  ultimately show ?case by (simp only: recv_loop.simps split: if_split) blast
qed

lemma recv_takes:
  obtains (none) q where "payload (take q (e_rcv_queue e)) = []"
      "recv e = (e\<lparr>e_rcv_queue := drop q (e_rcv_queue e)\<rparr>, Ok None)"
  | (some) q where "payload (take q (e_rcv_queue e)) \<noteq> []"
      "recv e = (after_recv (payload (take q (e_rcv_queue e))) (drop q (e_rcv_queue e)) e,
                 Ok (Some (payload (take q (e_rcv_queue e)))))"
proof -
  obtain q where q: "recv_loop (nat (peek_size e)) [] (e_rcv_queue e) =
      (payload (take q (e_rcv_queue e)), drop q (e_rcv_queue e))"
    using recv_loop_takes [of "nat (peek_size e)" "[]" "e_rcv_queue e"] by auto
  have id: "e = e\<lparr>e_rcv_queue := drop 0 (e_rcv_queue e)\<rparr>" "payload (take 0 (e_rcv_queue e)) = []" by simp_all
  show thesis
  proof (cases "e_rcv_queue e = [] \<or> peek_size e \<le> 0")
    case True
    then have "recv e = (e, Ok None)" by (auto simp: recv_def Let_def)
    then show thesis using none [of 0] id by simp
  next
    case False
    then show thesis
      using q none [of q] some [of q] by (auto simp: recv_def after_recv_def Let_def)
  qed
qed

lemma set_flag_fields [simp]:
  "e_rcv_nxt (set_flag f e) = e_rcv_nxt e" "e_rcv_queue (set_flag f e) = e_rcv_queue e"
  "e_rcv_buf (set_flag f e) = e_rcv_buf e" "e_wnd (set_flag f e) = e_wnd e"
  "e_snd_una (set_flag f e) = e_snd_una e" "e_snd_nxt (set_flag f e) = e_snd_nxt e"
  "e_snd_buf (set_flag f e) = e_snd_buf e" "e_snd_queue (set_flag f e) = e_snd_queue e"
  "e_config (set_flag f e) = e_config e" "e_conv (set_flag f e) = e_conv e"
  "e_rtt (set_flag f e) = e_rtt e" "e_dead_link (set_flag f e) = e_dead_link e"
  "e_out_buf (set_flag f e) = e_out_buf e" "e_output_queue (set_flag f e) = e_output_queue e"
  "e_ack_list (set_flag f e) = e_ack_list e" "e_stats (set_flag f e) = e_stats e"
  "e_last_update (set_flag f e) = e_last_update e" "e_last_activity (set_flag f e) = e_last_activity e"
  "p_flags (e_probe (set_flag f e)) = p_flags (e_probe e) OR f"
  "p_wait (e_probe (set_flag f e)) = p_wait (e_probe e)" "p_ts (e_probe (set_flag f e)) = p_ts (e_probe e)"
  by (simp_all add: set_flag_def)

lemma recv_inv_flag [simp]: "recv_inv (set_flag f e) = recv_inv e"
  by (simp add: recv_inv_def)

lemma tracks_flag [simp]: "tracks D n (set_flag f e) = tracks D n e"
  by (simp add: tracks_def)

lemma recv_inv_shorter:
  "recv_inv e \<Longrightarrow> length q \<le> length (e_rcv_queue e) \<Longrightarrow> recv_inv (e\<lparr>e_rcv_queue := q, e_stats := st\<rparr>)"
  "recv_inv e \<Longrightarrow> length q \<le> length (e_rcv_queue e) \<Longrightarrow> recv_inv (e\<lparr>e_rcv_queue := q\<rparr>)"
  by (simp_all add: recv_inv_def)

lemma recv_recv_inv:
  assumes "recv_inv e" shows "recv_inv (fst (recv e))"
proof (cases rule: recv_cases [of e])
  case none
  then show ?thesis using recv_inv_shorter(2) [OF assms] by auto
next
  case (some data q)
  then show ?thesis
    using assms by (simp add: after_recv_def Let_def move_recv_inv recv_inv_shorter)
qed

text \<open>\<open>recv\<close> takes from the front of the queue and refills it in order at the back.\<close>

lemma recv_delivers:
  assumes inv: "recv_inv e" and tr: "tracks D n e"
  shows "\<exists>m\<ge>n. \<exists>k. tracks D m (fst (recv e)) \<and>
    map content (e_rcv_queue (fst (recv e))) = drop k (map content (e_rcv_queue e)) @ map D [n..<m]"
proof (cases rule: recv_cases [of e])
  case none
  then obtain k where "fst (recv e) = e\<lparr>e_rcv_queue := drop k (e_rcv_queue e)\<rparr>" by blast
  then show ?thesis
    using tr by (intro exI [of _ n] conjI order_refl exI [of _ k]) (simp_all add: tracks_def drop_map)
next
  case (some data k)
  let ?e = "e\<lparr>e_rcv_queue := drop k (e_rcv_queue e), e_stats := (e_stats e)\<lparr>st_bytes_received :=
                   st_bytes_received (e_stats e) + word_of_nat (length data)\<rparr>\<rparr>"
  have "recv_inv ?e" "tracks D n ?e"
    using recv_inv_shorter(1) [OF inv] tr by (simp_all add: tracks_def)
  from move_delivers [OF this] obtain m where "n \<le> m" "tracks D m (move_to_recv_queue ?e)"
    "map content (e_rcv_queue (move_to_recv_queue ?e)) = map content (e_rcv_queue ?e) @ map D [n..<m]"
    by blast
  then show ?thesis
    using some by (intro exI [of _ m] conjI exI [of _ k]) (auto simp: after_recv_def Let_def drop_map)
qed

lemma parse_data_queue_prefix:
  "\<exists>ys. e_rcv_queue (move_to_recv_queue e) = e_rcv_queue e @ ys"
proof (induction e rule: move_to_recv_queue.induct)
  case (1 e)
  show ?case
  proof (cases "bt_get (e_rcv_buf e) (e_rcv_nxt e)")
    case (Some seg)
    then show ?thesis
      using 1 [OF Some refl]
      by (cases "length (e_rcv_queue e) \<ge> unat (w_rcv (e_wnd e))")
        (auto simp: move_step [OF Some] move_to_recv_queue.simps [of e])
  qed (simp add: move_none)
qed

section \<open>Properties\<close>

text \<open>An engine with two of three in-order segments outstanding, for the witnesses.\<close>

definition sample_push :: "nat \<Rightarrow> u8 \<Rightarrow> bytes \<Rightarrow> KcpSegment" where
  "sample_push i frg data =
     (let seg = KcpSegment_push 0 7 (word_of_nat i) data
      in seg\<lparr>s_header := (s_header seg)\<lparr>h_frg := frg\<rparr>\<rparr>)"

definition recv_engine :: KcpEngine where
  "recv_engine = KcpEngine_new (\<lambda>_. 0) 7 KcpCoreConfig_default"

definition sample_content :: "nat \<Rightarrow> u8 \<times> bytes" where
  "sample_content i = (if i = 0 then (1, [10, 11]) else (0, [12]))"

lemma recv_engine_ok: "recv_inv recv_engine" "tracks D 0 recv_engine"
  by (simp_all add: recv_engine_def KcpEngine_new_def KcpCoreConfig_default_def recv_inv_def tracks_def
      bt_empty_def bt_invar_def)

text \<open>
  Delivery into the receive queue is in order and exactly once. When the peer's segments
  carry the numbers of a sequence \<open>D\<close> and the first \<open>n\<close> have been queued, then any further arrival of
  any segment \<open>i\<close> within half the sequence space (early, late or duplicated) appends to the queue
  exactly the segments \<open>n \<dots> m - 1\<close> of the sequence for some \<open>m\<close>, and the relation holds
  again with \<open>m\<close>; an in-window arrival of the segment that was missing (\<open>i = n\<close>) makes progress when
  the queue has room.
\<close>

theorem delivery_in_order_exactly_once:
  assumes "recv_inv e" "tracks D n e" "s_sn seg = word_of_nat i" "content seg = D i"
    and "i < n + 4294967296" "n \<le> i + 2147483648"
  shows "\<exists>m\<ge>n. tracks D m (parse_data seg e)
      \<and> map content (e_rcv_queue (parse_data seg e)) = map content (e_rcv_queue e) @ map D [n..<m]
      \<and> (i = n \<and> length (e_rcv_queue e) < unat (w_rcv (e_wnd e)) \<longrightarrow> n < m)"
proof -
  obtain m where m: "n \<le> m" "tracks D m (parse_data seg e)"
    "map content (e_rcv_queue (parse_data seg e)) = map content (e_rcv_queue e) @ map D [n..<m]"
    using parse_data_delivers [OF assms] by blast
  have "n < m" if "i = n" "length (e_rcv_queue e) < unat (w_rcv (e_wnd e))"
  proof -
    let ?e = "e\<lparr>e_rcv_buf := bt_or_insert (s_sn seg) seg (e_rcv_buf e)\<rparr>"
    have wnd: "unat (w_rcv (e_wnd e)) < 2147483648" and inv: "bt_invar (e_rcv_buf e)"
      using assms(1) by (simp_all add: recv_inv_def)
    have nxt: "s_sn seg = e_rcv_nxt e" using assms(2,3) that(1) by (simp add: tracks_def)
    obtain s where s: "bt_get (e_rcv_buf ?e) (e_rcv_nxt ?e) = Some s"
      using inv nxt by (cases "bt_get (e_rcv_buf e) (e_rcv_nxt e)") (auto simp: bt_get_or_insert)
    have "parse_data seg e = move_to_recv_queue ?e"
      using that(2) nxt by (simp add: parse_data_cases [OF wnd])
    then have "length (e_rcv_queue e) < length (e_rcv_queue (parse_data seg e))"
      using parse_data_queue_prefix [of "?e\<lparr>e_rcv_buf := bt_remove (e_rcv_nxt ?e) (e_rcv_buf ?e),
          e_rcv_queue := e_rcv_queue ?e @ [s], e_rcv_nxt := e_rcv_nxt ?e + 1\<rparr>"] that(2)
      by (auto simp: move_step [OF s])
    then show ?thesis
      using arg_cong [OF m(3), of length] by simp
  qed
  with m show ?thesis by blast
qed

theorem delivery_in_order_exactly_once_witness:
  "\<exists>m\<ge>0. tracks sample_content m (parse_data (sample_push 0 1 [10, 11]) recv_engine)
      \<and> map content (e_rcv_queue (parse_data (sample_push 0 1 [10, 11]) recv_engine)) =
          map sample_content [0..<m]
      \<and> 0 < m"
proof -
  have "s_sn (sample_push 0 1 [10, 11]) = word_of_nat 0" "content (sample_push 0 1 [10, 11]) = sample_content 0"
    by (simp_all add: sample_push_def KcpSegment_push_def KcpSegment_new_def KcpHeader_new_def
        content_def sample_content_def)
  with recv_engine_ok(1) recv_engine_ok(2) [of sample_content]
    delivery_in_order_exactly_once [of recv_engine sample_content 0 "sample_push 0 1 [10, 11]" 0]
  show ?thesis
    by (simp add: recv_engine_def KcpEngine_new_def KcpCoreConfig_default_def)
qed

text \<open>
  C20. \<open>recv\<close> reassembles a message: when the front of the receive queue holds the fragments of a
  message, numbered down to 0, then \<open>recv\<close> returns their payloads concatenated in order, and leaves
  the segments behind them, followed by the ones that move up from the receive buffer.
\<close>

theorem recv_reassembles:
  assumes "fragments segs" "e_rcv_queue e = segs @ rest"
    and "0 < length (payload segs)" "length (payload segs) < 2147483648"
  shows "snd (recv e) = Ok (Some (payload segs))
    \<and> (\<exists>more. e_rcv_queue (fst (recv e)) = rest @ more)
    \<and> st_bytes_received (e_stats (fst (recv e))) =
        st_bytes_received (e_stats e) + word_of_nat (length (payload segs))"
proof -
  have "recv e = (after_recv (payload segs) rest e, Ok (Some (payload segs)))"
    using assms by (intro recv_fragments) auto
  then show ?thesis
    using parse_data_queue_prefix [of "e\<lparr>e_rcv_queue := rest,
                 e_stats := (e_stats e)\<lparr>st_bytes_received :=
                   st_bytes_received (e_stats e) + word_of_nat (length (payload segs))\<rparr>\<rparr>"]
    by (auto simp: after_recv_def Let_def)
qed

theorem recv_reassembles_witness:
  "snd (recv (recv_engine\<lparr>e_rcv_queue := [sample_push 0 1 [10, 11], sample_push 1 0 [12]]\<rparr>)) =
     Ok (Some [10, 11, 12])"
proof -
  have "fragments [sample_push 0 1 [10, 11], sample_push 1 0 [12]]"
    "payload [sample_push 0 1 [10, 11], sample_push 1 0 [12]] = [10, 11, 12]"
    by (simp_all add: sample_push_def KcpSegment_push_def KcpSegment_new_def KcpHeader_new_def
        fragments_Cons)
  then show ?thesis
    using recv_reassembles [of "[sample_push 0 1 [10, 11], sample_push 1 0 [12]]"
        "recv_engine\<lparr>e_rcv_queue := [sample_push 0 1 [10, 11], sample_push 1 0 [12]]\<rparr>" "[]"]
    by simp
qed

text \<open>
  \<open>recv\<close> never delivers part of a message: while fragments of the message at the front are
  missing it returns \<open>None\<close> and changes nothing.
\<close>

theorem recv_waits_for_all_fragments:
  assumes "e_rcv_queue e = seg # q" "length (e_rcv_queue e) \<le> unat (s_frg seg)"
  shows "recv e = (e, Ok None)"
  using assms by (auto simp: recv_def peek_size_def frg_zero_iff)

theorem recv_waits_for_all_fragments_witness:
  "recv (recv_engine\<lparr>e_rcv_queue := [sample_push 0 1 [10, 11]]\<rparr>) =
     (recv_engine\<lparr>e_rcv_queue := [sample_push 0 1 [10, 11]]\<rparr>, Ok None)"
  by (rule recv_waits_for_all_fragments [of _ "sample_push 0 1 [10, 11]" "[]"])
    (simp_all add: sample_push_def KcpSegment_push_def KcpSegment_new_def KcpHeader_new_def)

text \<open>
  The receive side stays within its window: accepting a segment and reading a message keep the
  invariant, under which the receive queue and the receive buffer hold at most \<open>rcv_wnd\<close> segments
  each, the buffer is keyed by the segments' own numbers, and all of them lie in the window
  above \<open>rcv_nxt\<close>.
\<close>

theorem receive_window_bounds:
  assumes "recv_inv e"
  shows "\<forall>e' \<in> {parse_data seg e, fst (recv e)}.
     recv_inv e' \<and> length (e_rcv_queue e') \<le> unat (w_rcv (e_wnd e))
     \<and> bt_len (e_rcv_buf e') \<le> unat (w_rcv (e_wnd e))"
proof -
  have wnd: "w_rcv (e_wnd (fst (recv e))) = w_rcv (e_wnd e)"
    by (cases rule: recv_cases [of e]) (auto simp: after_recv_def Let_def)
  have "w_rcv (e_wnd (parse_data seg e)) = w_rcv (e_wnd e)"
    by (simp add: parse_data_def Let_def)
  with wnd parse_data_recv_inv [OF assms, of seg] recv_recv_inv [OF assms] show ?thesis
    using rcv_buf_len_bound [of "parse_data seg e"] rcv_buf_len_bound [of "fst (recv e)"]
    by (auto simp: recv_inv_def)
qed

theorem receive_window_bounds_witness:
  "recv_inv (parse_data (sample_push 1 0 [12]) recv_engine)
   \<and> bt_len (e_rcv_buf (parse_data (sample_push 1 0 [12]) recv_engine)) \<le> 128"
  using receive_window_bounds [OF recv_engine_ok(1), of "sample_push 1 0 [12]"]
  by (simp add: recv_engine_def KcpEngine_new_def KcpCoreConfig_default_def)

text \<open>
  C36. A data segment with an empty payload at the front of the receive queue blocks the reader for
  good: \<open>peek_size\<close> is 0, which \<open>recv\<close> treats as "no complete message", so \<open>recv\<close> returns \<open>None\<close>
  without removing the segment, and no later arrival changes that.
\<close>

theorem empty_segment_blocks_recv:
  assumes "e_rcv_queue e = seg # q" "s_frg seg = 0" "s_data seg = []"
  shows "recv e = (e, Ok None)
    \<and> (\<forall>newseg. snd (recv (parse_data newseg e)) = Ok None
         \<and> (\<exists>q'. e_rcv_queue (parse_data newseg e) = seg # q'))"
proof -
  have blocked: "recv e' = (e', Ok None)" if "e_rcv_queue e' = seg # q'" for e' q'
    using that assms by (simp add: recv_def peek_size_def usize_as_i32_small)
  have "\<exists>q'. e_rcv_queue (parse_data newseg e) = seg # q'" for newseg
    using parse_data_queue_prefix [of "e\<lparr>e_rcv_buf := bt_or_insert (s_sn newseg) newseg (e_rcv_buf e)\<rparr>"]
      assms(1) by (auto simp: parse_data_def Let_def)
  with blocked assms(1) show ?thesis by (metis snd_conv)
qed

theorem empty_segment_blocks_recv_witness:
  "let e = recv_engine\<lparr>e_rcv_queue := [sample_push 0 0 [], sample_push 1 0 [12]]\<rparr> in recv e = (e, Ok None)"
  using empty_segment_blocks_recv [of "recv_engine\<lparr>e_rcv_queue := [sample_push 0 0 [], sample_push 1 0 [12]]\<rparr>"
      "sample_push 0 0 []" "[sample_push 1 0 [12]]"]
  by (simp add: sample_push_def KcpSegment_push_def KcpSegment_new_def KcpHeader_new_def)

end
