(* ===== verification/Kcp_Engine_Output.thy ===== *)
theory Kcp_Engine_Output
  imports Kcp_Engine_State
begin

text \<open>
  Emission of segments: \<open>output_segment\<close> packs encoded segments into the pending datagram and moves
  it to the output queue when the next segment would exceed the MTU; \<open>flush_out_buf\<close> moves the rest.
  The lemmas show that the packing loses, reorders and splits nothing, and respects the MTU.
\<close>

section \<open>Operations\<close>

definition output_segment :: "buf_api \<Rightarrow> KcpSegment \<Rightarrow> KcpEngine \<Rightarrow> unit engine_result" where
  "output_segment B segment e =
     (let need = KcpSegment_size segment;
          e = (if length (e_out_buf e) + need > unat (c_mtu (e_config e)) \<and> e_out_buf e \<noteq> []
               then e\<lparr>e_output_queue := e_output_queue e @ [e_out_buf e], e_out_buf := []\<rparr> else e);
          e = e\<lparr>e_out_buf := KcpSegment_encode B segment (e_out_buf e)\<rparr>;
          e = e\<lparr>e_stats := (e_stats e)\<lparr>st_packets_sent := st_packets_sent (e_stats e) + 1\<rparr>\<rparr>
      in (e, Ok ()))"

definition flush_out_buf :: "KcpEngine \<Rightarrow> KcpEngine" where
  "flush_out_buf e =
     (if e_out_buf e \<noteq> []
      then e\<lparr>e_output_queue := e_output_queue e @ [e_out_buf e], e_out_buf := []\<rparr> else e)"

section \<open>Frame: emission touches only the output fields\<close>

text \<open>
  \<open>same_but_output e e'\<close>: the two engines differ at most in the output queue, the pending datagram
  and the statistics. All emitting operations are related so to their argument.
\<close>

definition same_but_output :: "KcpEngine \<Rightarrow> KcpEngine \<Rightarrow> bool" where
  "same_but_output e e' \<longleftrightarrow> (\<exists>q b s. e' = e\<lparr>e_output_queue := q, e_out_buf := b, e_stats := s\<rparr>)"

lemma same_but_output_refl [simp, intro]: "same_but_output e e"
  unfolding same_but_output_def
  by (intro exI [of _ "e_output_queue e"] exI [of _ "e_out_buf e"] exI [of _ "e_stats e"]) simp

lemma same_but_output_updates [simp, intro]:
  assumes "same_but_output e e'"
  shows "same_but_output e (e'\<lparr>e_output_queue := q\<rparr>)" "same_but_output e (e'\<lparr>e_out_buf := b\<rparr>)"
    "same_but_output e (e'\<lparr>e_stats := s\<rparr>)"
proof -
  from assms obtain q0 b0 s0 where e': "e' = e\<lparr>e_output_queue := q0, e_out_buf := b0, e_stats := s0\<rparr>"
    unfolding same_but_output_def by blast
  show "same_but_output e (e'\<lparr>e_output_queue := q\<rparr>)"
    unfolding same_but_output_def e' by (intro exI [of _ q] exI [of _ b0] exI [of _ s0]) simp
  show "same_but_output e (e'\<lparr>e_out_buf := b\<rparr>)"
    unfolding same_but_output_def e' by (intro exI [of _ q0] exI [of _ b] exI [of _ s0]) simp
  show "same_but_output e (e'\<lparr>e_stats := s\<rparr>)"
    unfolding same_but_output_def e' by (intro exI [of _ q0] exI [of _ b0] exI [of _ s]) simp
qed

lemma same_but_output_trans [trans]:
  "same_but_output a b \<Longrightarrow> same_but_output b c \<Longrightarrow> same_but_output a c"
  unfolding same_but_output_def by force

lemma same_but_outputD:
  assumes "same_but_output e e'"
  shows "e_conv e' = e_conv e" "e_config e' = e_config e" "e_snd_una e' = e_snd_una e"
    "e_snd_nxt e' = e_snd_nxt e" "e_rcv_nxt e' = e_rcv_nxt e" "e_rtt e' = e_rtt e"
    "e_wnd e' = e_wnd e" "e_probe e' = e_probe e" "e_snd_queue e' = e_snd_queue e"
    "e_rcv_queue e' = e_rcv_queue e" "e_snd_buf e' = e_snd_buf e" "e_rcv_buf e' = e_rcv_buf e"
    "e_ack_list e' = e_ack_list e" "e_last_update e' = e_last_update e"
    "e_last_activity e' = e_last_activity e" "e_dead_link e' = e_dead_link e"
  using assms unfolding same_but_output_def by auto

lemma output_segment_Ok [simp]: "snd (output_segment B seg e) = Ok ()"
  by (simp add: output_segment_def Let_def)

lemma output_segment_same: "same_but_output e (fst (output_segment B seg e))"
  by (auto simp: output_segment_def Let_def)

lemma flush_out_buf_same: "same_but_output e (flush_out_buf e)"
  by (auto simp: flush_out_buf_def)

lemmas output_segment_fields [simp] = same_but_outputD [OF output_segment_same]
lemmas flush_out_buf_fields [simp] = same_but_outputD [OF flush_out_buf_same]

section \<open>What is on the wire\<close>

text \<open>
  The bytes an engine has emitted since the last \<open>drain_output\<close>, in order, and emission of a list of
  segments one after the other, as the flush passes do.
\<close>

definition emitted :: "KcpEngine \<Rightarrow> bytes" where
  "emitted e = concat (e_output_queue e) @ e_out_buf e"

fun output_segments :: "buf_api \<Rightarrow> KcpSegment list \<Rightarrow> KcpEngine \<Rightarrow> KcpEngine" where
  "output_segments B [] e = e"
| "output_segments B (seg # segs) e = output_segments B segs (fst (output_segment B seg e))"

lemma output_segments_append:
  "output_segments B (xs @ ys) e = output_segments B ys (output_segments B xs e)"
  by (induction xs arbitrary: e) auto

lemma output_segments_same: "same_but_output e (output_segments B segs e)"
  by (induction segs arbitrary: e) (auto intro: same_but_output_trans [OF output_segment_same])

text \<open>
  A datagram of the output queue is \<open>packed\<close> when it is the concatenation of whole encoded segments
  and not longer than the MTU. \<open>output_ok\<close> says so of every queued datagram and of the pending one.
\<close>

definition packed :: "buf_api \<Rightarrow> usize \<Rightarrow> bytes \<Rightarrow> bool" where
  "packed B mtu d \<longleftrightarrow>
     length d \<le> mtu \<and> (\<exists>segs. d = concat (map (\<lambda>s. KcpSegment_encode B s []) segs)
        \<and> (\<forall>s \<in> set segs. unat (h_len (s_header s)) = length (s_data s)))"

definition output_ok :: "buf_api \<Rightarrow> KcpEngine \<Rightarrow> bool" where
  "output_ok B e \<longleftrightarrow>
     (\<forall>d \<in> set (e_output_queue e). d \<noteq> [] \<and> packed B (unat (c_mtu (e_config e))) d) \<and>
     packed B (unat (c_mtu (e_config e))) (e_out_buf e)"

text \<open>A segment the engine may emit: its length field is right and it fits a datagram.\<close>

definition seg_fits :: "KcpEngine \<Rightarrow> KcpSegment \<Rightarrow> bool" where
  "seg_fits e seg \<longleftrightarrow>
     unat (h_len (s_header seg)) = length (s_data seg) \<and>
     KcpSegment_size seg \<le> unat (c_mtu (e_config e))"

lemma packed_Nil [simp]: "packed B mtu []"
  unfolding packed_def by (auto intro: exI [of _ "[]"])

context buf_codec
begin

lemma packed_encode:
  assumes "packed B mtu d" "unat (h_len (s_header seg)) = length (s_data seg)"
    "length d + KcpSegment_size seg \<le> mtu"
  shows "packed B mtu (KcpSegment_encode B seg d)"
proof -
  from assms(1) obtain segs where segs: "d = concat (map (\<lambda>s. KcpSegment_encode B s []) segs)"
      "\<forall>s \<in> set segs. unat (h_len (s_header s)) = length (s_data s)"
    by (auto simp: packed_def)
  have "KcpSegment_encode B seg d = concat (map (\<lambda>s. KcpSegment_encode B s []) (segs @ [seg]))"
    using segs(1) segment_encode_append [of seg d] by simp
  then show ?thesis
    using assms segs(2) unfolding packed_def segment_encode_length
    by (intro conjI exI [of _ "segs @ [seg]"]) auto
qed

lemma output_segment_ok:
  assumes "output_ok B e" "seg_fits e seg"
  shows "output_ok B (fst (output_segment B seg e))"
proof (cases "length (e_out_buf e) + KcpSegment_size seg > unat (c_mtu (e_config e)) \<and> e_out_buf e \<noteq> []")
  case True
  with assms show ?thesis
    by (auto simp: output_ok_def output_segment_def seg_fits_def intro: packed_encode)
next
  case False
  with assms have "length (e_out_buf e) + KcpSegment_size seg \<le> unat (c_mtu (e_config e))"
    by (auto simp: seg_fits_def)
  with False assms show ?thesis
    by (auto simp: output_ok_def output_segment_def seg_fits_def intro: packed_encode)
qed

lemma output_segments_ok:
  "output_ok B e \<Longrightarrow> \<forall>seg \<in> set segs. seg_fits e seg \<Longrightarrow> output_ok B (output_segments B segs e)"
proof (induction segs arbitrary: e)
  case (Cons seg segs)
  then show ?case by (auto intro!: Cons.IH output_segment_ok simp: seg_fits_def)
qed simp

lemma emitted_output_segment:
  "emitted (fst (output_segment B seg e)) = emitted e @ KcpSegment_encode B seg []"
  using segment_encode_append [of seg "e_out_buf e"]
  by (simp add: emitted_def output_segment_def Let_def)

lemma emitted_output_segments:
  "emitted (output_segments B segs e) = emitted e @ concat (map (\<lambda>s. KcpSegment_encode B s []) segs)"
  by (induction segs arbitrary: e) (simp_all add: emitted_output_segment)

end

lemma output_ok_new [simp]: "output_ok B (KcpEngine_new clk conv config)"
  by (simp add: output_ok_def KcpEngine_new_def Let_def)

lemma flush_out_buf_ok: "output_ok B e \<Longrightarrow> output_ok B (flush_out_buf e)"
  by (auto simp: output_ok_def flush_out_buf_def)

lemma emitted_flush_out_buf: "emitted (flush_out_buf e) = emitted e"
  by (simp add: emitted_def flush_out_buf_def)

lemma flush_out_buf_empty [simp]: "e_out_buf (flush_out_buf e) = []"
  by (simp add: flush_out_buf_def)

end
