(* ===== verification/Kcp_Engine_Send.thy ===== *)
theory Kcp_Engine_Send
  imports Kcp_Engine_State
begin

text \<open>
  \<open>KcpEngine::send\<close>: queueing of application data. In stream mode data is first merged into the last
  queued segment; what is left is cut into fragments of at most \<open>mss\<close> bytes, numbered downwards in
  message mode. The reference is \<open>chunks\<close>: the payloads queued are the \<open>mss\<close>-sized chunks of the
  data. The lemmas give the queue on every branch, the rejection rule, and what the error branch
  leaves behind in stream mode.
\<close>

section \<open>Operations\<close>

text \<open>
  The stream-mode merge: \<open>None\<close> when it does not apply, otherwise the engine with the extended last
  segment, the data that is left and the number of bytes merged. Both arms of \<open>try_into_mut\<close> yield
  a buffer with the old payload.
\<close>

definition stream_merge :: "usize \<Rightarrow> bytes \<Rightarrow> KcpEngine \<Rightarrow> (KcpEngine \<times> bytes \<times> usize) option" where
  "stream_merge m data e =
     (if c_stream_mode (e_config e) \<and> e_snd_queue e \<noteq> []
      then
        (let lst = last (e_snd_queue e); old_len = length (s_data lst) in
         if old_len < m
         then
           (let capacity = m - old_len;
                ext_len = min (length data) capacity;
                buf = s_data lst @ take ext_len data;
                lst' = lst\<lparr>s_data := buf,
                           s_header := (s_header lst)\<lparr>h_len := word_of_nat (length buf)\<rparr>\<rparr>
            in Some (e\<lparr>e_snd_queue := butlast (e_snd_queue e) @ [lst']\<rparr>, drop ext_len data, ext_len))
         else None)
      else None)"

text \<open>
  The loop \<open>for i in 0..count\<close>, with \<open>n\<close> iterations left. The clock read of fragment \<open>i\<close>'s header
  constructor is \<open>clk (1 + i)\<close>.
\<close>

fun fragment_loop :: "clock \<Rightarrow> usize \<Rightarrow> usize \<Rightarrow> bytes \<Rightarrow> nat \<Rightarrow> nat \<Rightarrow> usize \<Rightarrow> KcpEngine \<Rightarrow> KcpEngine" where
  "fragment_loop clk m count data 0 i offset e = e"
| "fragment_loop clk m count data (Suc n) i offset e =
     (let size = min m (length data - offset);
          fragment = take size (drop offset data);
          segment = KcpSegment_push (clk (1 + i)) (e_conv e) 0 fragment;
          segment = (if \<not> c_stream_mode (e_config e)
                     then segment\<lparr>s_header := (s_header segment)\<lparr>h_frg := word_of_nat (count - i - 1)\<rparr>\<rparr>
                     else segment)
      in fragment_loop clk m count data n (i + 1) (offset + size)
           (e\<lparr>e_snd_queue := e_snd_queue e @ [segment]\<rparr>))"

definition frag_count :: "usize \<Rightarrow> bytes \<Rightarrow> usize" where
  "frag_count m data = (if length data \<le> m then 1 else div_ceil_usize (length data) m)"

definition max_frags :: "KcpEngine \<Rightarrow> usize" where
  "max_frags e = unat (min (c_rcv_wnd (e_config e)) IKCP_WND_RCV)"

definition add_bytes_sent :: "usize \<Rightarrow> KcpEngine \<Rightarrow> KcpEngine" where
  "add_bytes_sent n e =
     e\<lparr>e_stats := (e_stats e)\<lparr>st_bytes_sent := st_bytes_sent (e_stats e) + word_of_nat n\<rparr>\<rparr>"

definition send_fragments :: "clock \<Rightarrow> usize \<Rightarrow> bytes \<Rightarrow> KcpEngine \<Rightarrow> unit engine_result" where
  "send_fragments clk m data e =
     (let count = frag_count m data in
      if count > max_frags e
      then (e, Err (core_buffer (''Message needs '' @ show_usize count @
              '' fragments, exceeding the '' @ show_usize (max_frags e) @
              '' the receive window can reassemble'')))
      else (add_bytes_sent (length data) (fragment_loop clk m count data count 0 0 e), Ok ()))"

text \<open>Clock reads: \<open>clk 0\<close> for the activity stamp, then those of the fragments.\<close>

definition send :: "clock \<Rightarrow> bytes \<Rightarrow> KcpEngine \<Rightarrow> unit engine_result" where
  "send clk data e0 =
     (let e = e0\<lparr>e_last_activity := clk 0\<rparr> in
      if data = [] then (e, Ok ())
      else
        (let m = unat (mss e) in
         case stream_merge m data e of
           None \<Rightarrow> send_fragments clk m data e
         | Some (e, rest, ext_len) \<Rightarrow>
             if rest = [] then (add_bytes_sent ext_len e, Ok ())
             else send_fragments clk m rest e))"

section \<open>The reference: chunks of the data\<close>

fun chunks :: "nat \<Rightarrow> 'a list \<Rightarrow> 'a list list" where
  "chunks n xs = (if n = 0 \<or> xs = [] then [] else take n xs # chunks n (drop n xs))"

declare chunks.simps [simp del]

lemma chunks_Nil [simp]: "chunks n [] = []"
  by (subst chunks.simps) simp

lemma chunks_step: "0 < n \<Longrightarrow> xs \<noteq> [] \<Longrightarrow> chunks n xs = take n xs # chunks n (drop n xs)"
  by (subst chunks.simps) simp

lemma concat_chunks: "0 < n \<Longrightarrow> concat (chunks n xs) = xs"
proof (induction n xs rule: chunks.induct)
  case (1 n xs)
  then show ?case by (cases "xs = []") (simp_all add: chunks_step)
qed

lemma chunks_elem: "0 < n \<Longrightarrow> c \<in> set (chunks n xs) \<Longrightarrow> c \<noteq> [] \<and> length c \<le> n"
proof (induction n xs rule: chunks.induct)
  case (1 n xs)
  then show ?case by (cases "xs = []") (auto simp: chunks_step)
qed

lemma div_ceil_step: "0 < n \<Longrightarrow> n \<le> a \<Longrightarrow> div_ceil_usize a n = Suc (div_ceil_usize (a - n) n)"
  by (simp add: div_ceil_usize_def le_div_geq le_mod_geq)

lemma div_ceil_small: "0 < a \<Longrightarrow> a < n \<Longrightarrow> div_ceil_usize a n = 1"
  by (simp add: div_ceil_usize_def)

lemma length_chunks: "0 < n \<Longrightarrow> length (chunks n xs) = div_ceil_usize (length xs) n"
proof (induction n xs rule: chunks.induct)
  case (1 n xs)
  consider "xs = []" | "xs \<noteq> []" "length xs < n" | "xs \<noteq> []" "n \<le> length xs"
    by fastforce
  then show ?case
  proof cases
    case 1
    then show ?thesis by (simp add: div_ceil_usize_def)
  next
    case 2
    then show ?thesis by (simp add: chunks_step div_ceil_small)
  next
    case 3
    with 1 show ?thesis by (simp add: chunks_step div_ceil_step)
  qed
qed

lemma nth_chunks: "0 < n \<Longrightarrow> i < length (chunks n xs) \<Longrightarrow> chunks n xs ! i = take n (drop (i * n) xs)"
proof (induction n xs arbitrary: i rule: chunks.induct)
  case (1 n xs)
  show ?case
  proof (cases "xs = []")
    case False
    then have c: "chunks n xs = take n xs # chunks n (drop n xs)" using 1(2) by (intro chunks_step)
    show ?thesis
    proof (cases i)
      case (Suc j)
      then have "j < length (chunks n (drop n xs))" using 1(3) c by simp
      then show ?thesis using 1(1) [of j] 1(2) False c Suc by (simp add: add.commute)
    qed (simp add: c)
  qed (use 1 in simp)
qed

lemma frag_count_chunks: "0 < n \<Longrightarrow> xs \<noteq> [] \<Longrightarrow> frag_count n xs = length (chunks n xs)"
  by (auto simp: frag_count_def length_chunks div_ceil_usize_def le_less)

section \<open>The fragment loop\<close>

text \<open>The segment built for fragment \<open>i\<close> with the given payload.\<close>

definition frag_seg :: "clock \<Rightarrow> KcpEngine \<Rightarrow> usize \<Rightarrow> nat \<Rightarrow> bytes \<Rightarrow> KcpSegment" where
  "frag_seg clk e count i payload =
     \<lparr> s_header = \<lparr> h_conv = e_conv e, h_cmd = IKCP_CMD_PUSH,
          h_frg = (if c_stream_mode (e_config e) then 0 else word_of_nat (count - i - 1)),
          h_wnd = 0, h_ts = clk (1 + i), h_sn = 0, h_una = 0, h_len = word_of_nat (length payload) \<rparr>,
       s_data = payload, s_resendts = 0, s_rto = IKCP_RTO_DEF, s_fastack = 0, s_xmit = 0 \<rparr>"

definition frag_segs :: "clock \<Rightarrow> KcpEngine \<Rightarrow> usize \<Rightarrow> nat \<Rightarrow> bytes list \<Rightarrow> KcpSegment list" where
  "frag_segs clk e count i payloads = map (\<lambda>(j, c). frag_seg clk e count j c) (enumerate i payloads)"

lemma fragment_loop_chunks:
  "0 < m \<Longrightarrow> n = length (chunks m (drop offset data)) \<Longrightarrow>
   fragment_loop clk m count data n i offset e =
     e\<lparr>e_snd_queue := e_snd_queue e @ frag_segs clk e count i (chunks m (drop offset data))\<rparr>"
proof (induction n arbitrary: i offset e)
  case 0
  then show ?case by (simp add: frag_segs_def)
next
  case (Suc n)
  let ?rest = "drop offset data" and ?sz = "min m (length data - offset)"
  have ne: "?rest \<noteq> []" using Suc.prems(2) by (metis Zero_not_Suc chunks_Nil list.size(3))
  have ch: "chunks m ?rest = take m ?rest # chunks m (drop m ?rest)"
    using Suc.prems(1) ne by (rule chunks_step)
  have tk: "take ?sz ?rest = take m ?rest" by (simp add: min_def)
  have rest: "drop (offset + ?sz) data = drop m ?rest"
    by (simp add: min_def add.commute)
  have n: "n = length (chunks m (drop (offset + ?sz) data))"
    using Suc.prems(2) by (simp add: ch rest)
  have seg: "(if \<not> c_stream_mode (e_config e)
      then (KcpSegment_push (clk (1 + i)) (e_conv e) 0 (take m ?rest))\<lparr>s_header :=
        (s_header (KcpSegment_push (clk (1 + i)) (e_conv e) 0 (take m ?rest)))
          \<lparr>h_frg := word_of_nat (count - i - 1)\<rparr>\<rparr>
      else KcpSegment_push (clk (1 + i)) (e_conv e) 0 (take m ?rest)) =
    frag_seg clk e count i (take m ?rest)"
    by (simp add: frag_seg_def KcpSegment_push_def KcpSegment_new_def KcpHeader_new_def Let_def)
  have step: "fragment_loop clk m count data (Suc n) i offset e =
      fragment_loop clk m count data n (i + 1) (offset + ?sz)
        (e\<lparr>e_snd_queue := e_snd_queue e @ [frag_seg clk e count i (take m ?rest)]\<rparr>)"
    by (simp only: fragment_loop.simps Let_def tk seg)
  show ?case
    unfolding step Suc.IH [OF Suc.prems(1) n] rest ch
    by (simp add: frag_segs_def frag_seg_def)
qed

lemma frag_segs_nth:
  "j < length cs \<Longrightarrow> frag_segs clk e count i cs ! j = frag_seg clk e count (i + j) (cs ! j)"
  by (simp add: frag_segs_def nth_enumerate_eq)

lemma length_frag_segs [simp]: "length (frag_segs clk e count i cs) = length cs"
  by (simp add: frag_segs_def)

lemma frag_segs_payload: "map s_data (frag_segs clk e count i cs) = cs"
  by (rule nth_equalityI) (simp_all add: frag_segs_nth frag_seg_def)

section \<open>What a call of send does\<close>

text \<open>The bytes waiting in the send queue, and the invariant of its segments.\<close>

definition queue_bytes :: "KcpEngine \<Rightarrow> bytes" where
  "queue_bytes e = concat (map s_data (e_snd_queue e))"

definition data_seg_ok :: "KcpEngine \<Rightarrow> KcpSegment \<Rightarrow> bool" where
  "data_seg_ok e seg \<longleftrightarrow>
     s_data seg \<noteq> [] \<and> length (s_data seg) \<le> unat (mss e) \<and>
     unat (h_len (s_header seg)) = length (s_data seg)"

definition snd_queue_ok :: "KcpEngine \<Rightarrow> bool" where
  "snd_queue_ok e \<longleftrightarrow> (\<forall>seg \<in> set (e_snd_queue e). data_seg_ok e seg)"

lemma mss_update_queue [simp]:
  "mss (e\<lparr>e_snd_queue := q\<rparr>) = mss e" "mss (e\<lparr>e_last_activity := t\<rparr>) = mss e"
  "mss (add_bytes_sent n e) = mss e"
  by (simp_all add: mss_def add_bytes_sent_def)

lemma send_fragments_cases:
  assumes m: "0 < m" and d: "data \<noteq> []"
  shows "send_fragments clk m data e =
    (if length (chunks m data) > max_frags e
     then (e, Err (core_buffer (''Message needs '' @ show_usize (length (chunks m data)) @
              '' fragments, exceeding the '' @ show_usize (max_frags e) @
              '' the receive window can reassemble'')))
     else (add_bytes_sent (length data) (e\<lparr>e_snd_queue := e_snd_queue e @
              frag_segs clk e (length (chunks m data)) 0 (chunks m data)\<rparr>), Ok ()))"
  using fragment_loop_chunks [OF m, of "length (chunks m data)" 0 data clk "length (chunks m data)" 0 e]
  by (simp add: send_fragments_def frag_count_chunks [OF m d] Let_def)

lemma frag_segs_ok:
  assumes "mtu_ok e" "seg \<in> set (frag_segs clk e count i (chunks (unat (mss e)) data))"
  shows "data_seg_ok e seg"
proof -
  from assms(2) obtain j where j: "j < length (chunks (unat (mss e)) data)"
      and seg: "seg = frag_seg clk e count (i + j) (chunks (unat (mss e)) data ! j)"
    by (metis frag_segs_nth in_set_conv_nth length_frag_segs)
  let ?c = "chunks (unat (mss e)) data ! j"
  have c: "?c \<noteq> []" "length ?c \<le> unat (mss e)"
    using chunks_elem [OF mss_pos [OF assms(1)] nth_mem [OF j]] by auto
  have "length ?c < 4294967296"
    using c(2) u32_unat_bound [of "mss e"] by simp
  with c show ?thesis
    by (simp add: data_seg_ok_def seg frag_seg_def unat_word_of_nat_u32)
qed

lemma stream_merge_SomeD:
  assumes "stream_merge m data e = Some (e', rest, n)"
  shows "c_stream_mode (e_config e) \<and> data = take n data @ rest \<and> n \<le> length data
    \<and> queue_bytes e' = queue_bytes e @ take n data
    \<and> (\<exists>q. e' = e\<lparr>e_snd_queue := q\<rparr>)
    \<and> length (e_snd_queue e') = length (e_snd_queue e)
    \<and> (rest = [] \<longrightarrow> n = length data)"
proof -
  from assms have ne: "e_snd_queue e \<noteq> []" by (auto simp: stream_merge_def split: if_splits)
  then have q: "e_snd_queue e = butlast (e_snd_queue e) @ [last (e_snd_queue e)]" by simp
  have "queue_bytes e = concat (map s_data (butlast (e_snd_queue e))) @ s_data (last (e_snd_queue e))"
    unfolding queue_bytes_def by (subst q) (simp del: append_butlast_last_id)
  then show ?thesis
    using assms ne by (auto simp: stream_merge_def Let_def queue_bytes_def split: if_splits)
qed

lemma stream_merge_queue_ok:
  assumes "stream_merge (unat (mss e)) data e = Some (e', rest, n)" "snd_queue_ok e" "data \<noteq> []"
  shows "snd_queue_ok e'"
proof -
  from assms(1) have ne: "e_snd_queue e \<noteq> []" by (auto simp: stream_merge_def split: if_splits)
  have len: "length (s_data (last (e_snd_queue e)) @ take n data) \<le> unat (mss e)"
    using assms(1) by (auto simp: stream_merge_def Let_def split: if_splits)
  then have "length (s_data (last (e_snd_queue e)) @ take n data) < 4294967296"
    using u32_unat_bound [of "mss e"] by linarith
  then have "unat (word_of_nat (length (s_data (last (e_snd_queue e)) @ take n data)) :: u32) =
      length (s_data (last (e_snd_queue e)) @ take n data)"
    by (rule unat_word_of_nat_u32)
  moreover have "data_seg_ok e (last (e_snd_queue e))"
    using assms(2) ne by (simp add: snd_queue_ok_def)
  ultimately show ?thesis
    using assms len in_set_butlastD [of _ "e_snd_queue e"]
    by (auto simp: snd_queue_ok_def data_seg_ok_def stream_merge_def Let_def split: if_splits)
qed

lemma add_bytes_sent_fields [simp]:
  "e_snd_queue (add_bytes_sent n e) = e_snd_queue e" "e_config (add_bytes_sent n e) = e_config e"
  "queue_bytes (add_bytes_sent n e) = queue_bytes e"
  by (simp_all add: add_bytes_sent_def queue_bytes_def)

lemma snd_queue_ok_cong:
  "e_snd_queue e' = e_snd_queue e \<Longrightarrow> e_config e' = e_config e \<Longrightarrow> snd_queue_ok e' = snd_queue_ok e"
  by (simp add: snd_queue_ok_def data_seg_ok_def mss_def)

text \<open>The three ways a call with data ends.\<close>

lemma send_cases:
  assumes "mtu_ok e" "data \<noteq> []"
  obtains
    (merged) e' where "stream_merge (unat (mss e)) data (e\<lparr>e_last_activity := clk 0\<rparr>) = Some (e', [], length data)"
      "send clk data e = (add_bytes_sent (length data) e', Ok ())"
  | (extended) e' rest n where "stream_merge (unat (mss e)) data (e\<lparr>e_last_activity := clk 0\<rparr>) = Some (e', rest, n)"
      "rest \<noteq> []" "send clk data e = send_fragments clk (unat (mss e)) rest e'"
  | (plain) "stream_merge (unat (mss e)) data (e\<lparr>e_last_activity := clk 0\<rparr>) = None"
      "send clk data e = send_fragments clk (unat (mss e)) data (e\<lparr>e_last_activity := clk 0\<rparr>)"
proof (cases "stream_merge (unat (mss e)) data (e\<lparr>e_last_activity := clk 0\<rparr>)")
  case None
  then show ?thesis using assms(2) plain by (simp add: send_def Let_def)
next
  case (Some t)
  then obtain e' rest n where t: "stream_merge (unat (mss e)) data (e\<lparr>e_last_activity := clk 0\<rparr>) = Some (e', rest, n)"
    by (cases t) auto
  show ?thesis
  proof (cases "rest = []")
    case True
    then have "n = length data" using stream_merge_SomeD [OF t] by blast
    with True t show ?thesis using assms(2) by (intro merged) (auto simp: send_def Let_def)
  next
    case False
    with t show ?thesis using assms(2) by (intro extended) (auto simp: send_def Let_def)
  qed
qed

lemma send_fragments_Ok:
  assumes "0 < m" "data \<noteq> []" "send_fragments clk m data e = (e', Ok ())"
  shows "length (chunks m data) \<le> max_frags e \<and>
    e_snd_queue e' = e_snd_queue e @ frag_segs clk e (length (chunks m data)) 0 (chunks m data) \<and>
    e_config e' = e_config e \<and> queue_bytes e' = queue_bytes e @ data"
proof -
  have "e' = add_bytes_sent (length data) (e\<lparr>e_snd_queue := e_snd_queue e @
         frag_segs clk e (length (chunks m data)) 0 (chunks m data)\<rparr>)" "length (chunks m data) \<le> max_frags e"
    using assms(3) by (auto simp: send_fragments_cases [OF assms(1,2)] split: if_splits)
  then show ?thesis
    by (simp add: queue_bytes_def frag_segs_payload concat_chunks [OF assms(1)])
qed

lemma send_fragments_Err:
  assumes "0 < m" "data \<noteq> []" "send_fragments clk m data e = (e', Err r)"
  shows "e' = e \<and> max_frags e < length (chunks m data)"
  using assms(3) by (auto simp: send_fragments_cases [OF assms(1,2)] split: if_splits)

lemma max_frags_le: "max_frags e \<le> 128"
proof -
  have "min (c_rcv_wnd (e_config e)) 128 \<le> (128 :: u32)" by simp
  then show ?thesis unfolding max_frags_def by (simp add: word_le_nat_alt)
qed

lemma send_queue_ok:
  assumes "mtu_ok e" "snd_queue_ok e"
  shows "snd_queue_ok (fst (send clk data e))"
proof (cases "data = []")
  case True
  then show ?thesis using assms(2) by (simp add: send_def Let_def snd_queue_ok_def data_seg_ok_def)
next
  case False
  let ?e = "e\<lparr>e_last_activity := clk 0\<rparr>"
  have m: "0 < unat (mss e)" using assms(1) by (rule mss_pos)
  have base: "mtu_ok ?e" "snd_queue_ok ?e"
    using assms by (simp_all add: mtu_ok_def snd_queue_ok_def data_seg_ok_def)
  have frags: "snd_queue_ok (fst (send_fragments clk (unat (mss x)) d x))"
    if "mtu_ok x" "snd_queue_ok x" "d \<noteq> []" for x d
    using that frag_segs_ok [OF that(1)]
    by (auto simp: send_fragments_cases [OF mss_pos [OF that(1)] that(3)] snd_queue_ok_def data_seg_ok_def)
  from assms(1) False show ?thesis
  proof (cases rule: send_cases [where clk = clk])
    case (merged e')
    then show ?thesis
      using stream_merge_queue_ok [of ?e data] base False
      by (simp add: snd_queue_ok_def data_seg_ok_def)
  next
    case (extended e' rest n)
    then have "snd_queue_ok e'"
      using stream_merge_queue_ok [of ?e data e' rest n] base False by simp
    moreover obtain q where "e' = ?e\<lparr>e_snd_queue := q\<rparr>"
      using stream_merge_SomeD [OF extended(1)] by blast
    then have "mss e' = mss e" "mtu_ok e'"
      using assms(1) by (simp_all add: mtu_ok_def)
    ultimately show ?thesis using frags [of e' rest] extended by simp
  next
    case plain
    then show ?thesis using frags [OF base False] by simp
  qed
qed

text \<open>A call grows the queue by at most the fragment limit, and accepts all data within it.\<close>

lemma send_fragments_growth:
  assumes "0 < m" "data \<noteq> []"
  shows "length (e_snd_queue (fst (send_fragments clk m data e))) \<le> length (e_snd_queue e) + max_frags e"
  by (simp add: send_fragments_cases [OF assms])

lemma max_frags_queue [simp]:
  "max_frags (e\<lparr>e_snd_queue := q\<rparr>) = max_frags e" "max_frags (e\<lparr>e_last_activity := t\<rparr>) = max_frags e"
  by (simp_all add: max_frags_def)

lemma send_growth:
  assumes "mtu_ok e"
  shows "length (e_snd_queue (fst (send clk data e))) \<le> length (e_snd_queue e) + max_frags e"
proof (cases "data = []")
  case True
  then show ?thesis by (simp add: send_def Let_def)
next
  case False
  have m: "0 < unat (mss e)" using assms by (rule mss_pos)
  from assms False show ?thesis
  proof (cases rule: send_cases [where clk = clk])
    case (merged e')
    then show ?thesis using stream_merge_SomeD [OF merged(1)] by simp
  next
    case (extended e' rest n)
    obtain q where "e' = e\<lparr>e_last_activity := clk 0, e_snd_queue := q\<rparr>" "length (e_snd_queue e') = length (e_snd_queue e)"
      using stream_merge_SomeD [OF extended(1)] by auto
    then show ?thesis
      using send_fragments_growth [OF m extended(2), of clk e'] extended(3) by simp
  next
    case plain
    then show ?thesis using send_fragments_growth [OF m False, of clk "e\<lparr>e_last_activity := clk 0\<rparr>"] by simp
  qed
qed

lemma chunks_within: "0 < m \<Longrightarrow> length data \<le> m * k \<Longrightarrow> length (chunks m data) \<le> k"
proof -
  assume m: "0 < m" and le: "length data \<le> m * k"
  have "length data div m \<le> k" "length data mod m \<noteq> 0 \<Longrightarrow> length data div m < k"
  proof -
    show "length data div m \<le> k" using div_le_mono [OF le, of m] m by simp
    show "length data div m < k" if "length data mod m \<noteq> 0"
    proof (rule ccontr)
      assume "\<not> length data div m < k"
      then have "m * k \<le> m * (length data div m)" by simp
      then show False using le that mult_div_mod_eq [of m "length data"] by linarith
    qed
  qed
  then show ?thesis by (auto simp: length_chunks [OF m] div_ceil_usize_def)
qed

lemma send_accepts:
  assumes "mtu_ok e" "length data \<le> unat (mss e) * max_frags e"
  shows "snd (send clk data e) = Ok ()"
proof (cases "data = []")
  case True
  then show ?thesis by (simp add: send_def Let_def)
next
  case False
  have m: "0 < unat (mss e)" using assms(1) by (rule mss_pos)
  have ok: "snd (send_fragments clk (unat (mss e)) d e') = Ok ()"
    if "d \<noteq> []" "length d \<le> length data" "max_frags e' = max_frags e" for d e'
    using chunks_within [OF m, of d "max_frags e"] that assms(2) by (simp add: send_fragments_cases [OF m])
  from assms(1) False show ?thesis
  proof (cases rule: send_cases [where clk = clk])
    case (merged e')
    then show ?thesis by simp
  next
    case (extended e' rest n)
    obtain q where "e' = e\<lparr>e_last_activity := clk 0, e_snd_queue := q\<rparr>" "data = take n data @ rest"
      using stream_merge_SomeD [OF extended(1)] by auto
    moreover have "length rest \<le> length data" using calculation(2) by (metis length_append le_add2)
    ultimately show ?thesis using extended ok [of rest e'] by simp
  next
    case plain
    then show ?thesis using ok [OF False] by simp
  qed
qed

lemma send_appends:
  assumes "mtu_ok e" and "snd_queue_ok e"
  shows "snd_queue_ok (fst (send clk data e))
    \<and> (snd (send clk data e) = Ok () \<longrightarrow> queue_bytes (fst (send clk data e)) = queue_bytes e @ data)"
proof (intro conjI impI)
  show "snd_queue_ok (fst (send clk data e))" using assms by (rule send_queue_ok)
next
  assume ok: "snd (send clk data e) = Ok ()"
  let ?e = "e\<lparr>e_last_activity := clk 0\<rparr>"
  have qb: "queue_bytes ?e = queue_bytes e" by (simp add: queue_bytes_def)
  have m: "0 < unat (mss e)" using assms(1) by (rule mss_pos)
  show "queue_bytes (fst (send clk data e)) = queue_bytes e @ data"
  proof (cases "data = []")
    case True
    then show ?thesis by (simp add: send_def Let_def queue_bytes_def)
  next
    case False
    from assms(1) False show ?thesis
    proof (cases rule: send_cases [where clk = clk])
      case (merged e')
      then show ?thesis using stream_merge_SomeD [OF merged(1)] qb by simp
    next
      case (extended e' rest n)
      have "queue_bytes (fst (send clk data e)) = queue_bytes e' @ rest"
        using send_fragments_Ok [OF m extended(2), of clk e' "fst (send clk data e)"] ok extended(3)
        by (simp add: prod_eq_iff)
      also have "\<dots> = queue_bytes e @ data"
        using stream_merge_SomeD [OF extended(1)] qb by (metis append_assoc)
      finally show ?thesis .
    next
      case plain
      then show ?thesis
        using send_fragments_Ok [OF m False, of clk ?e "fst (send clk data e)"] ok qb
        by (simp add: prod_eq_iff)
    qed
  qed
qed

text \<open>What \<open>send\<close> does with a message in message mode.\<close>

lemma message_fragments:
  assumes "mtu_ok e" and "\<not> c_stream_mode (e_config e)" and "data \<noteq> []"
    and "n = div_ceil_usize (length data) (unat (mss e))"
  shows "if n \<le> unat (min (c_rcv_wnd (e_config e)) 128)
    then \<exists>frags. snd (send clk data e) = Ok ()
      \<and> e_snd_queue (fst (send clk data e)) = e_snd_queue e @ frags
      \<and> length frags = n \<and> concat (map s_data frags) = data
      \<and> (\<forall>i < n. unat (s_frg (frags ! i)) = n - 1 - i
           \<and> s_data (frags ! i) = take (unat (mss e)) (drop (i * unat (mss e)) data)
           \<and> s_data (frags ! i) \<noteq> [] \<and> length (s_data (frags ! i)) \<le> unat (mss e)
           \<and> unat (h_len (s_header (frags ! i))) = length (s_data (frags ! i)))
    else (\<exists>m. snd (send clk data e) = Err (Core_Buffer m))
      \<and> e_snd_queue (fst (send clk data e)) = e_snd_queue e"
proof -
  let ?e = "e\<lparr>e_last_activity := clk 0\<rparr>" and ?cs = "chunks (unat (mss e)) data"
  let ?fs = "frag_segs clk ?e n 0 ?cs"
  have m: "0 < unat (mss e)" using assms(1) by (rule mss_pos)
  have n: "n = length ?cs" using length_chunks [OF m, of data] assms(4) by simp
  have send: "send clk data e = send_fragments clk (unat (mss e)) data ?e"
    using assms(2,3) by (simp add: send_def stream_merge_def Let_def)
  have mf: "max_frags ?e = unat (min (c_rcv_wnd (e_config e)) 128)" by (simp add: max_frags_def)
  show ?thesis
  proof (cases "n \<le> unat (min (c_rcv_wnd (e_config e)) 128)")
    case True
    have le: "n \<le> 128" using True max_frags_le [of ?e] mf by linarith
    have ok: "data_seg_ok ?e (?fs ! i)" if "i < n" for i
      using frag_segs_ok [of ?e "?fs ! i" clk n 0 data] assms(1) that n by (simp add: mtu_ok_def)
    have frg: "unat (s_frg (?fs ! i)) = n - 1 - i" if "i < n" for i
      using that n le assms(2) by (simp add: frag_segs_nth frag_seg_def unat_of_nat del: of_nat_diff)
    have pay: "s_data (?fs ! i) = take (unat (mss e)) (drop (i * unat (mss e)) data)" if "i < n" for i
      using that n nth_chunks [OF m] by (simp add: frag_segs_nth frag_seg_def)
    show ?thesis
      using True n mf frg ok pay
      by (auto intro!: exI [of _ ?fs] simp: send send_fragments_cases [OF m assms(3)] frag_segs_payload
          concat_chunks [OF m] data_seg_ok_def simp del: map_append)
  next
    case False
    then show ?thesis
      using n mf by (simp add: send send_fragments_cases [OF m assms(3)] core_buffer_def)
  qed
qed

section \<open>Properties\<close>

text \<open>
  C17. Message mode. A non-empty message is accepted exactly when its number of fragments, its length
  divided by \<open>mss\<close> and rounded up, is at most \<open>min(rcv_wnd, 128)\<close>; it is then appended to the queue as
  fragments, the \<open>i\<close>-th being the \<open>mss\<close> bytes from \<open>i * mss\<close> on (the last one what is left), so all but
  the last are exactly \<open>mss\<close> long; they are numbered by the count of fragments that follow (so the
  last has number 0), each with its length field set. A rejected message leaves the queue unchanged.
\<close>

theorem send_message_fragments:
  assumes "mtu_ok e" and "\<not> c_stream_mode (e_config e)" and "data \<noteq> []"
    and "n = div_ceil_usize (length data) (unat (mss e))"
  shows "if n \<le> unat (min (c_rcv_wnd (e_config e)) 128)
    then \<exists>frags. snd (send clk data e) = Ok ()
      \<and> e_snd_queue (fst (send clk data e)) = e_snd_queue e @ frags
      \<and> length frags = n \<and> concat (map s_data frags) = data
      \<and> (\<forall>i < n. unat (s_frg (frags ! i)) = n - 1 - i
           \<and> s_data (frags ! i) = take (unat (mss e)) (drop (i * unat (mss e)) data)
           \<and> s_data (frags ! i) \<noteq> [] \<and> length (s_data (frags ! i)) \<le> unat (mss e)
           \<and> unat (h_len (s_header (frags ! i))) = length (s_data (frags ! i)))
    else (\<exists>m. snd (send clk data e) = Err (Core_Buffer m))
      \<and> e_snd_queue (fst (send clk data e)) = e_snd_queue e"
  by (rule message_fragments [OF assms])

lemma new_snd_queue_ok [simp]: "snd_queue_ok (KcpEngine_new clk conv config)"
  by (simp add: snd_queue_ok_def KcpEngine_new_def Let_def)

theorem send_message_fragments_witness:
  "\<exists>frags. e_snd_queue (fst (send (\<lambda>_. 5) (replicate 3000 7)
        (KcpEngine_new (\<lambda>_. 0) 1 KcpCoreConfig_default))) = frags
     \<and> length frags = 3 \<and> concat (map s_data frags) = replicate 3000 7"
proof -
  let ?e = "KcpEngine_new (\<lambda>_. 0) 1 KcpCoreConfig_default"
  have m: "unat (mss ?e) = 1376"
    by (simp add: mss_def KcpEngine_new_def KcpCoreConfig_default_def Let_def)
  have cfg: "\<not> c_stream_mode (e_config ?e)" "unat (min (c_rcv_wnd (e_config ?e)) 128) = 128"
      "e_snd_queue ?e = []"
    by (simp_all add: KcpEngine_new_def KcpCoreConfig_default_def Let_def)
  have n: "3 = div_ceil_usize (length (replicate 3000 (7 :: u8))) (unat (mss ?e))"
    by (simp add: m div_ceil_usize_def)
  have ne: "replicate 3000 (7 :: u8) \<noteq> []" by simp
  show ?thesis
    using send_message_fragments [OF new_mtu_ok cfg(1) ne n, of "\<lambda>_. 5"] cfg by auto
qed

text \<open>
  Both modes, every branch. An accepted call appends exactly the given bytes to the bytes waiting
  in the queue, in order; and whatever the call does, every queued segment still has a non-empty payload
  of at most \<open>mss\<close> bytes and a matching length field.
\<close>

theorem send_appends_bytes:
  assumes "mtu_ok e" and "snd_queue_ok e"
  shows "snd_queue_ok (fst (send clk data e))
    \<and> (snd (send clk data e) = Ok () \<longrightarrow> queue_bytes (fst (send clk data e)) = queue_bytes e @ data)"
  using send_appends [OF assms] by blast

theorem send_appends_bytes_witness:
  "queue_bytes (fst (send (\<lambda>_. 5) [1, 2, 3] (KcpEngine_new (\<lambda>_. 0) 1 KcpCoreConfig_default))) = [1, 2, 3]"
proof -
  let ?e = "KcpEngine_new (\<lambda>_. 0) 1 KcpCoreConfig_default"
  have "snd (send (\<lambda>_. 5) [1, 2, 3] ?e) = Ok ()"
    by (simp add: send_def stream_merge_def send_fragments_def frag_count_def max_frags_def mss_def
        KcpEngine_new_def KcpCoreConfig_default_def Let_def)
  moreover have "queue_bytes ?e = []"
    by (simp add: queue_bytes_def KcpEngine_new_def Let_def)
  ultimately show ?thesis
    using send_appends_bytes [OF new_mtu_ok new_snd_queue_ok, of "\<lambda>_. 5" "[1, 2, 3]" "\<lambda>_. 0" 1 KcpCoreConfig_default]
    by simp
qed

text \<open>
  C37. Rejection is not atomic in stream mode. When the last queued segment has room and what is left
  after filling it needs too many fragments, \<open>send\<close> returns an error although it has already queued a
  non-empty prefix of the data: the bytes that filled the last segment.
\<close>

theorem stream_send_error_keeps_prefix:
  assumes "mtu_ok e" and "c_stream_mode (e_config e)" and "e_snd_queue e \<noteq> []"
    and "length (s_data (last (e_snd_queue e))) < unat (mss e)"
    and "snd (send clk data e) = Err r"
  shows "\<exists>n. n = unat (mss e) - length (s_data (last (e_snd_queue e))) \<and> 0 < n \<and> n < length data
    \<and> queue_bytes (fst (send clk data e)) = queue_bytes e @ take n data"
proof -
  let ?e = "e\<lparr>e_last_activity := clk 0\<rparr>"
  have ne: "data \<noteq> []" using assms(5) by (auto simp: send_def Let_def)
  have m: "0 < unat (mss e)" using assms(1) by (rule mss_pos)
  from assms(1) ne show ?thesis
  proof (cases rule: send_cases [where clk = clk])
    case (merged e')
    then show ?thesis using assms(5) by simp
  next
    case (extended e' rest n)
    have "fst (send clk data e) = e'"
      using send_fragments_Err [OF m extended(2), of clk e' "fst (send clk data e)" r] assms(5) extended(3)
      by (simp add: prod_eq_iff)
    moreover have "n = unat (mss e) - length (s_data (last (e_snd_queue e)))" "n < length data"
      using extended(1,2) assms(2,3,4) by (auto simp: stream_merge_def Let_def split: if_splits)
    ultimately show ?thesis
      using stream_merge_SomeD [OF extended(1)] assms(4) by (auto simp: queue_bytes_def)
  next
    case plain
    then show ?thesis using assms(2,3,4) by (simp add: stream_merge_def Let_def)
  qed
qed

text \<open>A small engine in stream mode (\<open>mss = 2\<close>, receive window 1) with one byte queued.\<close>

definition small_stream_config :: KcpCoreConfig where
  "small_stream_config = KcpCoreConfig_default\<lparr>c_mtu := 26, c_rcv_wnd := 1, c_stream_mode := True\<rparr>"

definition small_stream_engine :: KcpEngine where
  "small_stream_engine = fst (send (\<lambda>_. 0) [9] (KcpEngine_new (\<lambda>_. 0) 1 small_stream_config))"

lemmas small_stream_defs =
  small_stream_engine_def small_stream_config_def KcpCoreConfig_default_def KcpEngine_new_def
  send_def stream_merge_def send_fragments_def frag_count_def max_frags_def mss_def
  add_bytes_sent_def div_ceil_usize_def KcpSegment_push_def KcpSegment_new_def KcpHeader_new_def

lemma small_stream_engine_eval:
  "e_config small_stream_engine = small_stream_config"
  "map s_data (e_snd_queue small_stream_engine) = [[9]]"
  "st_bytes_sent (e_stats small_stream_engine) = 1"
  by (simp_all add: small_stream_defs KcpStats_default_def)

lemma small_stream_engine_facts:
  "mtu_ok small_stream_engine" "unat (mss small_stream_engine) = 2"
  "c_stream_mode (e_config small_stream_engine)" "e_snd_queue small_stream_engine \<noteq> []"
  "length (s_data (last (e_snd_queue small_stream_engine))) = 1"
  "queue_bytes small_stream_engine = [9]"
  using small_stream_engine_eval(2)
  by (simp_all add: mtu_ok_def mss_def small_stream_engine_eval(1) small_stream_config_def queue_bytes_def)
    (cases "e_snd_queue small_stream_engine"; simp)+

theorem stream_send_error_keeps_prefix_witness:
  "\<exists>r. snd (send (\<lambda>_. 0) [1, 2, 3, 4] small_stream_engine) = Err r
     \<and> queue_bytes (fst (send (\<lambda>_. 0) [1, 2, 3, 4] small_stream_engine)) = [9] @ [1]"
proof -
  obtain r where r: "snd (send (\<lambda>_. 0) [1, 2, 3, 4] small_stream_engine) = Err r"
    using small_stream_engine_facts small_stream_engine_eval(1)
    by (simp add: send_def stream_merge_def send_fragments_def frag_count_def max_frags_def
        div_ceil_usize_def small_stream_config_def Let_def)
  have "length (s_data (last (e_snd_queue small_stream_engine))) < unat (mss small_stream_engine)"
    by (simp add: small_stream_engine_facts)
  from stream_send_error_keeps_prefix [OF small_stream_engine_facts(1,3,4) this r]
  show ?thesis using r by (simp add: small_stream_engine_facts)
qed

text \<open>
  The \<open>bytes_sent\<close> counter misses merged bytes. When stream mode merges the first \<open>n\<close> bytes of an
  accepted call into the last queued segment and fragments the rest, only the rest is counted.
\<close>

theorem stream_send_counts_rest_only:
  assumes "mtu_ok e" and "c_stream_mode (e_config e)" and "e_snd_queue e \<noteq> []"
    and "n = unat (mss e) - length (s_data (last (e_snd_queue e)))" and "0 < n" and "n < length data"
    and "snd (send clk data e) = Ok ()"
  shows "queue_bytes (fst (send clk data e)) = queue_bytes e @ data
    \<and> st_bytes_sent (e_stats (fst (send clk data e))) =
        st_bytes_sent (e_stats e) + word_of_nat (length data - n)"
proof -
  let ?e = "e\<lparr>e_last_activity := clk 0\<rparr>"
  have ne: "data \<noteq> []" using assms(6) by auto
  have m: "0 < unat (mss e)" using assms(1) by (rule mss_pos)
  obtain e' where sm: "stream_merge (unat (mss e)) data ?e = Some (e', drop n data, n)"
    using assms(2-6) by (auto simp: stream_merge_def Let_def)
  have rest: "drop n data \<noteq> []" using assms(6) by simp
  have snd: "send clk data e = send_fragments clk (unat (mss e)) (drop n data) e'"
    using sm rest ne by (simp add: send_def Let_def)
  have D: "queue_bytes e' = queue_bytes ?e @ take n data" "e_stats e' = e_stats e"
    using stream_merge_SomeD [OF sm] by auto
  have "queue_bytes (fst (send clk data e)) = queue_bytes e' @ drop n data"
    using send_fragments_Ok [OF m rest, of clk e' "fst (send clk data e)"] assms(7) snd
    by (simp add: prod_eq_iff)
  then have "queue_bytes (fst (send clk data e)) = queue_bytes e @ data"
    unfolding D(1) by (simp add: queue_bytes_def)
  moreover have "st_bytes_sent (e_stats (fst (send clk data e))) =
      st_bytes_sent (e_stats e) + word_of_nat (length data - n)"
    using assms(7) D(2) unfolding snd send_fragments_cases [OF m rest]
    by (auto simp: add_bytes_sent_def split: if_splits)
  ultimately show ?thesis by blast
qed

theorem stream_send_counts_rest_only_witness:
  "st_bytes_sent (e_stats (fst (send (\<lambda>_. 0) [1, 2] small_stream_engine))) = 1 + word_of_nat (2 - 1)
   \<and> queue_bytes (fst (send (\<lambda>_. 0) [1, 2] small_stream_engine)) = [9, 1, 2]"
proof -
  have "snd (send (\<lambda>_. 0) [1, 2] small_stream_engine) = Ok ()"
    using small_stream_engine_facts small_stream_engine_eval(1)
    by (simp add: send_def stream_merge_def send_fragments_def frag_count_def max_frags_def
        div_ceil_usize_def small_stream_config_def Let_def)
  with stream_send_counts_rest_only [OF small_stream_engine_facts(1,3,4), of 1 "[1, 2]" "\<lambda>_. 0"]
  show ?thesis by (simp add: small_stream_engine_facts small_stream_engine_eval)
qed

end
