(* ===== verification/Kcp_Engine_Ack.thy ===== *)
theory Kcp_Engine_Ack
  imports Kcp_Engine_State
begin

text \<open>
  Acknowledgement processing of the engine: \<open>parse_una\<close>, \<open>parse_ack\<close> with its binary search,
  \<open>parse_fastack\<close>, \<open>shrink_buf\<close>, the round-trip estimator \<open>update_ack\<close> and the congestion window
  update \<open>update_cwnd\<close>. The invariant \<open>send_inv\<close> orders the send buffer by distance from
  \<open>snd_una\<close> and bounds it by the send window; it is what makes the binary search and the early exit
  of \<open>parse_fastack\<close> equivalent to a scan of the whole buffer.
\<close>

section \<open>Binary search of the standard library\<close>

datatype Ordering = Less | Equal | Greater

text \<open>\<open>i32::cmp(&0)\<close>.\<close>

definition cmp_zero :: "i32 \<Rightarrow> Ordering" where
  "cmp_zero i = (if i < 0 then Less else if i = 0 then Equal else Greater)"

text \<open>\<open>slice::binary_search_by\<close>: halve the range while it has more than one element.\<close>

function bs_loop :: "('a \<Rightarrow> Ordering) \<Rightarrow> 'a list \<Rightarrow> usize \<Rightarrow> usize \<Rightarrow> usize" where
  "bs_loop f xs sz base =
     (if sz > 1 then
        (let half = sz div 2; mid = base + half
         in bs_loop f xs (sz - half) (if f (xs ! mid) = Greater then base else mid))
      else base)"
  by pat_completeness auto
termination by (relation "measure (\<lambda>(f, xs, sz, base). sz)") auto

declare bs_loop.simps [simp del]

definition slice_binary_search_by :: "('a \<Rightarrow> Ordering) \<Rightarrow> 'a list \<Rightarrow> usize + usize" where
  "slice_binary_search_by f xs =
     (if xs = [] then Err 0
      else (let base = bs_loop f xs (length xs) 0; c = f (xs ! base)
            in if c = Equal then Ok base else Err (base + (if c = Less then 1 else 0))))"

text \<open>
  \<open>VecDeque::binary_search_by\<close>: the ring buffer lies in memory as two slices, split at \<open>k\<close>; the
  first element of the back slice decides which of them is searched.
\<close>

definition binary_search_by :: "usize \<Rightarrow> ('a \<Rightarrow> Ordering) \<Rightarrow> 'a list \<Rightarrow> usize + usize" where
  "binary_search_by k f xs =
     (let front = take k xs; back = drop k xs in
      case back of
        [] \<Rightarrow> slice_binary_search_by f front
      | elem # _ \<Rightarrow>
          if f elem = Equal then Ok (length front)
          else if f elem = Less then
            (case slice_binary_search_by f back of
               Inr idx \<Rightarrow> Ok (idx + length front) | Inl idx \<Rightarrow> Err (idx + length front))
          else slice_binary_search_by f front)"

text \<open>\<open>VecDeque::remove\<close> at an index in range.\<close>

definition remove_at :: "usize \<Rightarrow> 'a list \<Rightarrow> 'a list" where
  "remove_at i xs = take i xs @ drop (Suc i) xs"

section \<open>Operations\<close>

text \<open>The loop pops the front while it precedes \<open>una\<close>.\<close>

fun una_loop :: "SeqNum \<Rightarrow> KcpSegment list \<Rightarrow> KcpSegment list" where
  "una_loop una [] = []"
| "una_loop una (segment # buf) =
     (if seq_before (s_sn segment) una then una_loop una buf else segment # buf)"

definition parse_una :: "SeqNum \<Rightarrow> KcpEngine \<Rightarrow> KcpEngine" where
  "parse_una una e = e\<lparr>e_snd_buf := una_loop una (e_snd_buf e)\<rparr>"

text \<open>\<open>k\<close> is where the ring buffer of \<open>snd_buf\<close> wraps in memory.\<close>

definition parse_ack :: "usize \<Rightarrow> SeqNum \<Rightarrow> KcpEngine \<Rightarrow> KcpEngine" where
  "parse_ack k sn e =
     (if seq_before sn (e_snd_una e) \<or> \<not> seq_before sn (e_snd_nxt e) then e
      else
        (case binary_search_by k (\<lambda>s. cmp_zero (time_diff (s_sn s) sn)) (e_snd_buf e) of
           Inr pos \<Rightarrow> e\<lparr>e_snd_buf := remove_at pos (e_snd_buf e)\<rparr>
         | Inl _ \<Rightarrow> e))"

fun fastack_loop :: "SeqNum \<Rightarrow> Timestamp \<Rightarrow> KcpSegment list \<Rightarrow> KcpSegment list" where
  "fastack_loop sn ts [] = []"
| "fastack_loop sn ts (segment # buf) =
     (if \<not> seq_before (s_sn segment) sn then segment # buf
      else (if time_diff ts (h_ts (s_header segment)) \<ge> 0
            then segment\<lparr>s_fastack := s_fastack segment + 1\<rparr> else segment)
           # fastack_loop sn ts buf)"

definition parse_fastack :: "SeqNum \<Rightarrow> Timestamp \<Rightarrow> KcpEngine \<Rightarrow> KcpEngine" where
  "parse_fastack sn ts e =
     (if seq_before sn (e_snd_una e) \<or> \<not> seq_before sn (e_snd_nxt e) then e
      else e\<lparr>e_snd_buf := fastack_loop sn ts (e_snd_buf e)\<rparr>)"

definition ack_push :: "SeqNum \<Rightarrow> Timestamp \<Rightarrow> KcpEngine \<Rightarrow> KcpEngine" where
  "ack_push sn ts e = e\<lparr>e_ack_list := e_ack_list e @ [(sn, ts)]\<rparr>"

definition shrink_buf :: "KcpEngine \<Rightarrow> KcpEngine" where
  "shrink_buf e =
     (case e_snd_buf e of
        segment # _ \<Rightarrow> e\<lparr>e_snd_una := s_sn segment\<rparr>
      | [] \<Rightarrow> e\<lparr>e_snd_una := e_snd_nxt e\<rparr>)"

text \<open>The estimator part of \<open>update_ack\<close> on the sample after clamping.\<close>

definition smooth_rtt :: "i32 \<Rightarrow> RttState \<Rightarrow> RttState" where
  "smooth_rtt rtt r =
     (if r_avg r = 0 then r\<lparr>r_avg := i32_as_u32 rtt, r_var := i32_as_u32 rtt div 2\<rparr>
      else
        (let delta = (if rtt > u32_as_i32 (r_avg r) then i32_sub rtt (u32_as_i32 (r_avg r))
                      else i32_sub (u32_as_i32 (r_avg r)) rtt);
             r1 = r\<lparr>r_var := (3 * r_var r + i32_as_u32 delta) div 4\<rparr>;
             r2 = r1\<lparr>r_avg := (7 * r_avg r1 + i32_as_u32 rtt) div 8\<rparr>
         in if r_avg r2 < 1 then r2\<lparr>r_avg := 1\<rparr> else r2))"

definition update_ack :: "i32 \<Rightarrow> KcpEngine \<Rightarrow> KcpEngine" where
  "update_ack rtt0 e =
     (let rtt = clamp rtt0 0 (u32_as_i32 IKCP_RTO_MAX);
          r = smooth_rtt rtt (e_rtt e);
          rto = r_avg r + max (n_interval (c_nodelay (e_config e))) (4 * r_var r);
          r' = r\<lparr>r_rto := clamp rto (r_min_rto r) IKCP_RTO_MAX\<rparr>
      in e\<lparr>e_rtt := r',
           e_stats := (e_stats e)\<lparr>st_rtt := r_avg r', st_rtt_var := r_var r', st_rto := r_rto r'\<rparr>\<rparr>)"

text \<open>The two halves of the body of \<open>update_cwnd\<close>: growth, then the cap at the remote window.\<close>

definition grow_cwnd :: "u32 \<Rightarrow> WindowState \<Rightarrow> WindowState" where
  "grow_cwnd m w =
     (if w_cwnd w < w_ssthresh w then w\<lparr>w_cwnd := w_cwnd w + 1, w_incr := w_incr w + m\<rparr>
      else
        (let w1 = (if w_incr w < m then w\<lparr>w_incr := m\<rparr> else w);
             w2 = w1\<lparr>w_incr := w_incr w1 + (m * m div w_incr w1 + m div 16)\<rparr>
         in if (w_cwnd w2 + 1) * m \<le> w_incr w2
            then w2\<lparr>w_cwnd := (if m > 0 then div_ceil_u32 (w_incr w2) m else 1)\<rparr>
            else w2))"

definition cap_cwnd :: "u32 \<Rightarrow> WindowState \<Rightarrow> WindowState" where
  "cap_cwnd m w = (if w_cwnd w > w_rmt w then w\<lparr>w_cwnd := w_rmt w, w_incr := w_rmt w * m\<rparr> else w)"

definition update_cwnd :: "SeqNum \<Rightarrow> KcpEngine \<Rightarrow> KcpEngine" where
  "update_cwnd prev_una e =
     (if seq_after (e_snd_una e) prev_una \<and> w_cwnd (e_wnd e) < w_rmt (e_wnd e)
      then e\<lparr>e_wnd := cap_cwnd (mss e) (grow_cwnd (mss e) (e_wnd e))\<rparr> else e)"

section \<open>Correctness of the binary search\<close>

text \<open>A comparison that is strictly monotone along the list: at most one element is \<open>Equal\<close>.\<close>

definition monotone_cmp :: "('a \<Rightarrow> Ordering) \<Rightarrow> 'a list \<Rightarrow> bool" where
  "monotone_cmp f xs \<longleftrightarrow> (\<forall>i j. i < j \<longrightarrow> j < length xs \<longrightarrow> f (xs ! j) \<noteq> Greater \<longrightarrow> f (xs ! i) = Less)"

lemma bs_loop_inv:
  assumes "monotone_cmp f xs" "0 < sz" "base + sz \<le> length xs"
    and "base = 0 \<or> f (xs ! base) \<noteq> Greater"
    and "\<forall>j. base + sz \<le> j \<longrightarrow> j < length xs \<longrightarrow> f (xs ! j) = Greater"
  shows "bs_loop f xs sz base < length xs
    \<and> (bs_loop f xs sz base = 0 \<or> f (xs ! bs_loop f xs sz base) \<noteq> Greater)
    \<and> (\<forall>j. bs_loop f xs sz base < j \<longrightarrow> j < length xs \<longrightarrow> f (xs ! j) = Greater)"
  using assms
proof (induction f xs sz base rule: bs_loop.induct)
  case (1 f xs sz base)
  show ?case
  proof (cases "sz > 1")
    case False
    then have "sz = 1" using 1(3) by simp
    have "bs_loop f xs sz base = base" using False by (subst bs_loop.simps) simp
    with 1 \<open>sz = 1\<close> show ?thesis by simp
  next
    case True
    define mid where "mid = base + sz div 2"
    define base' where "base' = (if f (xs ! mid) = Greater then base else mid)"
    have loop: "bs_loop f xs sz base = bs_loop f xs (sz - sz div 2) base'"
      using True by (subst bs_loop.simps) (simp add: Let_def mid_def base'_def)
    have mid: "mid < length xs" using True 1(4) by (simp add: mid_def)
    have above: "f (xs ! j) = Greater" if "base' + (sz - sz div 2) \<le> j" "j < length xs" for j
    proof (cases "f (xs ! mid) = Greater")
      case g: True
      then have "mid \<le> j" using that(1) by (simp add: base'_def mid_def)
      then show ?thesis
        using g 1(2) that(2) mid unfolding monotone_cmp_def
        by (metis Ordering.distinct(3) le_neq_implies_less)
    next
      case False
      then show ?thesis using 1(6) that by (simp add: base'_def mid_def)
    qed
    show ?thesis
      unfolding loop
    proof (rule 1(1) [OF True refl refl, folded mid_def, folded base'_def])
      show "base' = 0 \<or> f (xs ! base') \<noteq> Greater" using 1(5) by (simp add: base'_def)
      show "0 < sz - sz div 2" using True by simp
      show "base' + (sz - sz div 2) \<le> length xs" using 1(4) by (auto simp: base'_def mid_def)
    qed (use 1(2) above in auto)
  qed
qed

lemma slice_binary_search_Ok:
  assumes "monotone_cmp f xs"
  shows "slice_binary_search_by f xs = Ok i \<longleftrightarrow> i < length xs \<and> f (xs ! i) = Equal"
proof (cases "xs = []")
  case True
  then show ?thesis by (simp add: slice_binary_search_by_def)
next
  case False
  define r where "r = bs_loop f xs (length xs) 0"
  have r: "r < length xs" "r = 0 \<or> f (xs ! r) \<noteq> Greater" "\<forall>j. r < j \<longrightarrow> j < length xs \<longrightarrow> f (xs ! j) = Greater"
    using bs_loop_inv [OF assms, of "length xs" 0] False unfolding r_def by auto
  have "i = r" if i: "i < length xs" "f (xs ! i) = Equal"
  proof (rule ccontr)
    assume "i \<noteq> r"
    then consider "i < r" | "r < i" by linarith
    then show False
    proof cases
      case 1
      then have "f (xs ! i) = Less" using r(1,2) assms by (auto simp: monotone_cmp_def)
      with i show False by simp
    next
      case 2
      then show False using r(3) i by auto
    qed
  qed
  then show ?thesis
    using False r(1) by (auto simp: slice_binary_search_by_def r_def [symmetric] Let_def)
qed

lemma monotone_cmp_split:
  assumes "monotone_cmp f (xs @ ys)" shows "monotone_cmp f xs" "monotone_cmp f ys"
proof -
  show "monotone_cmp f xs"
    unfolding monotone_cmp_def
  proof (intro allI impI)
    fix i j assume "i < j" "j < length xs" "f (xs ! j) \<noteq> Greater"
    then show "f (xs ! i) = Less"
      using assms [unfolded monotone_cmp_def, rule_format, of i j] by (simp add: nth_append)
  qed
  show "monotone_cmp f ys"
    unfolding monotone_cmp_def
  proof (intro allI impI)
    fix i j assume "i < j" "j < length ys" "f (ys ! j) \<noteq> Greater"
    then show "f (ys ! i) = Less"
      using assms [unfolded monotone_cmp_def, rule_format, of "length xs + i" "length xs + j"]
      by (simp add: nth_append)
  qed
qed

lemma monotone_cmp_less: "monotone_cmp f xs \<Longrightarrow> i < j \<Longrightarrow> j < length xs \<Longrightarrow> f (xs ! j) \<noteq> Greater \<Longrightarrow> f (xs ! i) = Less"
  by (simp add: monotone_cmp_def)

text \<open>The result does not depend on how the ring buffer lies in memory.\<close>

lemma binary_search_Ok:
  assumes mono: "monotone_cmp f xs"
  shows "binary_search_by k f xs = Ok i \<longleftrightarrow> i < length xs \<and> f (xs ! i) = Equal"
proof (cases "k < length xs")
  case False
  then show ?thesis by (simp add: binary_search_by_def slice_binary_search_Ok [OF mono])
next
  case True
  have mono': "monotone_cmp f (take k xs)" "monotone_cmp f (drop k xs)"
    using mono monotone_cmp_split [of f "take k xs" "drop k xs"] by simp_all
  have bck: "drop k xs = xs ! k # drop (Suc k) xs" using True by (rule Cons_nth_drop_Suc [symmetric])
  have search: "binary_search_by k f xs =
    (if f (xs ! k) = Equal then Ok k
     else if f (xs ! k) = Less then
       (case slice_binary_search_by f (drop k xs) of Inr idx \<Rightarrow> Ok (idx + k) | Inl idx \<Rightarrow> Err (idx + k))
     else slice_binary_search_by f (take k xs))"
    using True by (simp add: binary_search_by_def bck Let_def split: sum.split)
  consider (eq) "f (xs ! k) = Equal" | (lt) "f (xs ! k) = Less" | (gt) "f (xs ! k) = Greater"
    by (cases "f (xs ! k)") auto
  then show ?thesis
  proof cases
    case eq
    have "i = k" if "i < length xs" "f (xs ! i) = Equal"
      using that eq True monotone_cmp_less [OF mono, of i k] monotone_cmp_less [OF mono, of k i]
      by (metis Ordering.distinct(1,5) linorder_neqE_nat)
    then show ?thesis using eq True by (auto simp: search)
  next
    case lt
    have "k \<le> i" if "f (xs ! i) = Equal"
      using that lt True monotone_cmp_less [OF mono, of i k] by (metis Ordering.distinct(1,3) not_le_imp_less)
    moreover have "slice_binary_search_by f (drop k xs) = Ok (i - k) \<longleftrightarrow> i < length xs \<and> f (xs ! i) = Equal"
      if "k \<le> i"
      using that by (auto simp: slice_binary_search_Ok [OF mono'(2)])
    ultimately show ?thesis
      using lt by (auto simp: search split: sum.splits)
  next
    case gt
    have "i < k" if "i < length xs" "f (xs ! i) = Equal"
      using that gt monotone_cmp_less [OF mono, of k i] by (metis Ordering.distinct(3,5) linorder_neqE_nat)
    then show ?thesis using gt True by (auto simp: search slice_binary_search_Ok [OF mono'(1)])
  qed
qed

section \<open>The send invariant\<close>

text \<open>The distance of a segment's number from \<open>snd_una\<close>, and the number of segments in flight.\<close>

abbreviation sn_dist :: "SeqNum \<Rightarrow> KcpSegment \<Rightarrow> nat" where
  "sn_dist base seg \<equiv> unat (s_sn seg - base)"

definition in_flight :: "KcpEngine \<Rightarrow> nat" where
  "in_flight e = unat (e_snd_nxt e - e_snd_una e)"

text \<open>A list of segments in strictly ascending order within \<open>n\<close> numbers above \<open>base\<close>.\<close>

definition sn_window :: "SeqNum \<Rightarrow> nat \<Rightarrow> KcpSegment list \<Rightarrow> bool" where
  "sn_window base n segs \<longleftrightarrow>
     sorted_wrt (\<lambda>s t. sn_dist base s < sn_dist base t) segs \<and> (\<forall>s\<in>set segs. sn_dist base s < n)"

definition send_inv :: "KcpEngine \<Rightarrow> bool" where
  "send_inv e \<longleftrightarrow> sn_window (e_snd_una e) (in_flight e) (e_snd_buf e) \<and>
     in_flight e \<le> unat (w_snd (e_wnd e)) \<and> unat (w_snd (e_wnd e)) < 2147483648"

text \<open>At the boundaries of the interface \<open>snd_una\<close> is the number of the first buffered segment.\<close>

definition una_synced :: "KcpEngine \<Rightarrow> bool" where
  "una_synced e \<longleftrightarrow> e_snd_una e = (case e_snd_buf e of [] \<Rightarrow> e_snd_nxt e | s # _ \<Rightarrow> s_sn s)"

lemma sn_window_simps [simp]:
  "sn_window b n []"
  "sn_window b n (s # segs) \<longleftrightarrow> sn_dist b s < n \<and> (\<forall>t\<in>set segs. sn_dist b s < sn_dist b t) \<and> sn_window b n segs"
  by (auto simp: sn_window_def)

lemma sn_window_append:
  "sn_window b n (xs @ ys) \<longleftrightarrow> sn_window b n xs \<and> sn_window b n ys \<and>
     (\<forall>s\<in>set xs. \<forall>t\<in>set ys. sn_dist b s < sn_dist b t)"
  by (auto simp: sn_window_def sorted_wrt_append)

lemma sn_window_filter: "sn_window b n xs \<Longrightarrow> sn_window b n (filter P xs)"
  by (auto simp: sn_window_def sorted_wrt_filter)

lemma sn_window_map: "(\<And>s. s_sn (f s) = s_sn s) \<Longrightarrow> sn_window b n (map f xs) = sn_window b n xs"
  by (simp add: sn_window_def sorted_wrt_map)

lemma sn_window_cong:
  "map s_sn xs = map s_sn ys \<Longrightarrow> sn_window b n xs = sn_window b n ys"
proof (induction xs arbitrary: ys)
  case (Cons x xs)
  then obtain y ys' where ys: "ys = y # ys'" "s_sn x = s_sn y" "map s_sn xs = map s_sn ys'" by (cases ys) auto
  have "s_sn ` set xs = s_sn ` set ys'" using ys(3) by (metis set_map)
  then have "(\<forall>t\<in>set xs. sn_dist b y < sn_dist b t) = (\<forall>t\<in>set ys'. sn_dist b y < sn_dist b t)"
    by (metis (mono_tags, lifting) image_iff)
  with Cons.IH [OF ys(3)] ys(1,2) show ?case by simp
qed simp

lemma sn_window_length: "sn_window b n xs \<Longrightarrow> length xs \<le> n"
proof -
  assume w: "sn_window b n xs"
  then have "distinct (map (sn_dist b) xs)"
    by (induction xs) auto
  then have "length xs = card (sn_dist b ` set xs)" by (metis distinct_card length_map set_map)
  also have "\<dots> \<le> card {..<n}" using w by (intro card_mono) (auto simp: sn_window_def)
  finally show ?thesis by simp
qed

text \<open>The window test that guards \<open>parse_ack\<close> and \<open>parse_fastack\<close>.\<close>

lemma ack_guard_iff:
  assumes "in_flight e < 2147483648"
  shows "(seq_before sn (e_snd_una e) \<or> \<not> seq_before sn (e_snd_nxt e)) \<longleftrightarrow> in_flight e \<le> unat (sn - e_snd_una e)"
proof (cases "unat (sn - e_snd_una e) < 2147483648")
  case True
  then show ?thesis
    using assms seq_before_base [of sn "e_snd_una e" "e_snd_nxt e"] by (auto simp: seq_before_iff in_flight_def)
next
  case False
  then show ?thesis using assms by (auto simp: seq_before_iff)
qed

lemma send_inv_flight: "send_inv e \<Longrightarrow> in_flight e < 2147483648"
  by (simp add: send_inv_def)

text \<open>Within the window the signed difference orders segments like their distances.\<close>

lemma cmp_in_window:
  assumes "send_inv e" "s \<in> set (e_snd_buf e)" "unat (sn - e_snd_una e) < in_flight e"
  shows "cmp_zero (time_diff (s_sn s) sn) =
    (if sn_dist (e_snd_una e) s < unat (sn - e_snd_una e) then Less
     else if sn_dist (e_snd_una e) s = unat (sn - e_snd_una e) then Equal else Greater)"
proof -
  have "sn_dist (e_snd_una e) s < in_flight e" "in_flight e < 2147483648"
    using assms by (auto simp: send_inv_def sn_window_def)
  then show ?thesis
    using assms(3) time_diff_base [of "s_sn s" "e_snd_una e" sn] by (auto simp: cmp_zero_def)
qed

section \<open>The operations keep the invariant\<close>

lemma window_monotone_cmp:
  assumes "send_inv e" "unat (sn - e_snd_una e) < in_flight e"
  shows "monotone_cmp (\<lambda>s. cmp_zero (time_diff (s_sn s) sn)) (e_snd_buf e)"
  unfolding monotone_cmp_def
proof (intro allI impI)
  fix i j assume ij: "i < j" "j < length (e_snd_buf e)" "cmp_zero (time_diff (s_sn (e_snd_buf e ! j)) sn) \<noteq> Greater"
  have "sn_dist (e_snd_una e) (e_snd_buf e ! i) < sn_dist (e_snd_una e) (e_snd_buf e ! j)"
    using assms(1) ij by (auto simp: send_inv_def sn_window_def sorted_wrt_iff_nth_less)
  then show "cmp_zero (time_diff (s_sn (e_snd_buf e ! i)) sn) = Less"
    using ij cmp_in_window [OF assms(1) _ assms(2)] by (auto split: if_splits)
qed

lemma remove_at_filter:
  assumes "sn_window b n xs" "i < length xs" "s_sn (xs ! i) = sn"
  shows "remove_at i xs = filter (\<lambda>s. s_sn s \<noteq> sn) xs"
proof -
  have split: "take i xs @ xs ! i # drop (Suc i) xs = xs" using assms(2) by (simp add: id_take_nth_drop [symmetric])
  then have w: "sn_window b n (take i xs @ xs ! i # drop (Suc i) xs)" using assms(1) by simp
  have "s_sn s \<noteq> sn" if "s \<in> set (take i xs)" for s
    using w assms(3) that unfolding sn_window_append by force
  moreover have "s_sn s \<noteq> sn" if "s \<in> set (drop (Suc i) xs)" for s
    using w assms(3) that unfolding sn_window_append by force
  ultimately have "filter (\<lambda>s. s_sn s \<noteq> sn) (take i xs @ xs ! i # drop (Suc i) xs) = take i xs @ drop (Suc i) xs"
    using assms(3) by (simp add: filter_id_conv)
  then show ?thesis using split by (simp add: remove_at_def)
qed

lemma parse_ack_filter:
  assumes inv: "send_inv e"
  shows "parse_ack k sn e = e\<lparr>e_snd_buf := filter (\<lambda>s. s_sn s \<noteq> sn) (e_snd_buf e)\<rparr>"
proof (cases "unat (sn - e_snd_una e) < in_flight e")
  case False
  have "s_sn s \<noteq> sn" if "s \<in> set (e_snd_buf e)" for s
    using inv that False by (auto simp: send_inv_def sn_window_def)
  then have "filter (\<lambda>s. s_sn s \<noteq> sn) (e_snd_buf e) = e_snd_buf e" by (simp add: filter_id_conv)
  then show ?thesis
    using False ack_guard_iff [OF send_inv_flight [OF inv], of sn] by (simp add: parse_ack_def)
next
  case True
  let ?f = "\<lambda>s. cmp_zero (time_diff (s_sn s) sn)"
  have eq: "?f s = Equal \<longleftrightarrow> s_sn s = sn" if "s \<in> set (e_snd_buf e)" for s
    using cmp_in_window [OF inv that True] unat_eq_dist [of "s_sn s" "e_snd_una e" sn] by auto
  note search = binary_search_Ok [OF window_monotone_cmp [OF inv True], of k]
  have guard: "\<not> (seq_before sn (e_snd_una e) \<or> \<not> seq_before sn (e_snd_nxt e))"
    using True ack_guard_iff [OF send_inv_flight [OF inv], of sn] by simp
  show ?thesis
  proof (cases "binary_search_by k ?f (e_snd_buf e)")
    case (Inr pos)
    then have "pos < length (e_snd_buf e)" "s_sn (e_snd_buf e ! pos) = sn"
      using search [of pos] eq by auto
    then show ?thesis
      using guard Inr remove_at_filter inv by (auto simp: parse_ack_def send_inv_def)
  next
    case (Inl pos)
    then have "\<forall>i < length (e_snd_buf e). s_sn (e_snd_buf e ! i) \<noteq> sn" using search eq by force
    then have "filter (\<lambda>s. s_sn s \<noteq> sn) (e_snd_buf e) = e_snd_buf e"
      by (auto simp: filter_id_conv in_set_conv_nth)
    then show ?thesis using guard Inl by (auto simp: parse_ack_def)
  qed
qed

lemma una_loop_dropWhile: "una_loop una xs = dropWhile (\<lambda>s. seq_before (s_sn s) una) xs"
  by (induction xs) auto

lemma parse_ack_send_inv: "send_inv e \<Longrightarrow> send_inv (parse_ack k sn e)"
  by (simp add: parse_ack_filter send_inv_def in_flight_def sn_window_filter)

lemma parse_una_send_inv: "send_inv e \<Longrightarrow> send_inv (parse_una una e)"
proof -
  assume "send_inv e"
  moreover have "sn_window b n (dropWhile P xs)" if "sn_window b n xs" for b n P and xs :: "KcpSegment list"
    using that by (induction xs) auto
  ultimately show ?thesis
    by (simp add: parse_una_def una_loop_dropWhile send_inv_def in_flight_def)
qed

lemma seq_before_in_window:
  assumes "send_inv e" "s \<in> set (e_snd_buf e)" "unat (una - e_snd_una e) \<le> in_flight e"
  shows "seq_before (s_sn s) una \<longleftrightarrow> sn_dist (e_snd_una e) s < unat (una - e_snd_una e)"
proof -
  have "sn_dist (e_snd_una e) s < in_flight e" "in_flight e < 2147483648"
    using assms by (auto simp: send_inv_def sn_window_def)
  then show ?thesis using assms(3) by (intro seq_before_base) auto
qed

lemma parse_una_filter:
  assumes inv: "send_inv e" and una: "unat (una - e_snd_una e) \<le> in_flight e"
  shows "parse_una una e =
    e\<lparr>e_snd_buf := filter (\<lambda>s. unat (una - e_snd_una e) \<le> sn_dist (e_snd_una e) s) (e_snd_buf e)\<rparr>"
proof -
  let ?d = "unat (una - e_snd_una e)"
  have drop: "dropWhile (\<lambda>s. sn_dist b s < d) xs = filter (\<lambda>s. d \<le> sn_dist b s) xs"
    if "sn_window b n xs" for b d n xs
    using that by (induction xs) (auto simp: not_less intro!: filter_id_conv [THEN iffD2, symmetric])
  have "una_loop una (e_snd_buf e) = dropWhile (\<lambda>s. sn_dist (e_snd_una e) s < ?d) (e_snd_buf e)"
    unfolding una_loop_dropWhile
    by (rule dropWhile_cong) (simp_all add: seq_before_in_window [OF inv _ una])
  then show ?thesis using inv drop by (auto simp: parse_una_def send_inv_def)
qed

lemma fastack_loop_sn: "map s_sn (fastack_loop sn ts xs) = map s_sn xs"
  by (induction xs) auto

lemma fastack_loop_data: "map content_of (fastack_loop sn ts xs) = map content_of xs"
  if "\<And>s x. content_of (s\<lparr>s_fastack := x\<rparr>) = content_of s"
  using that by (induction xs) auto

definition fastack_bump :: "SeqNum \<Rightarrow> Timestamp \<Rightarrow> KcpSegment \<Rightarrow> KcpSegment" where
  "fastack_bump sn ts s =
     (if seq_before (s_sn s) sn \<and> time_diff ts (h_ts (s_header s)) \<ge> 0
      then s\<lparr>s_fastack := s_fastack s + 1\<rparr> else s)"

lemma parse_fastack_map:
  assumes inv: "send_inv e" and sn: "unat (sn - e_snd_una e) < in_flight e"
  shows "parse_fastack sn ts e = e\<lparr>e_snd_buf := map (fastack_bump sn ts) (e_snd_buf e)\<rparr>"
proof -
  have before: "seq_before (s_sn s) sn \<longleftrightarrow> sn_dist (e_snd_una e) s < unat (sn - e_snd_una e)"
    if "s \<in> set (e_snd_buf e)" for s
    using seq_before_in_window [OF inv that, of sn] sn by simp
  have "fastack_loop sn ts xs = map (fastack_bump sn ts) xs"
    if "sn_window (e_snd_una e) n xs" "set xs \<subseteq> set (e_snd_buf e)" for n xs
    using that
  proof (induction xs)
    case (Cons s xs)
    show ?case
    proof (cases "seq_before (s_sn s) sn")
      case False
      then have "\<not> seq_before (s_sn t) sn" if "t \<in> set xs" for t
        using Cons.prems before that by force
      then have "map (fastack_bump sn ts) xs = xs" by (simp add: fastack_bump_def map_idI)
      then show ?thesis using False by (simp add: fastack_bump_def [of sn ts s])
    next
      case True
      then show ?thesis using Cons by (simp add: fastack_bump_def [of sn ts s])
    qed
  qed simp
  then have "fastack_loop sn ts (e_snd_buf e) = map (fastack_bump sn ts) (e_snd_buf e)"
    using inv by (auto simp: send_inv_def)
  then show ?thesis
    using sn ack_guard_iff [OF send_inv_flight [OF inv], of sn] by (simp add: parse_fastack_def)
qed

lemma parse_fastack_send_inv: "send_inv e \<Longrightarrow> send_inv (parse_fastack sn ts e)"
  using sn_window_cong [OF fastack_loop_sn [of sn ts "e_snd_buf e"]]
  by (simp add: parse_fastack_def send_inv_def in_flight_def)

lemma sn_window_rebase:
  assumes "sn_window b n xs" "\<forall>s\<in>set xs. unat (b' - b) \<le> sn_dist b s" "unat (b' - b) \<le> n"
  shows "sn_window b' (n - unat (b' - b)) xs"
proof -
  have "sn_dist b' s = sn_dist b s - unat (b' - b)" if "s \<in> set xs" for s
    using assms(2) that dist_via_base [of "s_sn s" b' b] by simp
  with assms(1,2) show ?thesis
  proof (induction xs)
    case (Cons x xs)
    then show ?case using assms(3) by (auto intro: diff_less_mono)
  qed simp
qed

lemma shrink_buf_send_inv:
  assumes "send_inv e" shows "send_inv (shrink_buf e) \<and> una_synced (shrink_buf e)"
proof (cases "e_snd_buf e")
  case Nil
  then show ?thesis
    using assms by (simp add: shrink_buf_def send_inv_def una_synced_def in_flight_def)
next
  case (Cons s segs)
  have w: "sn_window (e_snd_una e) (in_flight e) (s # segs)" using assms Cons by (simp add: send_inv_def)
  then have "sn_window (s_sn s) (in_flight e - sn_dist (e_snd_una e) s) (s # segs)"
    by (intro sn_window_rebase) (auto intro: less_imp_le)
  moreover have "in_flight (e\<lparr>e_snd_una := s_sn s\<rparr>) = in_flight e - sn_dist (e_snd_una e) s"
    using w dist_via_base [of "e_snd_nxt e" "s_sn s" "e_snd_una e"] by (simp add: in_flight_def)
  ultimately show ?thesis
    using assms Cons by (auto simp: shrink_buf_def send_inv_def una_synced_def simp del: sn_window_simps)
qed

section \<open>The round-trip estimator\<close>

definition rtt_ok :: "RttState \<Rightarrow> bool" where
  "rtt_ok r \<longleftrightarrow> unat (r_avg r) \<le> 60000 \<and> unat (r_var r) \<le> 60000 \<and> unat (r_min_rto r) \<le> 60000 \<and>
     unat (r_min_rto r) \<le> unat (r_rto r) \<and> unat (r_rto r) \<le> 60000"

lemma i32_as_u32_nat: "0 \<le> i \<Longrightarrow> i < 4294967296 \<Longrightarrow> unat (i32_as_u32 i) = nat i"
  using unat_word_of_nat_u32 [of "nat i"] by (simp add: i32_as_u32_def)

text \<open>The estimator in unbounded arithmetic.\<close>

fun smooth_ref :: "nat \<Rightarrow> nat \<times> nat \<Rightarrow> nat \<times> nat" where
  "smooth_ref r (avg, var) =
     (if avg = 0 then (r, r div 2)
      else (max 1 ((7 * avg + r) div 8), (3 * var + (if avg < r then r - avg else avg - r)) div 4))"

lemma smooth_rtt_exact:
  assumes "rtt_ok r" "0 \<le> i" "i \<le> 60000"
  shows "(unat (r_avg (smooth_rtt i r)), unat (r_var (smooth_rtt i r))) =
    smooth_ref (nat i) (unat (r_avg r), unat (r_var r))"
    "r_min_rto (smooth_rtt i r) = r_min_rto r"
proof -
  have u: "unat (i32_as_u32 i) = nat i" using assms by (simp add: i32_as_u32_nat)
  define a v where av: "a = unat (r_avg r)" "v = unat (r_var r)"
  have b: "a \<le> 60000" "v \<le> 60000" using assms(1) by (simp_all add: rtt_ok_def av)
  have sa: "u32_as_i32 (r_avg r) = int a" using b by (simp add: u32_as_i32_def sint_u32_unat av)
  have z: "r_avg r = 0 \<longleftrightarrow> a = 0" by (simp add: av unat_eq_0)
  define delta where "delta = (if i > int a then i32_sub i (int a) else i32_sub (int a) i)"
  have sub: "i32_sub x y = x - y" if "0 \<le> x - y" "x - y \<le> 60000" for x y
    using that i32_as_u32_nat [of "x - y"] by (simp add: i32_sub_def sint_u32_unat i32_as_u32_def)
  have d: "unat (i32_as_u32 delta) = (if a < nat i then nat i - a else a - nat i)"
    using assms(2,3) b by (auto simp: delta_def sub i32_as_u32_nat nat_diff_distrib)
  have var: "unat ((3 * r_var r + i32_as_u32 delta) div 4) = (3 * v + unat (i32_as_u32 delta)) div 4"
    using b d assms(3) by (simp add: unat_div unat_word_ariths av)
  have avg: "unat ((7 * r_avg r + i32_as_u32 i) div 8) = (7 * a + nat i) div 8"
    using b u assms(3) by (simp add: unat_div unat_word_ariths av)
  have half: "unat (i32_as_u32 i div 2) = nat i div 2" using u by (simp add: unat_div)
  have one: "(7 * r_avg r + i32_as_u32 i) div 8 < 1 \<longleftrightarrow> (7 * a + nat i) div 8 < 1"
    using avg by (simp add: word_less_nat_alt)
  have eq: "smooth_rtt i r =
    (if r_avg r = 0 then r\<lparr>r_avg := i32_as_u32 i, r_var := i32_as_u32 i div 2\<rparr>
     else (let r2 = r\<lparr>r_var := (3 * r_var r + i32_as_u32 delta) div 4,
                       r_avg := (7 * r_avg r + i32_as_u32 i) div 8\<rparr>
           in if r_avg r2 < 1 then r2\<lparr>r_avg := 1\<rparr> else r2))"
    unfolding smooth_rtt_def sa delta_def by (simp add: Let_def)
  show "(unat (r_avg (smooth_rtt i r)), unat (r_var (smooth_rtt i r))) =
    smooth_ref (nat i) (unat (r_avg r), unat (r_var r))"
    using u half var avg one d
    by (simp add: eq z av [symmetric] Let_def)
  show "r_min_rto (smooth_rtt i r) = r_min_rto r" by (simp add: smooth_rtt_def Let_def)
qed

lemma smooth_ref_bounds:
  "r \<le> 60000 \<Longrightarrow> avg \<le> 60000 \<Longrightarrow> var \<le> 60000 \<Longrightarrow> smooth_ref r (avg, var) = (avg', var') \<Longrightarrow>
   avg' \<le> 60000 \<and> var' \<le> 60000 \<and> min avg r \<le> avg' \<and> avg' \<le> max 1 (max avg r)"
  by (auto simp: max_def min_def split: if_splits)

lemma update_ack_rtt:
  assumes "rtt_ok (e_rtt e)"
  shows "rtt_ok (e_rtt (update_ack i e))"
    and "(unat (r_avg (e_rtt (update_ack i e))), unat (r_var (e_rtt (update_ack i e)))) =
      smooth_ref (nat (clamp i 0 60000)) (unat (r_avg (e_rtt e)), unat (r_var (e_rtt e)))"
    and "r_min_rto (e_rtt (update_ack i e)) = r_min_rto (e_rtt e)"
proof -
  have max: "u32_as_i32 IKCP_RTO_MAX = 60000" by (simp add: u32_as_i32_def sint_u32_unat)
  have c: "0 \<le> clamp i 0 60000" "clamp i 0 60000 \<le> 60000" by (auto simp: clamp_def)
  note ex = smooth_rtt_exact [OF assms c]
  have av: "r_avg (e_rtt (update_ack i e)) = r_avg (smooth_rtt (clamp i 0 60000) (e_rtt e))"
    "r_var (e_rtt (update_ack i e)) = r_var (smooth_rtt (clamp i 0 60000) (e_rtt e))"
    by (simp_all add: update_ack_def Let_def max)
  show "(unat (r_avg (e_rtt (update_ack i e))), unat (r_var (e_rtt (update_ack i e)))) =
      smooth_ref (nat (clamp i 0 60000)) (unat (r_avg (e_rtt e)), unat (r_var (e_rtt e)))"
    using ex(1) av by simp
  show m: "r_min_rto (e_rtt (update_ack i e)) = r_min_rto (e_rtt e)"
    using ex(2) by (simp add: update_ack_def Let_def max)
  have "r_min_rto (e_rtt e) \<le> IKCP_RTO_MAX" using assms by (simp add: rtt_ok_def word_le_nat_alt)
  then have "r_min_rto (e_rtt e) \<le> r_rto (e_rtt (update_ack i e)) \<and> r_rto (e_rtt (update_ack i e)) \<le> IKCP_RTO_MAX"
    using clamp_bounds ex(2) by (simp add: update_ack_def Let_def max)
  moreover have "unat (r_avg (e_rtt (update_ack i e))) \<le> 60000" "unat (r_var (e_rtt (update_ack i e))) \<le> 60000"
    using smooth_ref_bounds [OF _ _ _ ex(1) [symmetric]] c assms av by (auto simp: rtt_ok_def)
  ultimately show "rtt_ok (e_rtt (update_ack i e))"
    using assms m by (auto simp: rtt_ok_def word_le_nat_alt)
qed

section \<open>The congestion window\<close>

text \<open>
  \<open>incr\<close> is the congestion window in bytes. The invariant keeps it below the next step of \<open>cwnd\<close>;
  with an MTU and a remote window that fit 16 bits no operation of \<open>update_cwnd\<close> wraps around, and
  it computes what the same formulas give in unbounded arithmetic.
\<close>

definition cwnd_inv :: "KcpEngine \<Rightarrow> bool" where
  "cwnd_inv e \<longleftrightarrow> unat (w_incr (e_wnd e)) \<le> (unat (w_cwnd (e_wnd e)) + 1) * unat (mss e)"

fun cwnd_ref :: "nat \<Rightarrow> nat \<Rightarrow> nat \<Rightarrow> nat \<times> nat \<Rightarrow> nat \<times> nat" where
  "cwnd_ref m rmt thresh (c, i) =
     (let (c1, i1) = (if c < thresh then (c + 1, i + m)
                      else (let i0 = max i m; i1 = i0 + (m * m div i0 + m div 16)
                            in if (c + 1) * m \<le> i1 then ((i1 + m - 1) div m, i1) else (c, i1)))
      in if rmt < c1 then (rmt, rmt * m) else (c1, i1))"

declare cwnd_ref.simps [simp del]

lemma unat_mult_u32: "unat (a :: u32) * unat b < 4294967296 \<Longrightarrow> unat (a * b) = unat a * unat b"
  by (simp add: unat_word_ariths)

lemma unat_div_ceil:
  assumes "0 < unat b"
  shows "unat (div_ceil_u32 a b) = (unat a + unat b - 1) div unat b"
proof -
  let ?a = "unat a" and ?b = "unat b"
  have a: "?a = ?a div ?b * ?b + ?a mod ?b" by simp
  show ?thesis
  proof (cases "?a mod ?b = 0")
    case True
    have "?a + ?b - 1 = (?b - 1) + ?a div ?b * ?b" using True a assms by simp
    then have "(?a + ?b - 1) div ?b = ?a div ?b"
      using assms div_mult_self1 [of ?b "?b - 1" "?a div ?b"] by simp
    then show ?thesis using True by (simp add: div_ceil_u32_def unat_div unat_mod word_unat_eq_iff)
  next
    case False
    have "?a + ?b - 1 = (?a mod ?b - 1) + (?a div ?b + 1) * ?b"
      using False a assms unfolding add_mult_distrib by linarith
    then have "(?a + ?b - 1) div ?b = ?a div ?b + 1"
      using False assms mod_less_divisor [OF assms, of ?a]
        div_mult_self1 [of ?b "?a mod ?b - 1" "?a div ?b + 1"] by simp
    moreover have "unat (a div b + 1) = unat (a div b) + 1"
    proof -
      have "1 < ?b" using False assms by (cases "?b = 1") auto
      then have "?a div ?b \<le> ?a div 2" by (intro div_le_mono2) auto
      then have "unat (a div b) < 4294967295" using u32_unat_bound [of a] by (simp add: unat_div)
      then show ?thesis using unat_Suc_u32 [of "a div b"] by simp
    qed
    ultimately show ?thesis using False by (simp add: div_ceil_u32_def unat_div unat_mod word_unat_eq_iff)
  qed
qed

text \<open>The increment of congestion avoidance does not wrap around.\<close>

lemma incr_exact:
  assumes ms: "unat ms = m" "0 < m" "m \<le> 65511" and i0: "unat (i0 :: u32) = max i m" "i \<le> 65535 * 65511"
  shows "unat (i0 + (ms * ms div i0 + ms div 16)) = max i m + (m * m div max i m + m div 16)"
proof -
  have mm: "m * m \<le> 65511 * 65511" using ms by (intro mult_le_mono)
  have sq: "unat (ms * ms) = m * m" using mm unat_mult_u32 [of ms ms] by (simp add: ms)
  have q: "m * m div max i m \<le> m" using ms(2) by (metis div_le_mono2 div_mult_self_is_m max.cobounded2)
  have d: "unat (ms * ms div i0 + ms div 16) = m * m div max i m + m div 16"
    using q ms by (subst unat_add_u32) (simp_all add: unat_div sq i0)
  have "max i m + (m * m div max i m + m div 16) < 4294967296"
    using i0(2) q ms by linarith
  then show ?thesis by (subst unat_add_u32) (simp_all add: d i0)
qed

lemma update_cwnd_exact:
  assumes inv: "cwnd_inv e" and mtu: "mtu_ok e" "unat (c_mtu (e_config e)) \<le> 65535"
    and rmt: "unat (w_rmt (e_wnd e)) \<le> 65535"
    and grow: "seq_after (e_snd_una e) prev_una" "w_cwnd (e_wnd e) < w_rmt (e_wnd e)"
  shows "(unat (w_cwnd (e_wnd (update_cwnd prev_una e))), unat (w_incr (e_wnd (update_cwnd prev_una e)))) =
    cwnd_ref (unat (mss e)) (unat (w_rmt (e_wnd e))) (unat (w_ssthresh (e_wnd e)))
      (unat (w_cwnd (e_wnd e)), unat (w_incr (e_wnd e)))"
proof -
  define m c i where mci: "m = unat (mss e)" "c = unat (w_cwnd (e_wnd e))" "i = unat (w_incr (e_wnd e))"
  define i0 where "i0 = max (w_incr (e_wnd e)) (mss e)"
  have m: "0 < m" "m \<le> 65511" using mss_pos [OF mtu(1)] unat_mss [OF mtu(1)] mtu(2) by (simp_all add: mci)
  have c: "c + 1 \<le> 65535" using grow(2) rmt by (simp add: mci word_less_nat_alt)
  have cm: "(c + 1) * m \<le> 65535 * 65511" using c m by (intro mult_le_mono)
  have i: "i \<le> (c + 1) * m" using inv by (simp add: mci cwnd_inv_def)
  have i0: "unat i0 = max i m" by (simp add: i0_def mci max_def word_le_nat_alt)
  have i1: "unat (i0 + (mss e * mss e div i0 + mss e div 16)) = max i m + (m * m div max i m + m div 16)"
    using incr_exact [OF mci(1) [symmetric] m i0] i cm by simp
  have c1: "unat (w_cwnd (e_wnd e) + 1) = c + 1"
    using c unat_Suc_u32 [of "w_cwnd (e_wnd e)"] by (simp add: mci)
  have cmu: "unat ((w_cwnd (e_wnd e) + 1) * mss e) = (c + 1) * m"
    using cm unat_mult_u32 [of "w_cwnd (e_wnd e) + 1" "mss e"] by (simp add: c1 mci)
  have im: "unat (w_incr (e_wnd e) + mss e) = i + m"
    using i cm m by (subst unat_add_u32) (simp_all add: mci)
  have rm: "unat (w_rmt (e_wnd e) * mss e) = unat (w_rmt (e_wnd e)) * m"
  proof -
    have "unat (w_rmt (e_wnd e)) * m \<le> 65535 * 65511" using rmt m by (intro mult_le_mono)
    then show ?thesis using unat_mult_u32 [of "w_rmt (e_wnd e)" "mss e"] by (simp add: mci)
  qed
  have mpos: "0 < mss e" using m by (simp add: mci word_less_nat_alt)
  have ceil: "unat (div_ceil_u32 (i0 + (mss e * mss e div i0 + mss e div 16)) (mss e)) =
    (max i m + (m * m div max i m + m div 16) + m - 1) div m"
    using m by (subst unat_div_ceil) (simp_all add: i1 mci [symmetric])
  define I where "I = i0 + (mss e * mss e div i0 + mss e div 16)"
  define W where "W = e_wnd e"
  have cap: "(w_rmt W < x) = (unat (w_rmt W) < unat x)" for x by (simp add: word_less_nat_alt)
  show ?thesis
  proof (cases "c < unat (w_ssthresh W)")
    case True
    have "update_cwnd prev_una e = e\<lparr>e_wnd := W\<lparr>w_cwnd := w_cwnd W + 1, w_incr := w_incr W + mss e\<rparr>\<rparr>"
      using grow True c1 cap [of "w_cwnd W + 1"]
      by (simp add: update_cwnd_def grow_cwnd_def cap_cwnd_def W_def mci word_less_nat_alt)
    then show ?thesis
      using True grow(2) c1 im by (simp add: W_def mci word_less_nat_alt cwnd_ref.simps)
  next
    case False
    define C where "C = (if (w_cwnd W + 1) * mss e \<le> I then div_ceil_u32 I (mss e) else w_cwnd W)"
    have up: "update_cwnd prev_una e =
      (if w_rmt W < C then e\<lparr>e_wnd := W\<lparr>w_cwnd := w_rmt W, w_incr := w_rmt W * mss e\<rparr>\<rparr>
       else e\<lparr>e_wnd := W\<lparr>w_cwnd := C, w_incr := I\<rparr>\<rparr>)"
      using grow False mpos
      by (auto simp: update_cwnd_def grow_cwnd_def cap_cwnd_def W_def mci word_less_nat_alt [of "w_cwnd (e_wnd e)" "w_ssthresh (e_wnd e)"]
          Let_def C_def I_def i0_def max_def)
    have cW: "unat (w_cwnd W) = c" "unat (w_incr W) = i" by (simp_all add: W_def mci)
    have uI: "max i m + (m * m div max i m + m div 16) = unat I" using i1 by (simp add: I_def)
    have uC: "unat C = (if (c + 1) * m \<le> unat I then (unat I + m - 1) div m else c)"
      using cmu ceil uI by (simp add: C_def I_def [symmetric] W_def word_le_nat_alt mci(2))
    have ref: "cwnd_ref m (unat (w_rmt W)) (unat (w_ssthresh W)) (c, i) =
      (if unat (w_rmt W) < unat C then (unat (w_rmt W), unat (w_rmt W) * m) else (unat C, unat I))"
      unfolding cwnd_ref.simps Let_def uI using False
      by (cases "(c + 1) * m \<le> unat I") (simp_all add: uC)
    show ?thesis
      using rm unfolding up W_def [symmetric] mci(1) [symmetric] cW ref cap by simp
  qed
qed

lemma ceil_mult: "0 < (m :: nat) \<Longrightarrow> i \<le> (i + m - 1) div m * m"
  using div_mult_mod_eq [of "i + m - 1" m] mod_less_divisor [of m "i + m - 1"] by linarith

lemma cwnd_ref_bounds:
  assumes "c < rmt" "0 < m" "i \<le> (c + 1) * m" "cwnd_ref m rmt thresh (c, i) = (c', i')"
  shows "c \<le> c' \<and> c' \<le> rmt \<and> i' \<le> (c' + 1) * m"
proof (cases "c < thresh")
  case True
  then show ?thesis using assms by (auto simp: cwnd_ref.simps split: if_splits)
next
  case False
  define I where "I = max i m + (m * m div max i m + m div 16)"
  have r: "(c', i') = (let c1 = (if (c + 1) * m \<le> I then (I + m - 1) div m else c)
                      in if rmt < c1 then (rmt, rmt * m) else (c1, I))"
    using False assms(4) by (cases "(c + 1) * m \<le> I") (auto simp: cwnd_ref.simps I_def Let_def split: if_splits)
  show ?thesis
  proof (cases "(c + 1) * m \<le> I")
    case True
    have "c + 1 \<le> (I + m - 1) div m"
      using div_le_mono [of "(c + 1) * m" "I + m - 1" m] True assms(2) by simp
    moreover have "I \<le> ((I + m - 1) div m + 1) * m" using ceil_mult [OF assms(2), of I] by simp
    ultimately show ?thesis using r True assms(1) by (auto simp: Let_def split: if_splits)
  next
    case False
    then show ?thesis using r assms(1) by (auto simp: Let_def split: if_splits)
  qed
qed

lemma grow_cap_fields [simp]:
  "w_snd (grow_cwnd m w) = w_snd w" "w_rcv (grow_cwnd m w) = w_rcv w" "w_rmt (grow_cwnd m w) = w_rmt w"
  "w_ssthresh (grow_cwnd m w) = w_ssthresh w" "w_snd (cap_cwnd m w) = w_snd w" "w_rcv (cap_cwnd m w) = w_rcv w"
  "w_rmt (cap_cwnd m w) = w_rmt w" "w_ssthresh (cap_cwnd m w) = w_ssthresh w"
  by (simp_all add: grow_cwnd_def cap_cwnd_def Let_def)

lemma update_cwnd_fields [simp]:
  "e_snd_una (update_cwnd p e) = e_snd_una e" "e_snd_nxt (update_cwnd p e) = e_snd_nxt e"
  "e_snd_buf (update_cwnd p e) = e_snd_buf e" "e_snd_queue (update_cwnd p e) = e_snd_queue e"
  "e_rcv_nxt (update_cwnd p e) = e_rcv_nxt e" "e_rcv_buf (update_cwnd p e) = e_rcv_buf e"
  "e_rcv_queue (update_cwnd p e) = e_rcv_queue e" "e_config (update_cwnd p e) = e_config e"
  "e_conv (update_cwnd p e) = e_conv e" "e_rtt (update_cwnd p e) = e_rtt e"
  "e_dead_link (update_cwnd p e) = e_dead_link e" "e_out_buf (update_cwnd p e) = e_out_buf e"
  "e_output_queue (update_cwnd p e) = e_output_queue e" "e_ack_list (update_cwnd p e) = e_ack_list e"
  "e_probe (update_cwnd p e) = e_probe e" "e_stats (update_cwnd p e) = e_stats e"
  "e_last_update (update_cwnd p e) = e_last_update e" "e_last_activity (update_cwnd p e) = e_last_activity e"
  "w_snd (e_wnd (update_cwnd p e)) = w_snd (e_wnd e)" "w_rcv (e_wnd (update_cwnd p e)) = w_rcv (e_wnd e)"
  "w_rmt (e_wnd (update_cwnd p e)) = w_rmt (e_wnd e)" "w_ssthresh (e_wnd (update_cwnd p e)) = w_ssthresh (e_wnd e)"
  by (simp_all add: update_cwnd_def)

lemma mss_cong: "e_config e' = e_config e \<Longrightarrow> mss e' = mss e"
  by (simp add: mss_def)

lemma update_cwnd_inv:
  assumes "cwnd_inv e" "mtu_ok e" "unat (c_mtu (e_config e)) \<le> 65535" "unat (w_rmt (e_wnd e)) \<le> 65535"
  shows "cwnd_inv (update_cwnd prev_una e)"
proof (cases "seq_after (e_snd_una e) prev_una \<and> w_cwnd (e_wnd e) < w_rmt (e_wnd e)")
  case True
  then have lt: "unat (w_cwnd (e_wnd e)) < unat (w_rmt (e_wnd e))" by (simp add: word_less_nat_alt)
  have m: "mss (update_cwnd prev_una e) = mss e" by (rule mss_cong) simp
  note exact = update_cwnd_exact [OF assms conjunct1 [OF True] conjunct2 [OF True], symmetric]
  note incr = assms(1) [unfolded cwnd_inv_def]
  show ?thesis
    unfolding cwnd_inv_def m using cwnd_ref_bounds [OF lt mss_pos [OF assms(2)] incr exact] by blast
next
  case False
  then have "update_cwnd prev_una e = e" unfolding update_cwnd_def by (rule if_not_P)
  then show ?thesis using assms(1) by simp
qed

section \<open>Properties\<close>

text \<open>An engine with segments 4, 5 and 7 in flight, the numbers wrapping at the first.\<close>

definition ack_seg :: "u32 \<Rightarrow> KcpSegment" where
  "ack_seg sn = KcpSegment_push 0 7 sn [1, 2, 3]"

definition ack_engine :: KcpEngine where
  "ack_engine = (KcpEngine_new (\<lambda>_. 0) 7 KcpCoreConfig_default)
     \<lparr>e_snd_una := -1, e_snd_nxt := 4, e_snd_buf := [ack_seg (-1), ack_seg 1, ack_seg 3]\<rparr>"

lemma ack_engine_ok: "send_inv ack_engine" "in_flight ack_engine = 5"
  by (simp_all add: ack_engine_def ack_seg_def send_inv_def in_flight_def KcpEngine_new_def
      KcpCoreConfig_default_def KcpSegment_push_def KcpSegment_new_def KcpHeader_new_def)

text \<open>
  C29. \<open>parse_ack\<close> removes exactly the acknowledged segment: on an ordered send buffer the binary
  search, wherever the ring buffer wraps in memory, gives the same engine as a linear scan that
  deletes the segments with that number; acknowledgements outside the window change nothing.
\<close>

theorem parse_ack_is_linear_removal:
  assumes "send_inv e"
  shows "parse_ack k sn e = e\<lparr>e_snd_buf := filter (\<lambda>s. s_sn s \<noteq> sn) (e_snd_buf e)\<rparr>
    \<and> (in_flight e \<le> unat (sn - e_snd_una e) \<longrightarrow> parse_ack k sn e = e)"
proof
  show "parse_ack k sn e = e\<lparr>e_snd_buf := filter (\<lambda>s. s_sn s \<noteq> sn) (e_snd_buf e)\<rparr>"
    by (rule parse_ack_filter [OF assms])
  show "in_flight e \<le> unat (sn - e_snd_una e) \<longrightarrow> parse_ack k sn e = e"
    using ack_guard_iff [OF send_inv_flight [OF assms], of sn] by (auto simp: parse_ack_def)
qed

theorem parse_ack_is_linear_removal_witness:
  "e_snd_buf (parse_ack 1 1 ack_engine) = [ack_seg (-1), ack_seg 3]"
proof -
  have "e_snd_buf (parse_ack 1 1 ack_engine) = filter (\<lambda>s. s_sn s \<noteq> 1) (e_snd_buf ack_engine)"
    using parse_ack_is_linear_removal [OF ack_engine_ok(1), of 1 1] by simp
  then show ?thesis
    by (simp add: ack_engine_def ack_seg_def KcpSegment_push_def KcpSegment_new_def KcpHeader_new_def)
qed

text \<open>
  \<open>parse_una\<close> with a number between \<open>snd_una\<close> and \<open>snd_nxt\<close> removes exactly the segments numbered
  below it, and \<open>shrink_buf\<close> then makes \<open>snd_una\<close> the number of the first segment left; order
  and window bound of the buffer are kept, across the wrap-around of the numbers.
\<close>

theorem parse_una_acknowledges_prefix:
  assumes "send_inv e" "unat (una - e_snd_una e) \<le> in_flight e"
  shows "e_snd_buf (parse_una una e) =
      filter (\<lambda>s. unat (una - e_snd_una e) \<le> unat (s_sn s - e_snd_una e)) (e_snd_buf e)
    \<and> send_inv (shrink_buf (parse_una una e)) \<and> una_synced (shrink_buf (parse_una una e))"
proof -
  have "e_snd_buf (parse_una una e) =
      filter (\<lambda>s. unat (una - e_snd_una e) \<le> unat (s_sn s - e_snd_una e)) (e_snd_buf e)"
    using arg_cong [OF parse_una_filter [OF assms], of e_snd_buf] by simp
  with shrink_buf_send_inv [OF parse_una_send_inv [OF assms(1)], of una] show ?thesis by blast
qed

theorem parse_una_acknowledges_prefix_witness:
  "e_snd_buf (parse_una 2 ack_engine) = [ack_seg 3] \<and> send_inv (shrink_buf (parse_una 2 ack_engine))"
proof -
  have una: "unat (2 - e_snd_una ack_engine) \<le> in_flight ack_engine"
    by (simp add: ack_engine_ok(2)) (simp add: ack_engine_def)
  have "filter (\<lambda>s. unat (2 - e_snd_una ack_engine) \<le> unat (s_sn s - e_snd_una ack_engine))
      (e_snd_buf ack_engine) = [ack_seg 3]"
    by (simp add: ack_engine_def ack_seg_def KcpSegment_push_def KcpSegment_new_def KcpHeader_new_def)
  with parse_una_acknowledges_prefix [OF ack_engine_ok(1) una] show ?thesis by simp
qed

text \<open>
  \<open>parse_fastack\<close> stops at the first segment that is not before the acknowledged one; on an
  ordered buffer that counts exactly the segments numbered below it whose time stamp is not newer.
\<close>

theorem parse_fastack_counts_older:
  assumes "send_inv e" "unat (sn - e_snd_una e) < in_flight e"
  shows "e_snd_buf (parse_fastack sn ts e) =
    map (\<lambda>s. if unat (s_sn s - e_snd_una e) < unat (sn - e_snd_una e)
                \<and> time_diff ts (h_ts (s_header s)) \<ge> 0
             then s\<lparr>s_fastack := s_fastack s + 1\<rparr> else s) (e_snd_buf e)"
  using parse_fastack_map [OF assms] seq_before_in_window [OF assms(1), of _ sn] assms(2)
  by (simp add: fastack_bump_def)

theorem parse_fastack_counts_older_witness:
  "map s_fastack (e_snd_buf (parse_fastack 3 0 ack_engine)) = [1, 1, 0]"
proof -
  have sn: "unat (3 - e_snd_una ack_engine) < in_flight ack_engine"
    by (simp add: ack_engine_ok(2)) (simp add: ack_engine_def)
  show ?thesis
    unfolding parse_fastack_counts_older [OF ack_engine_ok(1) sn]
    by (simp add: ack_engine_def ack_seg_def KcpSegment_push_def KcpSegment_new_def KcpHeader_new_def
        time_diff_unat)
qed

text \<open>
  C33. The round-trip estimator stays in range whatever sample a peer provokes, and none of its
  32-bit operations wraps around: average and variance are those of the same formulas in unbounded
  arithmetic on the sample clamped to \<open>[0, 60000]\<close>, the new average lies between the old
  average and the sample (or is 1), and the retransmission timeout is between \<open>min_rto\<close> and 60000.
\<close>

theorem rtt_estimator_exact_and_bounded:
  assumes "rtt_ok (e_rtt e)"
  shows "let r = e_rtt e; r' = e_rtt (update_ack i e); sample = nat (clamp i 0 60000) in
    (unat (r_avg r'), unat (r_var r')) = smooth_ref sample (unat (r_avg r), unat (r_var r))
    \<and> min (unat (r_avg r)) sample \<le> unat (r_avg r')
    \<and> unat (r_avg r') \<le> max 1 (max (unat (r_avg r)) sample)
    \<and> unat (r_min_rto r) \<le> unat (r_rto r') \<and> unat (r_rto r') \<le> 60000 \<and> rtt_ok r'"
proof -
  have "nat (clamp i 0 60000) \<le> 60000" by (auto simp: clamp_def)
  then show ?thesis
    using update_ack_rtt [OF assms, of i] assms
      smooth_ref_bounds [OF _ _ _ update_ack_rtt(2) [OF assms, of i, symmetric]]
    unfolding Let_def by (metis rtt_ok_def)
qed

theorem rtt_estimator_exact_and_bounded_witness:
  "unat (r_avg (e_rtt (update_ack 100 (KcpEngine_new (\<lambda>_. 0) 7 KcpCoreConfig_default)))) = 100"
proof -
  have "rtt_ok (e_rtt (KcpEngine_new (\<lambda>_. 0) 7 KcpCoreConfig_default))"
    "unat (r_avg (e_rtt (KcpEngine_new (\<lambda>_. 0) 7 KcpCoreConfig_default))) = 0"
    by (simp_all add: rtt_ok_def KcpEngine_new_def)
  with rtt_estimator_exact_and_bounded [of "KcpEngine_new (\<lambda>_. 0) 7 KcpCoreConfig_default" 100]
  show ?thesis by (simp add: Let_def clamp_def)
qed

text \<open>
  C34. The congestion window grows only when an acknowledgement advanced \<open>snd_una\<close>, never beyond the
  remote window and never shrinks here; with MTU and remote window in 16 bits, as validation and the
  wire format give, all of the 32-bit arithmetic is exact.
\<close>

theorem congestion_window_growth:
  assumes "cwnd_inv e" "mtu_ok e" "unat (c_mtu (e_config e)) \<le> 65535" "unat (w_rmt (e_wnd e)) \<le> 65535"
  shows "let w = e_wnd e; w' = e_wnd (update_cwnd prev_una e) in
    (\<not> seq_after (e_snd_una e) prev_una \<longrightarrow> update_cwnd prev_una e = e)
    \<and> (seq_after (e_snd_una e) prev_una \<and> w_cwnd w < w_rmt w \<longrightarrow>
        (unat (w_cwnd w'), unat (w_incr w')) =
          cwnd_ref (unat (mss e)) (unat (w_rmt w)) (unat (w_ssthresh w)) (unat (w_cwnd w), unat (w_incr w))
        \<and> w_cwnd w \<le> w_cwnd w' \<and> w_cwnd w' \<le> w_rmt w)
    \<and> cwnd_inv (update_cwnd prev_una e)"
proof -
  have "w_cwnd (e_wnd e) \<le> w_cwnd (e_wnd (update_cwnd prev_una e))
      \<and> w_cwnd (e_wnd (update_cwnd prev_una e)) \<le> w_rmt (e_wnd e)"
    if g: "seq_after (e_snd_una e) prev_una" "w_cwnd (e_wnd e) < w_rmt (e_wnd e)"
    using cwnd_ref_bounds [OF _ mss_pos [OF assms(2)] assms(1) [unfolded cwnd_inv_def]
        update_cwnd_exact [OF assms g, symmetric]] g(2)
    unfolding word_less_nat_alt word_le_nat_alt by blast
  moreover have "update_cwnd prev_una e = e" if "\<not> seq_after (e_snd_una e) prev_una"
    using that by (simp add: update_cwnd_def)
  ultimately show ?thesis
    using update_cwnd_exact [OF assms] update_cwnd_inv [OF assms, of prev_una] unfolding Let_def by blast
qed

definition cwnd_engine :: KcpEngine where
  "cwnd_engine = (KcpEngine_new (\<lambda>_. 0) 7 KcpCoreConfig_default)
     \<lparr>e_snd_una := 1, e_wnd := \<lparr>w_snd = 32, w_rcv = 128, w_rmt = 128, w_cwnd = 1, w_ssthresh = 2, w_incr = 1376\<rparr>\<rparr>"

theorem congestion_window_growth_witness:
  "unat (w_cwnd (e_wnd (update_cwnd 0 cwnd_engine))) = 2"
proof -
  have m: "mss cwnd_engine = 1376"
    by (simp add: cwnd_engine_def KcpEngine_new_def KcpCoreConfig_default_def mss_def)
  have hyps: "cwnd_inv cwnd_engine" "mtu_ok cwnd_engine" "unat (c_mtu (e_config cwnd_engine)) \<le> 65535"
    "unat (w_rmt (e_wnd cwnd_engine)) \<le> 65535"
    by (simp_all add: cwnd_inv_def m mtu_ok_def)
      (simp_all add: cwnd_engine_def KcpEngine_new_def KcpCoreConfig_default_def)
  have grow: "seq_after (e_snd_una cwnd_engine) 0" "w_cwnd (e_wnd cwnd_engine) < w_rmt (e_wnd cwnd_engine)"
    by (simp_all add: cwnd_engine_def seq_after_def u32_as_i32_def sint_u32_unat)
  have "(unat (w_cwnd (e_wnd (update_cwnd 0 cwnd_engine))), unat (w_incr (e_wnd (update_cwnd 0 cwnd_engine)))) =
    cwnd_ref 1376 128 2 (1, 1376)"
    using congestion_window_growth [OF hyps, of 0] grow by (simp add: Let_def m) (simp add: cwnd_engine_def)
  then show ?thesis by (simp add: cwnd_ref.simps)
qed

end
