(* ===== verification/Kcp_Engine_Flush.thy ===== *)
theory Kcp_Engine_Flush
  imports Kcp_Engine_Output Kcp_Engine_Send Kcp_Engine_Ack
begin

text \<open>
  The flush pass of the engine (\<open>flush\<close> and everything it calls) and the timers around it
  (\<open>check\<close>, \<open>update\<close>, \<open>keep_alive_probe\<close>). A pass emits the pending acknowledgements, the window
  probes, and the segments of the send buffer that are new, timed out or fast-retransmitted, after
  moving segments from the send queue into the window. The lemmas say exactly what a pass emits and
  when, that it keeps the invariants of the send buffer and the windows, and how it fails.

  Clock reads of a pass: \<open>clk 0\<close> is \<open>current\<close>, \<open>clk 1\<close> and \<open>clk 2\<close> are the reads of the two window
  probe segments, \<open>clk (3 + i)\<close> the read of the \<open>i\<close>-th acknowledgement segment.
\<close>

unbundle bit_operations_syntax

section \<open>Acknowledgements and window probes\<close>

definition make_ack :: "clock \<Rightarrow> nat \<Rightarrow> ConvId \<Rightarrow> u16 \<Rightarrow> SeqNum \<Rightarrow> SeqNum \<times> Timestamp \<Rightarrow> KcpSegment" where
  "make_ack clk i conv wnd una entry =
     (let seg = KcpSegment_ack (clk (3 + i)) conv (fst entry) (snd entry)
      in seg\<lparr>s_header := (s_header seg)\<lparr>h_wnd := wnd, h_una := una\<rparr>\<rparr>)"

fun ack_loop :: "buf_api \<Rightarrow> clock \<Rightarrow> nat \<Rightarrow> u16 \<Rightarrow> SeqNum \<Rightarrow> (SeqNum \<times> Timestamp) list \<Rightarrow> KcpEngine \<Rightarrow>
    unit engine_result" where
  "ack_loop B clk i wnd una [] e = (e, Ok ())"
| "ack_loop B clk i wnd una (entry # acks) e =
     and_then (output_segment B (make_ack clk i (e_conv e) wnd una entry) e)
       (ack_loop B clk (Suc i) wnd una acks)"

definition flush_acks :: "buf_api \<Rightarrow> clock \<Rightarrow> KcpEngine \<Rightarrow> unit engine_result" where
  "flush_acks B clk e =
     (if e_ack_list e = [] then (e, Ok ())
      else ack_loop B clk 0 (ucast (wnd_unused e)) (e_rcv_nxt e) (e_ack_list e) (e\<lparr>e_ack_list := []\<rparr>))"

text \<open>The timer half of \<open>handle_window_probe\<close>: when the remote window is closed, arm and back off.\<close>

definition probe_timer :: "Timestamp \<Rightarrow> u32 \<Rightarrow> ProbeState \<Rightarrow> ProbeState" where
  "probe_timer current rmt p =
     (if rmt = 0 then
        (if p_wait p = 0 then p\<lparr>p_wait := IKCP_PROBE_INIT, p_ts := current + IKCP_PROBE_INIT\<rparr>
         else if time_diff current (p_ts p) \<ge> 0 then
           (let w0 = (if p_wait p < IKCP_PROBE_INIT then IKCP_PROBE_INIT else p_wait p);
                w1 = w0 + w0 div 2;
                w2 = (if w1 > IKCP_PROBE_LIMIT then IKCP_PROBE_LIMIT else w1)
            in p\<lparr>p_wait := w2, p_ts := current + w2, p_flags := p_flags p OR IKCP_ASK_SEND\<rparr>)
         else p)
      else p\<lparr>p_ts := 0, p_wait := 0\<rparr>)"

definition send_probe :: "buf_api \<Rightarrow> Timestamp \<Rightarrow> u32 \<Rightarrow> u8 \<Rightarrow> KcpEngine \<Rightarrow> unit engine_result" where
  "send_probe B now ask cmd e =
     (if p_flags (e_probe e) AND ask \<noteq> 0 then output_segment B (create_probe_segment now cmd e) e
      else (e, Ok ()))"

definition handle_window_probe :: "buf_api \<Rightarrow> clock \<Rightarrow> Timestamp \<Rightarrow> KcpEngine \<Rightarrow> unit engine_result" where
  "handle_window_probe B clk current e =
     and_then
       (and_then (send_probe B (clk 1) IKCP_ASK_SEND IKCP_CMD_WASK
                    (e\<lparr>e_probe := probe_timer current (w_rmt (e_wnd e)) (e_probe e)\<rparr>))
          (send_probe B (clk 2) IKCP_ASK_TELL IKCP_CMD_WINS))
       (\<lambda>e. (e\<lparr>e_probe := (e_probe e)\<lparr>p_flags := 0\<rparr>\<rparr>, Ok ()))"

section \<open>From the send queue to the send buffer\<close>

definition effective_cwnd :: "KcpEngine \<Rightarrow> u32" where
  "effective_cwnd e =
     (let cwnd = min (w_snd (e_wnd e)) (w_rmt (e_wnd e))
      in if n_no_congestion_control (c_nodelay (e_config e)) then cwnd else min (w_cwnd (e_wnd e)) cwnd)"

definition number_segment :: "Timestamp \<Rightarrow> KcpEngine \<Rightarrow> KcpSegment \<Rightarrow> KcpSegment" where
  "number_segment current e segment =
     segment\<lparr>s_header := (s_header segment)\<lparr>h_conv := e_conv e, h_cmd := IKCP_CMD_PUSH,
               h_wnd := ucast (wnd_unused e), h_ts := current, h_sn := e_snd_nxt e, h_una := e_rcv_nxt e\<rparr>,
             s_resendts := current, s_rto := r_rto (e_rtt e), s_fastack := 0, s_xmit := 0\<rparr>"

function move_loop :: "Timestamp \<Rightarrow> u32 \<Rightarrow> KcpEngine \<Rightarrow> KcpEngine" where
  "move_loop current cwnd e =
     (if time_diff (e_snd_nxt e) (e_snd_una e + cwnd) < 0 then
        (case e_snd_queue e of
           segment # queue \<Rightarrow>
             move_loop current cwnd
               (e\<lparr>e_snd_queue := queue, e_snd_buf := e_snd_buf e @ [number_segment current e segment],
                  e_snd_nxt := e_snd_nxt e + 1\<rparr>)
         | [] \<Rightarrow> e)
      else e)"
  by pat_completeness auto
termination by (relation "measure (\<lambda>(current, cwnd, e). length (e_snd_queue e))") auto

declare move_loop.simps [simp del]

definition move_to_send_buf :: "Timestamp \<Rightarrow> KcpEngine \<Rightarrow> KcpEngine" where
  "move_to_send_buf current e = move_loop current (effective_cwnd e) e"

section \<open>Marking and emitting data segments\<close>

text \<open>Which branch of the scan a segment takes.\<close>

datatype mark = Keep | First | Timed_out | Fast

definition stamp :: "Timestamp \<Rightarrow> u16 \<Rightarrow> SeqNum \<Rightarrow> KcpSegment \<Rightarrow> KcpSegment" where
  "stamp current wnd una segment =
     segment\<lparr>s_header := (s_header segment)\<lparr>h_ts := current, h_wnd := wnd, h_una := una\<rparr>\<rparr>"

definition mark_segment :: "KcpEngine \<Rightarrow> Timestamp \<Rightarrow> u32 \<Rightarrow> u32 \<Rightarrow> KcpSegment \<Rightarrow> KcpSegment \<times> mark" where
  "mark_segment e current resend rtomin segment =
     (let nd = c_nodelay (e_config e);
          out = stamp current (ucast (wnd_unused e)) (e_rcv_nxt e)
      in if s_xmit segment = 0 then
           (let s1 = segment\<lparr>s_xmit := 1, s_rto := r_rto (e_rtt e)\<rparr>
            in (out (s1\<lparr>s_resendts := current + s_rto s1 + rtomin\<rparr>), First))
         else if time_diff current (s_resendts segment) \<ge> 0 then
           (let s1 = segment\<lparr>s_xmit := s_xmit segment + 1\<rparr>;
                s2 = (if n_nodelay nd then
                        (let step = (if n_no_congestion_control nd then r_rto (e_rtt e) else s_rto s1)
                         in s1\<lparr>s_rto := s_rto s1 + step div 2\<rparr>)
                      else s1\<lparr>s_rto := s_rto s1 + max (s_rto s1) (n_interval nd)\<rparr>)
            in (out (s2\<lparr>s_resendts := current + s_rto s2\<rparr>), Timed_out))
         else if s_fastack segment \<ge> resend
                 \<and> (s_xmit segment \<le> IKCP_FASTACK_LIMIT \<or> IKCP_FASTACK_LIMIT = 0) then
           (out (segment\<lparr>s_xmit := s_xmit segment + 1, s_fastack := 0, s_resendts := current + s_rto segment\<rparr>),
            Fast)
         else (segment, Keep))"

definition count_mark :: "mark \<Rightarrow> KcpStats \<Rightarrow> KcpStats" where
  "count_mark m st =
     (case m of
        Timed_out \<Rightarrow> st\<lparr>st_retransmissions := st_retransmissions st + 1\<rparr>
      | Fast \<Rightarrow> st\<lparr>st_fast_retransmissions := st_fast_retransmissions st + 1\<rparr>
      | _ \<Rightarrow> st)"

text \<open>The scan: the rewritten buffer, the indices to send, the flags \<open>lost\<close> and \<open>change\<close>, the statistics.\<close>

fun mark_loop :: "KcpEngine \<Rightarrow> Timestamp \<Rightarrow> u32 \<Rightarrow> u32 \<Rightarrow> usize \<Rightarrow> KcpSegment list \<Rightarrow>
    usize list \<times> bool \<times> bool \<times> KcpStats \<Rightarrow> KcpSegment list \<times> usize list \<times> bool \<times> bool \<times> KcpStats" where
  "mark_loop e current resend rtomin i [] acc = ([], acc)"
| "mark_loop e current resend rtomin i (segment # buf) (indices, lost, change, st) =
     (let (segment', m) = mark_segment e current resend rtomin segment;
          (buf', acc) = mark_loop e current resend rtomin (Suc i) buf
             (if m = Keep then indices else indices @ [i], lost \<or> m = Timed_out, change \<or> m = Fast, count_mark m st)
      in (segment' # buf', acc))"

definition mark_segments_for_send :: "Timestamp \<Rightarrow> u32 \<Rightarrow> u32 \<Rightarrow> KcpEngine \<Rightarrow>
    KcpEngine \<times> usize list \<times> bool \<times> bool" where
  "mark_segments_for_send current resend rtomin e =
     (let (buf, indices, lost, change, st) =
            mark_loop e current resend rtomin 0 (e_snd_buf e) ([], False, False, e_stats e)
      in (e\<lparr>e_snd_buf := buf, e_stats := st\<rparr>, indices, lost, change))"

text \<open>The sending loop of \<open>flush_data_segments\<close>.\<close>

fun send_loop :: "buf_api \<Rightarrow> usize list \<Rightarrow> KcpEngine \<Rightarrow> unit engine_result" where
  "send_loop B [] e = (e, Ok ())"
| "send_loop B (i # indices) e =
     (let is_dead = s_xmit (e_snd_buf e ! i) \<ge> e_dead_link e
      in and_then (output_segment B (e_snd_buf e ! i) e)
           (\<lambda>e. if is_dead then (e, Err core_connection_lost) else send_loop B indices e))"

definition update_congestion_on_loss :: "bool \<Rightarrow> bool \<Rightarrow> u32 \<Rightarrow> KcpEngine \<Rightarrow> KcpEngine" where
  "update_congestion_on_loss lost change resend e =
     (let e1 = (if change then
                  (let inflight = e_snd_nxt e - e_snd_una e;
                       th0 = inflight div 2;
                       th = (if th0 < IKCP_THRESH_MIN then IKCP_THRESH_MIN else th0)
                   in e\<lparr>e_wnd := (e_wnd e)\<lparr>w_ssthresh := th, w_cwnd := th + resend,
                                            w_incr := (th + resend) * mss e\<rparr>\<rparr>)
                else e);
          e2 = (if lost then
                  reset_cwnd (e1\<lparr>e_wnd := (e_wnd e1)\<lparr>w_ssthresh :=
                                   max (w_cwnd (e_wnd e1) div 2) IKCP_THRESH_MIN\<rparr>\<rparr>)
                else e1)
      in if w_cwnd (e_wnd e2) < 1 then reset_cwnd e2 else e2)"

definition flush_data_segments :: "buf_api \<Rightarrow> Timestamp \<Rightarrow> KcpEngine \<Rightarrow> unit engine_result" where
  "flush_data_segments B current e =
     (let nd = c_nodelay (e_config e);
          resend = (if n_resend nd > 0 then n_resend nd else -1);
          rtomin = (if n_nodelay nd then 0 else r_rto (e_rtt e) div 8);
          (e1, send_indices, lost, change) = mark_segments_for_send current resend rtomin e
      in and_then (send_loop B send_indices e1)
           (\<lambda>e2. (update_congestion_on_loss lost change resend e2, Ok ())))"

definition update_congestion_control :: "KcpEngine \<Rightarrow> KcpEngine" where
  "update_congestion_control e =
     e\<lparr>e_stats := (e_stats e)\<lparr>st_snd_wnd := w_snd (e_wnd e), st_rcv_wnd := w_rcv (e_wnd e),
        st_cwnd := w_cwnd (e_wnd e), st_snd_buf_size := word_of_nat (length (e_snd_buf e)),
        st_rcv_buf_size := word_of_nat (bt_len (e_rcv_buf e))\<rparr>\<rparr>"

section \<open>The flush pass and the timers\<close>

definition flush :: "buf_api \<Rightarrow> clock \<Rightarrow> KcpEngine \<Rightarrow> unit engine_result" where
  "flush B clk e =
     (let current = clk 0 in
      and_then (flush_acks B clk e) (\<lambda>e.
      and_then (handle_window_probe B clk current e) (\<lambda>e.
      and_then (flush_data_segments B current (move_to_send_buf current e)) (\<lambda>e.
      (update_congestion_control (flush_out_buf e), Ok ())))))"

definition deadline :: "Timestamp \<Rightarrow> Timestamp \<Rightarrow> u32" where
  "deadline ts current = i32_as_u32 (max (time_diff ts current) 0)"

definition check :: "Timestamp \<Rightarrow> KcpEngine \<Rightarrow> u32" where
  "check current e =
     (if e_ack_list e \<noteq> [] \<or> p_flags (e_probe e) \<noteq> 0 then 0
      else
        (let next0 = fold (\<lambda>seg nxt. min nxt (deadline (s_resendts seg) current)) (e_snd_buf e) (-1);
             next1 = (if w_rmt (e_wnd e) = 0 \<and> p_ts (e_probe e) \<noteq> 0
                      then min next0 (deadline (p_ts (e_probe e)) current) else next0)
         in if next1 = -1 then 30000 else next1))"

text \<open>\<open>update\<close> reads the clock once before the reads of its flush.\<close>

definition update :: "buf_api \<Rightarrow> clock \<Rightarrow> KcpEngine \<Rightarrow> unit engine_result" where
  "update B clk e =
     (let current = clk 0;
          e1 = (if current < e_last_update e then e\<lparr>e_last_update := current\<rparr> else e);
          diff = current - e_last_update e1
      in if diff \<ge> n_interval (c_nodelay (e_config e1))
         then and_then (flush B (\<lambda>k. clk (Suc k)) (e1\<lparr>e_last_update := current\<rparr>)) (\<lambda>e. (e, Ok ()))
         else (e1, Ok ()))"

definition keep_alive_probe :: "buf_api \<Rightarrow> clock \<Rightarrow> KcpEngine \<Rightarrow> unit engine_result" where
  "keep_alive_probe B clk e =
     flush B clk (e\<lparr>e_probe := (e_probe e)\<lparr>p_flags := p_flags (e_probe e) OR IKCP_ASK_SEND\<rparr>\<rparr>)"

section \<open>What the parts of a pass do\<close>

text \<open>The acknowledgement segments of a pass, in order of the pending list.\<close>

fun ack_segs :: "clock \<Rightarrow> nat \<Rightarrow> ConvId \<Rightarrow> u16 \<Rightarrow> SeqNum \<Rightarrow> (SeqNum \<times> Timestamp) list \<Rightarrow> KcpSegment list" where
  "ack_segs clk i conv wnd una [] = []"
| "ack_segs clk i conv wnd una (entry # acks) =
     make_ack clk i conv wnd una entry # ack_segs clk (Suc i) conv wnd una acks"

lemmas output_segments_fields [simp] = same_but_outputD [OF output_segments_same]

lemma output_segment_pair: "output_segment B seg e = (fst (output_segment B seg e), Ok ())"
  by (simp add: prod_eq_iff)

lemma ack_loop_eq:
  "ack_loop B clk i wnd una acks e = (output_segments B (ack_segs clk i (e_conv e) wnd una acks) e, Ok ())"
proof (induction acks arbitrary: i e)
  case (Cons entry acks)
  show ?case
    using Cons [of "Suc i"] by (simp add: and_then_def)
qed simp

definition pass_acks :: "clock \<Rightarrow> KcpEngine \<Rightarrow> KcpSegment list" where
  "pass_acks clk e = ack_segs clk 0 (e_conv e) (ucast (wnd_unused e)) (e_rcv_nxt e) (e_ack_list e)"

lemma flush_acks_eq:
  "flush_acks B clk e = (output_segments B (pass_acks clk e) (e\<lparr>e_ack_list := []\<rparr>), Ok ())"
proof (cases "e_ack_list e = []")
  case True
  then have "e\<lparr>e_ack_list := []\<rparr> = e" by simp
  with True show ?thesis by (simp add: flush_acks_def pass_acks_def)
next
  case False
  then show ?thesis by (simp add: flush_acks_def pass_acks_def ack_loop_eq)
qed

lemma wnd_unused_cong:
  "e_rcv_queue e' = e_rcv_queue e \<Longrightarrow> e_wnd e' = e_wnd e \<Longrightarrow> wnd_unused e' = wnd_unused e"
  by (simp add: wnd_unused_def)

lemma create_probe_segment_cong:
  "e_rcv_queue e' = e_rcv_queue e \<Longrightarrow> e_wnd e' = e_wnd e \<Longrightarrow> e_conv e' = e_conv e \<Longrightarrow>
   e_rcv_nxt e' = e_rcv_nxt e \<Longrightarrow> create_probe_segment now cmd e' = create_probe_segment now cmd e"
  by (simp add: create_probe_segment_def wnd_unused_cong [of e' e])

text \<open>The probe segments of a pass.\<close>

definition pass_probes :: "clock \<Rightarrow> KcpEngine \<Rightarrow> KcpSegment list" where
  "pass_probes clk e =
     (let flags = p_flags (probe_timer (clk 0) (w_rmt (e_wnd e)) (e_probe e))
      in (if flags AND IKCP_ASK_SEND \<noteq> 0 then [create_probe_segment (clk 1) IKCP_CMD_WASK e] else []) @
         (if flags AND IKCP_ASK_TELL \<noteq> 0 then [create_probe_segment (clk 2) IKCP_CMD_WINS e] else []))"

lemma send_probe_eq:
  "send_probe B now ask cmd e =
     (output_segments B (if p_flags (e_probe e) AND ask \<noteq> 0 then [create_probe_segment now cmd e] else []) e, Ok ())"
  by (simp add: send_probe_def prod_eq_iff)

lemma handle_window_probe_eq:
  "handle_window_probe B clk (clk 0) e =
     ((output_segments B (pass_probes clk e)
         (e\<lparr>e_probe := probe_timer (clk 0) (w_rmt (e_wnd e)) (e_probe e)\<rparr>))
       \<lparr>e_probe := (probe_timer (clk 0) (w_rmt (e_wnd e)) (e_probe e))\<lparr>p_flags := 0\<rparr>\<rparr>, Ok ())"
proof -
  define p where "p = probe_timer (clk 0) (w_rmt (e_wnd e)) (e_probe e)"
  define S1 where "S1 = (if p_flags p AND IKCP_ASK_SEND \<noteq> 0 then [create_probe_segment (clk 1) IKCP_CMD_WASK e] else [])"
  define S2 where "S2 = (if p_flags p AND IKCP_ASK_TELL \<noteq> 0 then [create_probe_segment (clk 2) IKCP_CMD_WINS e] else [])"
  define e1 where "e1 = output_segments B S1 (e\<lparr>e_probe := p\<rparr>)"
  have "create_probe_segment (clk 1) IKCP_CMD_WASK (e\<lparr>e_probe := p\<rparr>) = create_probe_segment (clk 1) IKCP_CMD_WASK e"
    by (rule create_probe_segment_cong) simp_all
  then have 1: "send_probe B (clk 1) IKCP_ASK_SEND IKCP_CMD_WASK (e\<lparr>e_probe := p\<rparr>) = (e1, Ok ())"
    unfolding send_probe_eq e1_def S1_def by simp
  have "create_probe_segment (clk 2) IKCP_CMD_WINS e1 = create_probe_segment (clk 2) IKCP_CMD_WINS e"
    "e_probe e1 = p"
    unfolding e1_def by (rule create_probe_segment_cong; simp) simp
  then have 2: "send_probe B (clk 2) IKCP_ASK_TELL IKCP_CMD_WINS e1 =
      (output_segments B (S1 @ S2) (e\<lparr>e_probe := p\<rparr>), Ok ())"
    unfolding send_probe_eq output_segments_append e1_def [symmetric] S2_def by simp
  have S: "pass_probes clk e = S1 @ S2"
    unfolding pass_probes_def Let_def S1_def S2_def p_def by (rule refl)
  show ?thesis
    unfolding handle_window_probe_def p_def [symmetric] 1 and_then_Ok 2 S by simp
qed

text \<open>The segments that move into the window, numbered consecutively.\<close>

fun numbered :: "Timestamp \<Rightarrow> KcpEngine \<Rightarrow> KcpSegment list \<Rightarrow> KcpSegment list" where
  "numbered current e [] = []"
| "numbered current e (seg # segs) =
     number_segment current e seg # numbered current (e\<lparr>e_snd_nxt := e_snd_nxt e + 1\<rparr>) segs"

lemma number_segment_cong:
  "e_conv e' = e_conv e \<Longrightarrow> e_rcv_queue e' = e_rcv_queue e \<Longrightarrow> e_wnd e' = e_wnd e \<Longrightarrow>
   e_snd_nxt e' = e_snd_nxt e \<Longrightarrow> e_rcv_nxt e' = e_rcv_nxt e \<Longrightarrow> e_rtt e' = e_rtt e \<Longrightarrow>
   number_segment current e' seg = number_segment current e seg"
  by (simp add: number_segment_def wnd_unused_cong [of e' e])

lemma numbered_cong:
  "e_conv e' = e_conv e \<Longrightarrow> e_rcv_queue e' = e_rcv_queue e \<Longrightarrow> e_wnd e' = e_wnd e \<Longrightarrow>
   e_snd_nxt e' = e_snd_nxt e \<Longrightarrow> e_rcv_nxt e' = e_rcv_nxt e \<Longrightarrow> e_rtt e' = e_rtt e \<Longrightarrow>
   numbered current e' segs = numbered current e segs"
proof (induction segs arbitrary: e e')
  case (Cons seg segs)
  then have "numbered current (e'\<lparr>e_snd_nxt := e_snd_nxt e + 1\<rparr>) segs =
    numbered current (e\<lparr>e_snd_nxt := e_snd_nxt e + 1\<rparr>) segs"
    by (intro Cons.IH) simp_all
  then show ?case using number_segment_cong [of e' e current seg] Cons.prems by simp
qed simp

definition move_count :: "KcpEngine \<Rightarrow> nat" where
  "move_count e = min (length (e_snd_queue e)) (unat (effective_cwnd e) - in_flight e)"

lemma in_window_test:
  assumes "in_flight e < 2147483648" "unat cwnd < 2147483648"
  shows "time_diff (e_snd_nxt e) (e_snd_una e + cwnd) < 0 \<longleftrightarrow> in_flight e < unat cwnd"
  using assms time_diff_base [of "e_snd_nxt e" "e_snd_una e" "e_snd_una e + cwnd"]
  by (simp add: in_flight_def)

lemma in_flight_step:
  assumes "in_flight e < 2147483648"
  shows "in_flight (e\<lparr>e_snd_queue := q, e_snd_buf := b, e_snd_nxt := e_snd_nxt e + 1\<rparr>) = Suc (in_flight e)"
proof -
  have eq: "e_snd_nxt e + 1 - e_snd_una e = (e_snd_nxt e - e_snd_una e) + 1" by simp
  show ?thesis
    using assms unat_Suc_u32 [of "e_snd_nxt e - e_snd_una e"] by (simp add: in_flight_def eq)
qed

lemma move_loop_eq:
  assumes "in_flight e < 2147483648" "unat cwnd < 2147483648"
    and "k = min (length (e_snd_queue e)) (unat cwnd - in_flight e)"
  shows "move_loop current cwnd e =
    e\<lparr>e_snd_queue := drop k (e_snd_queue e),
      e_snd_buf := e_snd_buf e @ numbered current e (take k (e_snd_queue e)),
      e_snd_nxt := e_snd_nxt e + word_of_nat k\<rparr>"
  using assms
proof (induction "e_snd_queue e" arbitrary: e k)
  case Nil
  then have "e_snd_queue e = []" "k = 0" by simp_all
  then show ?case by (subst move_loop.simps) simp
next
  case (Cons seg q)
  have q: "e_snd_queue e = seg # q" using Cons(2) by simp
  let ?e = "e\<lparr>e_snd_queue := q, e_snd_buf := e_snd_buf e @ [number_segment current e seg],
              e_snd_nxt := e_snd_nxt e + 1\<rparr>"
  show ?case
  proof (cases "in_flight e < unat cwnd")
    case False
    then have "k = 0" using Cons(5) by simp
    then show ?thesis using False Cons(3,4) by (subst move_loop.simps) (simp add: in_window_test)
  next
    case True
    have fl: "in_flight ?e = Suc (in_flight e)" by (rule in_flight_step [OF Cons(3)])
    obtain k' where k: "k = Suc k'" "k' = min (length q) (unat cwnd - in_flight ?e)"
      using True Cons(5) q by (cases k) (simp_all add: fl)
    have "move_loop current cwnd e = move_loop current cwnd ?e"
      using True Cons(3,4) q by (subst move_loop.simps) (simp add: in_window_test)
    also have "\<dots> = ?e\<lparr>e_snd_queue := drop k' (e_snd_queue ?e),
        e_snd_buf := e_snd_buf ?e @ numbered current ?e (take k' (e_snd_queue ?e)),
        e_snd_nxt := e_snd_nxt ?e + word_of_nat k'\<rparr>"
      using True Cons(4) k(2) fl by (intro Cons(1)) simp_all
    also have "numbered current ?e (take k' (e_snd_queue ?e)) =
        numbered current (e\<lparr>e_snd_nxt := e_snd_nxt e + 1\<rparr>) (take k' q)"
      by (simp, intro numbered_cong) simp_all
    finally show ?thesis using q k(1) by (simp add: add.assoc)
  qed
qed

lemma effective_cwnd_le: "effective_cwnd e \<le> w_snd (e_wnd e)" "effective_cwnd e \<le> w_rmt (e_wnd e)"
  by (auto simp: effective_cwnd_def Let_def min_def)

lemma move_to_send_buf_eq:
  assumes "send_inv e"
  shows "move_to_send_buf current e =
    e\<lparr>e_snd_queue := drop (move_count e) (e_snd_queue e),
      e_snd_buf := e_snd_buf e @ numbered current e (take (move_count e) (e_snd_queue e)),
      e_snd_nxt := e_snd_nxt e + word_of_nat (move_count e)\<rparr>"
proof -
  have "unat (effective_cwnd e) \<le> unat (w_snd (e_wnd e))"
    using effective_cwnd_le(1) by (simp add: word_le_nat_alt)
  then have "unat (effective_cwnd e) < 2147483648" using assms by (simp add: send_inv_def)
  then show ?thesis
    unfolding move_to_send_buf_def using send_inv_flight [OF assms]
    by (intro move_loop_eq) (simp_all add: move_count_def)
qed

lemma numbered_length [simp]: "length (numbered current e segs) = length segs"
  by (induction segs arbitrary: e) auto

lemma numbered_data: "map s_data (numbered current e segs) = map s_data segs"
  by (induction segs arbitrary: e) (auto simp: number_segment_def)

lemma number_segment_sn [simp]: "s_sn (number_segment current e seg) = e_snd_nxt e"
  by (simp add: number_segment_def)

lemma sn_window_mono: "sn_window b n xs \<Longrightarrow> n \<le> n' \<Longrightarrow> sn_window b n' xs"
  by (auto simp: sn_window_def)

lemma numbered_window:
  "sn_window (e_snd_una e) (in_flight e) xs \<Longrightarrow> in_flight e + length segs < 2147483648 \<Longrightarrow>
   sn_window (e_snd_una e) (in_flight e + length segs) (xs @ numbered current e segs)"
proof (induction segs arbitrary: e xs)
  case (Cons seg segs)
  let ?e = "e\<lparr>e_snd_nxt := e_snd_nxt e + 1\<rparr>"
  have fl: "in_flight ?e = Suc (in_flight e)"
    using in_flight_step [of e "e_snd_queue e" "e_snd_buf e"] Cons.prems(2) by (simp add: in_flight_def)
  have "sn_window (e_snd_una e) (Suc (in_flight e)) (xs @ [number_segment current e seg])"
  proof -
    have "\<forall>s\<in>set xs. sn_dist (e_snd_una e) s < in_flight e"
      using Cons.prems(1) by (simp add: sn_window_def)
    then show ?thesis
      using sn_window_mono [OF Cons.prems(1), of "Suc (in_flight e)"]
      by (simp add: sn_window_append in_flight_def)
  qed
  then have "sn_window (e_snd_una ?e) (in_flight ?e + length segs)
      ((xs @ [number_segment current e seg]) @ numbered current ?e segs)"
    using Cons.prems(2) fl by (intro Cons.IH) simp_all
  then show ?case using fl by simp
qed simp

lemma move_count_le:
  assumes "send_inv e"
  shows "in_flight e + move_count e \<le> max (in_flight e) (unat (effective_cwnd e))"
    "in_flight e + move_count e \<le> unat (w_snd (e_wnd e))" "move_count e \<le> length (e_snd_queue e)"
proof -
  show a: "in_flight e + move_count e \<le> max (in_flight e) (unat (effective_cwnd e))"
    by (simp add: move_count_def)
  have "unat (effective_cwnd e) \<le> unat (w_snd (e_wnd e))"
    using effective_cwnd_le(1) by (simp add: word_le_nat_alt)
  then show "in_flight e + move_count e \<le> unat (w_snd (e_wnd e))"
    using a assms by (auto simp: send_inv_def max_def split: if_splits)
qed (simp add: move_count_def)

lemma in_flight_move:
  assumes "send_inv e"
  shows "in_flight (move_to_send_buf current e) = in_flight e + move_count e"
proof -
  have "in_flight e + move_count e < 2147483648"
    using move_count_le(2) [OF assms] assms by (simp add: send_inv_def)
  moreover have eq: "e_snd_nxt e + word_of_nat (move_count e) - e_snd_una e =
    (e_snd_nxt e - e_snd_una e) + word_of_nat (move_count e)" by simp
  ultimately show ?thesis
    using unat_add_u32 [of "e_snd_nxt e - e_snd_una e" "word_of_nat (move_count e)"]
    by (simp add: move_to_send_buf_eq [OF assms] in_flight_def eq unat_word_of_nat_u32)
qed

lemma move_to_send_buf_inv:
  assumes "send_inv e"
  shows "send_inv (move_to_send_buf current e)"
    and "una_synced e \<Longrightarrow> una_synced (move_to_send_buf current e)"
proof -
  have len: "length (take (move_count e) (e_snd_queue e)) = move_count e"
    using move_count_le(3) [OF assms] by simp
  have "sn_window (e_snd_una e) (in_flight e + move_count e)
      (e_snd_buf e @ numbered current e (take (move_count e) (e_snd_queue e)))"
    using numbered_window [of e "e_snd_buf e" "take (move_count e) (e_snd_queue e)" current] assms
      move_count_le(2) [OF assms] unfolding len by (simp add: send_inv_def)
  then show "send_inv (move_to_send_buf current e)"
    using move_count_le(2) [OF assms] assms in_flight_move [OF assms, of current]
    by (simp add: send_inv_def move_to_send_buf_eq [OF assms])
  show "una_synced (move_to_send_buf current e)" if "una_synced e"
  proof (cases "take (move_count e) (e_snd_queue e)")
    case Nil
    then have "move_count e = 0" using arg_cong [OF Nil, of length] len by simp
    then show ?thesis using that by (simp add: una_synced_def move_to_send_buf_eq [OF assms])
  next
    case (Cons s segs)
    then show ?thesis
      using that by (cases "e_snd_buf e") (simp_all add: una_synced_def move_to_send_buf_eq [OF assms])
  qed
qed

section \<open>The scan and the sending loop\<close>

abbreviation marked :: "KcpEngine \<Rightarrow> Timestamp \<Rightarrow> u32 \<Rightarrow> u32 \<Rightarrow> KcpSegment list \<Rightarrow> KcpSegment list" where
  "marked e current resend rtomin buf \<equiv>
     map (\<lambda>s. fst (mark_segment e current resend rtomin s)) buf"

text \<open>The segments of the buffer that the scan selects, as they are sent.\<close>

definition selected :: "KcpEngine \<Rightarrow> Timestamp \<Rightarrow> u32 \<Rightarrow> u32 \<Rightarrow> KcpSegment list \<Rightarrow> KcpSegment list" where
  "selected e current resend rtomin buf =
     marked e current resend rtomin (filter (\<lambda>s. snd (mark_segment e current resend rtomin s) \<noteq> Keep) buf)"

lemma mark_loop_eq:
  assumes "length pre = i"
  shows "\<exists>ks st'. mark_loop e current resend rtomin i buf (indices, lost, change, st) =
     (marked e current resend rtomin buf, indices @ ks,
      lost \<or> Timed_out \<in> (\<lambda>s. snd (mark_segment e current resend rtomin s)) ` set buf,
      change \<or> Fast \<in> (\<lambda>s. snd (mark_segment e current resend rtomin s)) ` set buf, st')
     \<and> map ((!) (pre @ marked e current resend rtomin buf)) ks = selected e current resend rtomin buf
     \<and> (\<forall>k\<in>set ks. i \<le> k \<and> k < i + length buf)"
  using assms
proof (induction buf arbitrary: i pre indices lost change st)
  case (Cons s buf)
  obtain s' m where M: "mark_segment e current resend rtomin s = (s', m)" by force
  obtain ks st' where IH:
    "mark_loop e current resend rtomin (Suc i) buf
       (if m = Keep then indices else indices @ [i], lost \<or> m = Timed_out, change \<or> m = Fast, count_mark m st) =
     (marked e current resend rtomin buf, (if m = Keep then indices else indices @ [i]) @ ks,
      (lost \<or> m = Timed_out) \<or> Timed_out \<in> (\<lambda>s. snd (mark_segment e current resend rtomin s)) ` set buf,
      (change \<or> m = Fast) \<or> Fast \<in> (\<lambda>s. snd (mark_segment e current resend rtomin s)) ` set buf, st')"
    "map ((!) ((pre @ [s']) @ marked e current resend rtomin buf)) ks = selected e current resend rtomin buf"
    "\<forall>k\<in>set ks. Suc i \<le> k \<and> k < Suc i + length buf"
    using Cons.IH [of "pre @ [s']" "Suc i" "if m = Keep then indices else indices @ [i]"
        "lost \<or> m = Timed_out" "change \<or> m = Fast" "count_mark m st"] Cons.prems by auto
  have "(pre @ s' # marked e current resend rtomin buf) ! i = s'" using Cons.prems by auto
  then show ?case
    using IH M by (cases "m = Keep") (force simp: selected_def)+
qed (simp add: selected_def)

text \<open>Sending stops after the first segment that has reached the retry limit.\<close>

fun upto_dead :: "u32 \<Rightarrow> KcpSegment list \<Rightarrow> KcpSegment list" where
  "upto_dead limit [] = []"
| "upto_dead limit (s # segs) = (if limit \<le> s_xmit s then [s] else s # upto_dead limit segs)"

lemma send_loop_eq:
  "send_loop B indices e =
     (output_segments B (upto_dead (e_dead_link e) (map ((!) (e_snd_buf e)) indices)) e,
      if \<exists>i\<in>set indices. e_dead_link e \<le> s_xmit (e_snd_buf e ! i) then Err core_connection_lost else Ok ())"
proof (induction indices arbitrary: e)
  case (Cons i indices)
  show ?case
    using Cons [of "fst (output_segment B (e_snd_buf e ! i) e)"] by (simp add: and_then_def)
qed simp

section \<open>A pass as a whole\<close>

definition resend_limit :: "KcpEngine \<Rightarrow> u32" where
  "resend_limit e = (if n_resend (c_nodelay (e_config e)) > 0 then n_resend (c_nodelay (e_config e)) else -1)"

definition rto_slack :: "KcpEngine \<Rightarrow> u32" where
  "rto_slack e = (if n_nodelay (c_nodelay (e_config e)) then 0 else r_rto (e_rtt e) div 8)"

text \<open>Whether a pass at time \<open>now\<close> retransmits after a timeout, or after skipped acknowledgements.\<close>

definition pass_lost :: "Timestamp \<Rightarrow> KcpEngine \<Rightarrow> bool" where
  "pass_lost now e \<longleftrightarrow>
     (\<exists>s\<in>set (e_snd_buf e). snd (mark_segment e now (resend_limit e) (rto_slack e) s) = Timed_out)"

definition pass_change :: "Timestamp \<Rightarrow> KcpEngine \<Rightarrow> bool" where
  "pass_change now e \<longleftrightarrow>
     (\<exists>s\<in>set (e_snd_buf e). snd (mark_segment e now (resend_limit e) (rto_slack e) s) = Fast)"

text \<open>The data segments a pass at time \<open>now\<close> selects from the buffer.\<close>

definition pass_selected :: "Timestamp \<Rightarrow> KcpEngine \<Rightarrow> KcpSegment list" where
  "pass_selected now e = selected e now (resend_limit e) (rto_slack e) (e_snd_buf e)"

definition pass_dead :: "Timestamp \<Rightarrow> KcpEngine \<Rightarrow> bool" where
  "pass_dead now e \<longleftrightarrow> (\<exists>s\<in>set (pass_selected now e). e_dead_link e \<le> s_xmit s)"

lemma congestion_fields [simp]:
  "e_conv (update_congestion_on_loss l c r e) = e_conv e" "e_config (update_congestion_on_loss l c r e) = e_config e"
  "e_snd_una (update_congestion_on_loss l c r e) = e_snd_una e" "e_snd_nxt (update_congestion_on_loss l c r e) = e_snd_nxt e"
  "e_rcv_nxt (update_congestion_on_loss l c r e) = e_rcv_nxt e" "e_rtt (update_congestion_on_loss l c r e) = e_rtt e"
  "e_probe (update_congestion_on_loss l c r e) = e_probe e" "e_snd_queue (update_congestion_on_loss l c r e) = e_snd_queue e"
  "e_rcv_queue (update_congestion_on_loss l c r e) = e_rcv_queue e" "e_snd_buf (update_congestion_on_loss l c r e) = e_snd_buf e"
  "e_rcv_buf (update_congestion_on_loss l c r e) = e_rcv_buf e" "e_ack_list (update_congestion_on_loss l c r e) = e_ack_list e"
  "e_output_queue (update_congestion_on_loss l c r e) = e_output_queue e" "e_out_buf (update_congestion_on_loss l c r e) = e_out_buf e"
  "e_stats (update_congestion_on_loss l c r e) = e_stats e" "e_dead_link (update_congestion_on_loss l c r e) = e_dead_link e"
  "e_last_update (update_congestion_on_loss l c r e) = e_last_update e"
  "e_last_activity (update_congestion_on_loss l c r e) = e_last_activity e"
  "w_snd (e_wnd (update_congestion_on_loss l c r e)) = w_snd (e_wnd e)"
  "w_rcv (e_wnd (update_congestion_on_loss l c r e)) = w_rcv (e_wnd e)"
  "w_rmt (e_wnd (update_congestion_on_loss l c r e)) = w_rmt (e_wnd e)"
  by (simp_all add: update_congestion_on_loss_def reset_cwnd_def Let_def)

lemma congestion_cwnd: "1 \<le> w_cwnd (e_wnd (update_congestion_on_loss l c r e))"
  by (simp add: update_congestion_on_loss_def reset_cwnd_def Let_def) (simp flip: not_less)

lemma congestion_inv:
  assumes "cwnd_inv e"
  shows "cwnd_inv (update_congestion_on_loss l c r e)"
proof -
  have mult: "unat (x * y) \<le> (unat x + 1) * unat y" for x y :: u32
  proof -
    have "unat (x * y) \<le> unat x * unat y" by (simp add: unat_word_ariths)
    then show ?thesis by simp
  qed
  have reset: "cwnd_inv (reset_cwnd e')" for e'
    by (simp add: cwnd_inv_def reset_cwnd_def mss_def)
  have change: "cwnd_inv (e\<lparr>e_wnd := (e_wnd e)\<lparr>w_ssthresh := t, w_cwnd := x, w_incr := x * mss e\<rparr>\<rparr>)" for t x
    using mult [of x "mss e"] by (simp add: cwnd_inv_def mss_def)
  show ?thesis
    using assms reset change by (simp add: update_congestion_on_loss_def Let_def)
qed

lemma flush_data_segments_eq:
  obtains st where
    "flush_data_segments B now e =
      (let e2 = output_segments B (upto_dead (e_dead_link e) (pass_selected now e))
                  (e\<lparr>e_snd_buf := marked e now (resend_limit e) (rto_slack e) (e_snd_buf e), e_stats := st\<rparr>)
       in if pass_dead now e then (e2, Err core_connection_lost)
          else (update_congestion_on_loss (pass_lost now e) (pass_change now e) (resend_limit e) e2, Ok ()))"
proof -
  let ?m = "marked e now (resend_limit e) (rto_slack e) (e_snd_buf e)"
  obtain ks st where
    M: "mark_loop e now (resend_limit e) (rto_slack e) 0 (e_snd_buf e) ([], False, False, e_stats e) =
          (?m, ks, pass_lost now e, pass_change now e, st)"
    and sel: "map ((!) ?m) ks = pass_selected now e"
    using mark_loop_eq [of "[]" 0 e now "resend_limit e" "rto_slack e" "e_snd_buf e" "[]" False False "e_stats e"]
    by (auto simp: pass_selected_def pass_lost_def pass_change_def image_iff eq_commute)
  have dead: "(\<exists>i\<in>set ks. e_dead_link e \<le> s_xmit (?m ! i)) = pass_dead now e"
    unfolding pass_dead_def sel [symmetric] by simp
  have "flush_data_segments B now e =
      (let e2 = output_segments B (upto_dead (e_dead_link e) (pass_selected now e))
                  (e\<lparr>e_snd_buf := ?m, e_stats := st\<rparr>)
       in if pass_dead now e then (e2, Err core_connection_lost)
          else (update_congestion_on_loss (pass_lost now e) (pass_change now e) (resend_limit e) e2, Ok ()))"
    using M dead
    by (simp add: flush_data_segments_def mark_segments_for_send_def resend_limit_def [symmetric]
        rto_slack_def [symmetric] send_loop_eq sel Let_def)
  then show thesis by (rule that)
qed

lemma mark_segment_cong:
  "e_config e' = e_config e \<Longrightarrow> e_rcv_queue e' = e_rcv_queue e \<Longrightarrow> e_wnd e' = e_wnd e \<Longrightarrow>
   e_rcv_nxt e' = e_rcv_nxt e \<Longrightarrow> e_rtt e' = e_rtt e \<Longrightarrow>
   mark_segment e' now resend rtomin s = mark_segment e now resend rtomin s"
  by (simp add: mark_segment_def wnd_unused_cong [of e' e] Let_def)

text \<open>\<open>same_core e e'\<close>: equal up to pending acknowledgements, probe state, output and statistics.\<close>

definition same_core :: "KcpEngine \<Rightarrow> KcpEngine \<Rightarrow> bool" where
  "same_core e e' \<longleftrightarrow> e_conv e' = e_conv e \<and> e_config e' = e_config e \<and> e_snd_una e' = e_snd_una e
     \<and> e_snd_nxt e' = e_snd_nxt e \<and> e_rcv_nxt e' = e_rcv_nxt e \<and> e_rtt e' = e_rtt e \<and> e_wnd e' = e_wnd e
     \<and> e_snd_queue e' = e_snd_queue e \<and> e_rcv_queue e' = e_rcv_queue e \<and> e_snd_buf e' = e_snd_buf e
     \<and> e_rcv_buf e' = e_rcv_buf e \<and> e_last_update e' = e_last_update e
     \<and> e_last_activity e' = e_last_activity e \<and> e_dead_link e' = e_dead_link e"

lemma same_core_send_inv: "same_core e e' \<Longrightarrow> send_inv e' = send_inv e"
  by (simp add: same_core_def send_inv_def in_flight_def)

lemma same_core_move:
  assumes "same_core e e'" "send_inv e"
  shows "same_core (move_to_send_buf now e) (move_to_send_buf now e')"
proof -
  have e': "send_inv e'" using assms same_core_send_inv by blast
  have "move_count e' = move_count e"
    using assms(1) by (simp add: same_core_def move_count_def effective_cwnd_def in_flight_def Let_def)
  moreover have "numbered now e' segs = numbered now e segs" for segs
    using assms(1) by (intro numbered_cong) (simp_all add: same_core_def)
  ultimately show ?thesis
    using assms(1) by (simp add: same_core_def move_to_send_buf_eq [OF assms(2)] move_to_send_buf_eq [OF e'])
qed

lemma same_core_pass:
  assumes "same_core e e'"
  shows "pass_selected now e' = pass_selected now e" "pass_dead now e' = pass_dead now e"
    "marked e' now (resend_limit e') (rto_slack e') (e_snd_buf e') =
     marked e now (resend_limit e) (rto_slack e) (e_snd_buf e)"
proof -
  have m: "mark_segment e' now r x s = mark_segment e now r x s" for r x s
    using assms by (intro mark_segment_cong) (simp_all add: same_core_def)
  have rs: "resend_limit e' = resend_limit e" "rto_slack e' = rto_slack e"
    using assms by (simp_all add: same_core_def resend_limit_def rto_slack_def)
  then show sel: "pass_selected now e' = pass_selected now e"
    "marked e' now (resend_limit e') (rto_slack e') (e_snd_buf e') =
     marked e now (resend_limit e) (rto_slack e) (e_snd_buf e)"
    using assms m by (simp_all add: pass_selected_def selected_def same_core_def)
  then show "pass_dead now e' = pass_dead now e"
    using assms by (simp add: pass_dead_def same_core_def)
qed

text \<open>The state of a pass before its data segments: acknowledgements and probes are out.\<close>

definition after_control :: "buf_api \<Rightarrow> clock \<Rightarrow> KcpEngine \<Rightarrow> KcpEngine" where
  "after_control B clk e =
     (let p = probe_timer (clk 0) (w_rmt (e_wnd e)) (e_probe e)
      in (output_segments B (pass_probes clk e)
            ((output_segments B (pass_acks clk e) (e\<lparr>e_ack_list := []\<rparr>))\<lparr>e_probe := p\<rparr>))
         \<lparr>e_probe := p\<lparr>p_flags := 0\<rparr>\<rparr>)"

lemma after_control_core: "same_core e (after_control B clk e)"
  by (simp add: same_core_def after_control_def Let_def)

lemma after_control_fields [simp]:
  "e_ack_list (after_control B clk e) = []"
  "e_probe (after_control B clk e) = (probe_timer (clk 0) (w_rmt (e_wnd e)) (e_probe e))\<lparr>p_flags := 0\<rparr>"
  by (simp_all add: after_control_def Let_def)

lemma pass_probes_cong:
  "same_core e e' \<Longrightarrow> e_probe e' = e_probe e \<Longrightarrow> pass_probes clk e' = pass_probes clk e"
  by (simp add: same_core_def pass_probes_def create_probe_segment_cong [of e' e] Let_def)

lemma flush_split:
  "flush B clk e =
     and_then (flush_data_segments B (clk 0) (move_to_send_buf (clk 0) (after_control B clk e)))
       (\<lambda>e. (update_congestion_control (flush_out_buf e), Ok ()))"
proof -
  let ?a = "output_segments B (pass_acks clk e) (e\<lparr>e_ack_list := []\<rparr>)"
  have "pass_probes clk ?a = pass_probes clk e"
    by (rule pass_probes_cong) (simp_all add: same_core_def)
  then show ?thesis
    unfolding flush_def Let_def flush_acks_eq and_then_Ok handle_window_probe_eq after_control_def by simp
qed

lemma control_update_fields [simp]:
  "e_conv (update_congestion_control e) = e_conv e" "e_config (update_congestion_control e) = e_config e"
  "e_snd_una (update_congestion_control e) = e_snd_una e" "e_snd_nxt (update_congestion_control e) = e_snd_nxt e"
  "e_rcv_nxt (update_congestion_control e) = e_rcv_nxt e" "e_rtt (update_congestion_control e) = e_rtt e"
  "e_wnd (update_congestion_control e) = e_wnd e" "e_probe (update_congestion_control e) = e_probe e"
  "e_snd_queue (update_congestion_control e) = e_snd_queue e" "e_rcv_queue (update_congestion_control e) = e_rcv_queue e"
  "e_snd_buf (update_congestion_control e) = e_snd_buf e" "e_rcv_buf (update_congestion_control e) = e_rcv_buf e"
  "e_ack_list (update_congestion_control e) = e_ack_list e" "e_output_queue (update_congestion_control e) = e_output_queue e"
  "e_out_buf (update_congestion_control e) = e_out_buf e" "e_dead_link (update_congestion_control e) = e_dead_link e"
  "e_last_update (update_congestion_control e) = e_last_update e"
  "e_last_activity (update_congestion_control e) = e_last_activity e"
  by (simp_all add: update_congestion_control_def)

text \<open>The state in which a pass sends its data segments, and the form of its result.\<close>

definition before_data :: "buf_api \<Rightarrow> clock \<Rightarrow> KcpEngine \<Rightarrow> KcpEngine" where
  "before_data B clk e = move_to_send_buf (clk 0) (after_control B clk e)"

lemma before_data_core:
  "send_inv e \<Longrightarrow> same_core (move_to_send_buf (clk 0) e) (before_data B clk e)"
  unfolding before_data_def by (rule same_core_move [OF after_control_core])

lemma before_data_fields:
  assumes "send_inv e"
  shows "e_ack_list (before_data B clk e) = []" "e_output_queue (before_data B clk e) = e_output_queue (after_control B clk e)"
    "e_out_buf (before_data B clk e) = e_out_buf (after_control B clk e)"
    "e_probe (before_data B clk e) = (probe_timer (clk 0) (w_rmt (e_wnd e)) (e_probe e))\<lparr>p_flags := 0\<rparr>"
proof -
  have "send_inv (after_control B clk e)"
    using assms same_core_send_inv [OF after_control_core] by blast
  from move_to_send_buf_eq [OF this] show
    "e_ack_list (before_data B clk e) = []" "e_output_queue (before_data B clk e) = e_output_queue (after_control B clk e)"
    "e_out_buf (before_data B clk e) = e_out_buf (after_control B clk e)"
    "e_probe (before_data B clk e) = (probe_timer (clk 0) (w_rmt (e_wnd e)) (e_probe e))\<lparr>p_flags := 0\<rparr>"
    by (simp_all add: before_data_def)
qed

lemma flush_form:
  fixes B clk e
  defines "d \<equiv> before_data B clk e"
  obtains st where
    "flush B clk e =
      (let e2 = output_segments B (upto_dead (e_dead_link d) (pass_selected (clk 0) d))
                  (d\<lparr>e_snd_buf := marked d (clk 0) (resend_limit d) (rto_slack d) (e_snd_buf d), e_stats := st\<rparr>)
       in if pass_dead (clk 0) d then (e2, Err core_connection_lost)
          else (update_congestion_control (flush_out_buf (update_congestion_on_loss (pass_lost (clk 0) d) (pass_change (clk 0) d) (resend_limit d) e2)), Ok ()))"
proof -
  obtain st where "flush_data_segments B (clk 0) d =
      (let e2 = output_segments B (upto_dead (e_dead_link d) (pass_selected (clk 0) d))
                  (d\<lparr>e_snd_buf := marked d (clk 0) (resend_limit d) (rto_slack d) (e_snd_buf d), e_stats := st\<rparr>)
       in if pass_dead (clk 0) d then (e2, Err core_connection_lost)
          else (update_congestion_on_loss (pass_lost (clk 0) d) (pass_change (clk 0) d) (resend_limit d) e2, Ok ()))"
    using flush_data_segments_eq by blast
  then show thesis
    by (intro that [of st]) (simp add: flush_split d_def [unfolded before_data_def, symmetric] Let_def)
qed

lemma flush_effects:
  fixes B clk e
  assumes inv: "send_inv e"
  defines "e1 \<equiv> move_to_send_buf (clk 0) e" and "e' \<equiv> fst (flush B clk e)"
  shows "snd (flush B clk e) = (if pass_dead (clk 0) e1 then Err core_connection_lost else Ok ())"
    and "e_snd_buf e' = marked e1 (clk 0) (resend_limit e1) (rto_slack e1) (e_snd_buf e1)"
    and "e_snd_queue e' = e_snd_queue e1" "e_snd_nxt e' = e_snd_nxt e1" "e_snd_una e' = e_snd_una e"
    and "e_conv e' = e_conv e" "e_config e' = e_config e" "e_rtt e' = e_rtt e" "e_dead_link e' = e_dead_link e"
    and "e_rcv_nxt e' = e_rcv_nxt e" "e_rcv_queue e' = e_rcv_queue e" "e_rcv_buf e' = e_rcv_buf e"
    and "w_snd (e_wnd e') = w_snd (e_wnd e)" "w_rcv (e_wnd e') = w_rcv (e_wnd e)" "w_rmt (e_wnd e') = w_rmt (e_wnd e)"
    and "e_ack_list e' = []" "e_probe e' = (probe_timer (clk 0) (w_rmt (e_wnd e)) (e_probe e))\<lparr>p_flags := 0\<rparr>"
    and "cwnd_inv e \<Longrightarrow> cwnd_inv e'"
    and "\<not> pass_dead (clk 0) e1 \<Longrightarrow> 1 \<le> w_cwnd (e_wnd e') \<and> e_out_buf e' = []"
proof -
  define d where "d = before_data B clk e"
  obtain st where F: "flush B clk e =
      (let e2 = output_segments B (upto_dead (e_dead_link d) (pass_selected (clk 0) d))
                  (d\<lparr>e_snd_buf := marked d (clk 0) (resend_limit d) (rto_slack d) (e_snd_buf d), e_stats := st\<rparr>)
       in if pass_dead (clk 0) d then (e2, Err core_connection_lost)
          else (update_congestion_control (flush_out_buf (update_congestion_on_loss (pass_lost (clk 0) d) (pass_change (clk 0) d) (resend_limit d) e2)), Ok ()))"
    unfolding d_def using flush_form by blast
  have core: "same_core e1 d" unfolding e1_def d_def by (rule before_data_core [OF inv])
  note pass = same_core_pass [OF core, of "clk 0"]
  have dead: "pass_dead (clk 0) d = pass_dead (clk 0) e1" by (rule pass(2))
  have C: "cwnd_inv d" if "cwnd_inv e"
    using that core by (simp add: cwnd_inv_def same_core_def mss_def e1_def move_to_send_buf_eq [OF inv])
  show "cwnd_inv e'" if "cwnd_inv e"
  proof -
    have "cwnd_inv (d\<lparr>e_snd_buf := b, e_stats := st\<rparr>)" for b
      using C [OF that] by (simp add: cwnd_inv_def mss_def)
    then have "cwnd_inv (output_segments B segs (d\<lparr>e_snd_buf := b, e_stats := st\<rparr>))" for segs b
      by (simp add: cwnd_inv_def mss_def)
    then have "cwnd_inv (update_congestion_on_loss l c r
        (output_segments B segs (d\<lparr>e_snd_buf := b, e_stats := st\<rparr>)))" for segs b r l c
      by (rule congestion_inv)
    then show ?thesis
      using \<open>\<And>segs b. cwnd_inv (output_segments B segs (d\<lparr>e_snd_buf := b, e_stats := st\<rparr>))\<close>
      by (simp add: e'_def F Let_def cwnd_inv_def mss_def)
  qed
  show "snd (flush B clk e) = (if pass_dead (clk 0) e1 then Err core_connection_lost else Ok ())"
    by (simp add: F Let_def dead)
  show "e_snd_buf e' = marked e1 (clk 0) (resend_limit e1) (rto_slack e1) (e_snd_buf e1)"
    by (simp add: e'_def F Let_def pass(3))
  show "\<not> pass_dead (clk 0) e1 \<Longrightarrow> 1 \<le> w_cwnd (e_wnd e') \<and> e_out_buf e' = []"
    using congestion_cwnd by (simp add: e'_def F Let_def dead)
  show "e_ack_list e' = []" "e_probe e' = (probe_timer (clk 0) (w_rmt (e_wnd e)) (e_probe e))\<lparr>p_flags := 0\<rparr>"
    using before_data_fields [OF inv, of B clk] by (simp_all add: e'_def F Let_def d_def [symmetric])
  show "e_snd_queue e' = e_snd_queue e1" "e_snd_nxt e' = e_snd_nxt e1" "e_snd_una e' = e_snd_una e"
    "e_conv e' = e_conv e" "e_config e' = e_config e" "e_rtt e' = e_rtt e" "e_dead_link e' = e_dead_link e"
    "e_rcv_nxt e' = e_rcv_nxt e" "e_rcv_queue e' = e_rcv_queue e" "e_rcv_buf e' = e_rcv_buf e"
    "w_snd (e_wnd e') = w_snd (e_wnd e)" "w_rcv (e_wnd e') = w_rcv (e_wnd e)" "w_rmt (e_wnd e') = w_rmt (e_wnd e)"
    using core by (simp_all add: e'_def F Let_def same_core_def e1_def move_to_send_buf_eq [OF inv])
qed

lemma same_core_loss:
  assumes "same_core e e'"
  shows "pass_lost now e' = pass_lost now e" "pass_change now e' = pass_change now e"
    "resend_limit e' = resend_limit e"
proof -
  have "mark_segment e' now r x s = mark_segment e now r x s" for r x s
    using assms by (intro mark_segment_cong) (simp_all add: same_core_def)
  moreover show rs: "resend_limit e' = resend_limit e"
    using assms by (simp add: same_core_def resend_limit_def)
  moreover have "rto_slack e' = rto_slack e" using assms by (simp add: same_core_def rto_slack_def)
  ultimately show "pass_lost now e' = pass_lost now e" "pass_change now e' = pass_change now e"
    using assms by (simp_all add: pass_lost_def pass_change_def same_core_def)
qed

lemma congestion_wnd_cong:
  assumes "e_wnd e' = e_wnd e" "e_snd_nxt e' = e_snd_nxt e" "e_snd_una e' = e_snd_una e" "e_config e' = e_config e"
  shows "e_wnd (update_congestion_on_loss l c r e') = e_wnd (update_congestion_on_loss l c r e)"
  using assms by (simp add: update_congestion_on_loss_def reset_cwnd_def mss_def Let_def)

text \<open>The congestion window after a pass that succeeded.\<close>

lemma flush_wnd:
  fixes clk e
  assumes inv: "send_inv e"
  defines "e1 \<equiv> move_to_send_buf (clk 0) e"
  assumes ok: "\<not> pass_dead (clk 0) e1"
  shows "e_wnd (fst (flush B clk e)) =
    e_wnd (update_congestion_on_loss (pass_lost (clk 0) e1) (pass_change (clk 0) e1) (resend_limit e1) e1)"
proof -
  define d where "d = before_data B clk e"
  have core: "same_core e1 d" unfolding e1_def d_def by (rule before_data_core [OF inv])
  obtain st where F: "flush B clk e =
      (let e2 = output_segments B (upto_dead (e_dead_link d) (pass_selected (clk 0) d))
                  (d\<lparr>e_snd_buf := marked d (clk 0) (resend_limit d) (rto_slack d) (e_snd_buf d), e_stats := st\<rparr>)
       in if pass_dead (clk 0) d then (e2, Err core_connection_lost)
          else (update_congestion_control (flush_out_buf (update_congestion_on_loss (pass_lost (clk 0) d)
                 (pass_change (clk 0) d) (resend_limit d) e2)), Ok ()))"
    unfolding d_def using flush_form by blast
  have "\<not> pass_dead (clk 0) d" using ok same_core_pass(2) [OF core] by simp
  then have "e_wnd (fst (flush B clk e)) = e_wnd (update_congestion_on_loss (pass_lost (clk 0) d)
      (pass_change (clk 0) d) (resend_limit d)
      (output_segments B (upto_dead (e_dead_link d) (pass_selected (clk 0) d))
        (d\<lparr>e_snd_buf := marked d (clk 0) (resend_limit d) (rto_slack d) (e_snd_buf d), e_stats := st\<rparr>)))"
    by (simp add: F Let_def)
  also have "\<dots> = e_wnd (update_congestion_on_loss (pass_lost (clk 0) d) (pass_change (clk 0) d) (resend_limit d) e1)"
    using core by (intro congestion_wnd_cong) (simp_all add: same_core_def)
  finally show ?thesis by (simp add: same_core_loss [OF core])
qed

lemma mark_segment_fields [simp]:
  "s_sn (fst (mark_segment e now r x s)) = s_sn s" "s_data (fst (mark_segment e now r x s)) = s_data s"
  "h_len (s_header (fst (mark_segment e now r x s))) = h_len (s_header s)"
  "h_conv (s_header (fst (mark_segment e now r x s))) = h_conv (s_header s)"
  "h_cmd (s_header (fst (mark_segment e now r x s))) = h_cmd (s_header s)"
  "s_frg (fst (mark_segment e now r x s)) = s_frg s"
  by (simp_all add: mark_segment_def stamp_def Let_def)

text \<open>Every segment of the send buffer carries at most one segment size of data, and some.\<close>

definition snd_buf_ok :: "KcpEngine \<Rightarrow> bool" where
  "snd_buf_ok e \<longleftrightarrow> (\<forall>seg\<in>set (e_snd_buf e). data_seg_ok e seg)"

lemma data_seg_ok_cong:
  "e_config e' = e_config e \<Longrightarrow> s_data s' = s_data s \<Longrightarrow> h_len (s_header s') = h_len (s_header s) \<Longrightarrow>
   data_seg_ok e' s' = data_seg_ok e s"
  by (simp add: data_seg_ok_def mss_def)

lemma numbered_seg_ok:
  "\<forall>s\<in>set segs. data_seg_ok e s \<Longrightarrow> \<forall>s\<in>set (numbered now e' segs). data_seg_ok e s"
proof (induction segs arbitrary: e')
  case (Cons s segs)
  have "data_seg_ok e (number_segment now e' s) = data_seg_ok e s"
    by (rule data_seg_ok_cong) (simp_all add: number_segment_def)
  with Cons show ?case by simp
qed simp

lemma move_to_send_buf_ok:
  assumes "send_inv e" "snd_queue_ok e" "snd_buf_ok e"
  shows "snd_queue_ok (move_to_send_buf now e)" "snd_buf_ok (move_to_send_buf now e)"
proof -
  have cong: "data_seg_ok (move_to_send_buf now e) s = data_seg_ok e s" for s
    by (rule data_seg_ok_cong) (simp_all add: move_to_send_buf_eq [OF assms(1)])
  have sub: "set (take k xs) \<subseteq> set xs" "set (drop k xs) \<subseteq> set xs" for k and xs :: "KcpSegment list"
    by (rule set_take_subset set_drop_subset)+
  show "snd_queue_ok (move_to_send_buf now e)"
    using assms(2) sub(2) [of "move_count e" "e_snd_queue e"]
    unfolding snd_queue_ok_def cong by (auto simp: move_to_send_buf_eq [OF assms(1)])
  have "\<forall>s\<in>set (numbered now e (take (move_count e) (e_snd_queue e))). data_seg_ok e s"
    using assms(2) sub(1) [of "move_count e" "e_snd_queue e"] by (intro numbered_seg_ok) (auto simp: snd_queue_ok_def)
  then show "snd_buf_ok (move_to_send_buf now e)"
    using assms(3) unfolding snd_buf_ok_def cong by (auto simp: move_to_send_buf_eq [OF assms(1)])
qed

lemma flush_invariants:
  assumes inv: "send_inv e"
  shows "send_inv (fst (flush B clk e))"
    and "una_synced e \<Longrightarrow> una_synced (fst (flush B clk e))"
    and "snd_queue_ok e \<Longrightarrow> snd_buf_ok e \<Longrightarrow> snd_queue_ok (fst (flush B clk e)) \<and> snd_buf_ok (fst (flush B clk e))"
    and "in_flight (fst (flush B clk e)) = in_flight e + move_count e"
proof -
  let ?e1 = "move_to_send_buf (clk 0) e" and ?e' = "fst (flush B clk e)"
  note eff = flush_effects [where B = B and clk = clk, OF inv]
  have una: "e_snd_una ?e1 = e_snd_una e" and cfg: "e_config ?e1 = e_config e"
    and wnd: "e_wnd ?e1 = e_wnd e"
    by (simp_all add: move_to_send_buf_eq [OF inv])
  have fl: "in_flight ?e' = in_flight ?e1" by (simp add: in_flight_def eff una)
  then show "in_flight ?e' = in_flight e + move_count e" by (simp add: in_flight_move [OF inv])
  show "send_inv ?e'"
    using move_to_send_buf_inv(1) [OF inv, of "clk 0"] fl
    by (simp add: send_inv_def eff una wnd sn_window_map)
  show "una_synced ?e'" if "una_synced e"
    using move_to_send_buf_inv(2) [OF inv that, of "clk 0"]
    by (cases "e_snd_buf ?e1") (simp_all add: una_synced_def eff una)
  show "snd_queue_ok ?e' \<and> snd_buf_ok ?e'" if "snd_queue_ok e" "snd_buf_ok e"
  proof -
    have "data_seg_ok ?e' s = data_seg_ok ?e1 s" for s
      by (rule data_seg_ok_cong) (simp_all add: eff cfg)
    moreover have "data_seg_ok ?e1 (fst (mark_segment e2 now r x s)) = data_seg_ok ?e1 s" for e2 now r x s
      by (rule data_seg_ok_cong) simp_all
    ultimately show ?thesis
      using move_to_send_buf_ok [OF inv that, of "clk 0"]
      by (simp add: snd_queue_ok_def snd_buf_ok_def eff)
  qed
qed

text \<open>A pass moves payloads from the queue to the buffer and changes none.\<close>

lemma flush_keeps_data:
  assumes "send_inv e"
  shows "map s_data (e_snd_buf (fst (flush B clk e)) @ e_snd_queue (fst (flush B clk e))) =
    map s_data (e_snd_buf e @ e_snd_queue e)"
proof -
  note eff = flush_effects [where B = B and clk = clk, OF assms]
  have "map s_data (e_snd_buf e) @ map s_data (numbered t e (take k q)) @ map s_data (drop k q) =
      map s_data (e_snd_buf e @ q)" for t k q
    unfolding numbered_data map_append [symmetric] append_take_drop_id by (rule refl)
  then show ?thesis by (simp add: eff move_to_send_buf_eq [OF assms] o_def)
qed

lemma flush_queue_shorter:
  "send_inv e \<Longrightarrow> length (e_snd_queue (fst (flush B clk e))) \<le> length (e_snd_queue e)"
  using flush_effects(3) [where B = B and clk = clk and e = e] by (simp add: move_to_send_buf_eq)

text \<open>\<open>update\<close> sets the time of the last update, and flushes or not.\<close>

lemma update_cases:
  obtains (tick) t where "fst (update B clk e) = e\<lparr>e_last_update := t\<rparr>"
  | (pass) clk' t where "fst (update B clk e) = fst (flush B clk' (e\<lparr>e_last_update := t\<rparr>))"
proof -
  have fst_then: "fst (and_then x (\<lambda>e. (e, Ok ()))) = fst x" for x :: "KcpEngine \<times> (KcpCoreError + unit)"
    by (simp add: and_then_def split: sum.split)
  let ?t = "min (clk 0) (e_last_update e)"
  have e1: "(if clk 0 < e_last_update e then e\<lparr>e_last_update := clk 0\<rparr> else e) = e\<lparr>e_last_update := ?t\<rparr>"
    by (simp add: min_def)
  have "fst (update B clk e) = e\<lparr>e_last_update := ?t\<rparr> \<or>
      fst (update B clk e) = fst (flush B (\<lambda>k. clk (Suc k)) (e\<lparr>e_last_update := clk 0\<rparr>))"
    unfolding update_def Let_def e1 by (simp add: fst_then)
  then show thesis using tick pass by blast
qed

lemma send_inv_last_update [simp]: "send_inv (e\<lparr>e_last_update := t\<rparr>) = send_inv e"
  by (simp add: send_inv_def in_flight_def)

lemma update_queue_shorter:
  "send_inv e \<Longrightarrow> length (e_snd_queue (fst (update B clk e))) \<le> length (e_snd_queue e)"
  using flush_queue_shorter [where B = B, of "e\<lparr>e_last_update := t\<rparr>" for t]
  by (cases rule: update_cases [of B clk e]) simp_all

text \<open>All segments of a pass, in the order they are emitted.\<close>

definition pass_segments :: "clock \<Rightarrow> KcpEngine \<Rightarrow> KcpSegment list" where
  "pass_segments clk e =
     pass_acks clk e @ pass_probes clk e @
     upto_dead (e_dead_link e) (pass_selected (clk 0) (move_to_send_buf (clk 0) e))"

lemma upto_dead_subset: "set (upto_dead l segs) \<subseteq> set segs"
  by (induction segs) auto

lemma ack_segs_fits:
  "mtu_ok e \<Longrightarrow> \<forall>s\<in>set (ack_segs clk i conv wnd una acks). seg_fits e s"
  by (induction acks arbitrary: i)
    (auto simp: make_ack_def KcpSegment_ack_def KcpSegment_new_def KcpHeader_new_def seg_fits_def
      KcpSegment_size_def mtu_ok_def Let_def)

lemma pass_probes_fits: "mtu_ok e \<Longrightarrow> \<forall>s\<in>set (pass_probes clk e). seg_fits e s"
  by (auto simp: pass_probes_def create_probe_segment_def KcpSegment_new_def KcpHeader_new_def seg_fits_def
      KcpSegment_size_def mtu_ok_def Let_def)

lemma data_seg_fits: "mtu_ok e \<Longrightarrow> data_seg_ok e s \<Longrightarrow> seg_fits e s"
  using mss_mtu [of e] by (simp add: data_seg_ok_def seg_fits_def KcpSegment_size_def)

lemma pass_segments_fits:
  assumes "send_inv e" "mtu_ok e" "snd_queue_ok e" "snd_buf_ok e"
  shows "\<forall>s\<in>set (pass_segments clk e). seg_fits e s"
proof -
  let ?e1 = "move_to_send_buf (clk 0) e"
  have "data_seg_ok e s = data_seg_ok ?e1 s" for s
    by (rule data_seg_ok_cong) (simp_all add: move_to_send_buf_eq [OF assms(1)])
  moreover have "data_seg_ok ?e1 (fst (mark_segment e2 now r x s)) = data_seg_ok ?e1 s" for e2 now r x s
    by (rule data_seg_ok_cong) simp_all
  ultimately have "\<forall>s\<in>set (pass_selected (clk 0) ?e1). seg_fits e s"
    using move_to_send_buf_ok(2) [OF assms(1,3,4), of "clk 0"]
    by (auto simp: pass_selected_def selected_def snd_buf_ok_def intro!: data_seg_fits [OF assms(2)])
  then show ?thesis
    using ack_segs_fits [OF assms(2)] pass_probes_fits [OF assms(2)] upto_dead_subset
    unfolding pass_segments_def pass_acks_def by (auto dest!: subsetD [OF upto_dead_subset])
qed

lemma emitted_cong:
  "e_output_queue e' = e_output_queue e \<Longrightarrow> e_out_buf e' = e_out_buf e \<Longrightarrow> emitted e' = emitted e"
  by (simp add: emitted_def)

lemma output_ok_cong:
  "e_output_queue e' = e_output_queue e \<Longrightarrow> e_out_buf e' = e_out_buf e \<Longrightarrow> e_config e' = e_config e \<Longrightarrow>
   output_ok B e' = output_ok B e"
  by (simp add: output_ok_def)

text \<open>
  The output fields after a flush are those of emitting its segments one after the other and, unless a
  segment is dead, closing the datagram under construction.
\<close>

lemma output_segments_cong:
  assumes "e_config e' = e_config e" "e_output_queue e' = e_output_queue e" "e_out_buf e' = e_out_buf e"
  shows "e_output_queue (output_segments B segs e') = e_output_queue (output_segments B segs e)
    \<and> e_out_buf (output_segments B segs e') = e_out_buf (output_segments B segs e)"
  using assms
proof (induction segs arbitrary: e e')
  case (Cons seg segs)
  show ?case
    unfolding output_segments.simps
    by (rule Cons.IH) (use Cons.prems in \<open>simp_all add: output_segment_def Let_def\<close>)
qed simp

lemma flush_output_eq:
  fixes B clk e
  assumes inv: "send_inv e"
  defines "E \<equiv> output_segments B (pass_segments clk e) e"
    and "dead \<equiv> pass_dead (clk 0) (move_to_send_buf (clk 0) e)"
  shows "e_output_queue (fst (flush B clk e)) = e_output_queue (if dead then E else flush_out_buf E)"
    "e_out_buf (fst (flush B clk e)) = e_out_buf (if dead then E else flush_out_buf E)"
proof -
  define d where "d = before_data B clk e"
  obtain st where F: "flush B clk e =
      (let e2 = output_segments B (upto_dead (e_dead_link d) (pass_selected (clk 0) d))
                  (d\<lparr>e_snd_buf := marked d (clk 0) (resend_limit d) (rto_slack d) (e_snd_buf d), e_stats := st\<rparr>)
       in if pass_dead (clk 0) d then (e2, Err core_connection_lost)
          else (update_congestion_control (flush_out_buf (update_congestion_on_loss (pass_lost (clk 0) d) (pass_change (clk 0) d) (resend_limit d) e2)), Ok ()))"
    unfolding d_def using flush_form by blast
  have core: "same_core (move_to_send_buf (clk 0) e) d" unfolding d_def by (rule before_data_core [OF inv])
  have dl: "e_dead_link d = e_dead_link e" and cfg: "e_config d = e_config e"
    using core by (simp_all add: same_core_def move_to_send_buf_eq [OF inv])
  let ?S = "upto_dead (e_dead_link e) (pass_selected (clk 0) (move_to_send_buf (clk 0) e))"
  define e2 where "e2 = output_segments B ?S
    (d\<lparr>e_snd_buf := marked d (clk 0) (resend_limit d) (rto_slack d) (e_snd_buf d), e_stats := st\<rparr>)"
  let ?A = "output_segments B (pass_acks clk e) e"
  have a: "e_output_queue (after_control B clk e) = e_output_queue (output_segments B (pass_probes clk e) ?A)
      \<and> e_out_buf (after_control B clk e) = e_out_buf (output_segments B (pass_probes clk e) ?A)"
    using output_segments_cong [of "e\<lparr>e_ack_list := []\<rparr>" e B "pass_acks clk e"]
      output_segments_cong [of "(output_segments B (pass_acks clk e) (e\<lparr>e_ack_list := []\<rparr>))
        \<lparr>e_probe := probe_timer (clk 0) (w_rmt (e_wnd e)) (e_probe e)\<rparr>" ?A B "pass_probes clk e"]
    by (simp add: after_control_def Let_def)
  have out: "e_output_queue e2 = e_output_queue E \<and> e_out_buf e2 = e_out_buf E"
    unfolding e2_def E_def pass_segments_def output_segments_append
    by (rule output_segments_cong) (simp_all add: cfg [unfolded d_def] d_def before_data_fields [OF inv] a)
  have flushed: "e_output_queue (flush_out_buf x) = e_output_queue (flush_out_buf y) \<and> e_out_buf (flush_out_buf x) = e_out_buf (flush_out_buf y)"
    if "e_output_queue x = e_output_queue y" "e_out_buf x = e_out_buf y" for x y
    using that by (simp add: flush_out_buf_def)
  have "pass_dead (clk 0) d = dead" unfolding dead_def by (rule same_core_pass(2) [OF core])
  then have "fst (flush B clk e) = (if dead then e2 else update_congestion_control (flush_out_buf
      (update_congestion_on_loss (pass_lost (clk 0) d) (pass_change (clk 0) d) (resend_limit d) e2)))"
    unfolding F Let_def e2_def dl same_core_pass(1) [OF core] by simp
  then show "e_output_queue (fst (flush B clk e)) = e_output_queue (if dead then E else flush_out_buf E)"
    "e_out_buf (fst (flush B clk e)) = e_out_buf (if dead then E else flush_out_buf E)"
    using out flushed [of "update_congestion_on_loss (pass_lost (clk 0) d) (pass_change (clk 0) d) (resend_limit d) e2" E]
    by simp_all
qed
text \<open>What every emission keeps, a flush keeps.\<close>

lemma flush_keeps_output:
  assumes "send_inv e" "P (output_segments B (pass_segments clk e) e)" "\<And>x. P x \<Longrightarrow> P (flush_out_buf x)"
    and "\<And>x y. e_output_queue x = e_output_queue y \<Longrightarrow> e_out_buf x = e_out_buf y \<Longrightarrow> e_config x = e_config y \<Longrightarrow> P y \<Longrightarrow> P x"
  shows "P (fst (flush B clk e))"
proof -
  let ?E = "output_segments B (pass_segments clk e) e"
  let ?F = "if pass_dead (clk 0) (move_to_send_buf (clk 0) e) then ?E else flush_out_buf ?E"
  have "P ?F" using assms(2,3) by simp
  moreover have "e_config (fst (flush B clk e)) = e_config ?F"
    using flush_effects(7) [where B = B and clk = clk, OF assms(1)] by (simp add: flush_out_buf_def)
  ultimately show ?thesis
    using assms(4) [OF flush_output_eq [OF assms(1)]] by blast
qed

context buf_codec
begin

lemma flush_emitted:
  assumes inv: "send_inv e"
  shows "emitted (fst (flush B clk e)) =
    emitted e @ concat (map (\<lambda>s. KcpSegment_encode B s []) (pass_segments clk e))"
  by (rule flush_keeps_output [OF inv])
    (simp_all add: emitted_output_segments emitted_flush_out_buf, simp add: emitted_def)

lemma flush_emitted_size:
  "send_inv e \<Longrightarrow> length (emitted (fst (flush B clk e))) = length (emitted e) + sum_list (map size (pass_segments clk e))"
  using segment_encode_length [of _ "[]"] by (simp add: flush_emitted length_concat o_def)

lemma flush_output_ok:
  assumes inv: "send_inv e" and ok: "mtu_ok e" "snd_queue_ok e" "snd_buf_ok e" "output_ok B e"
  shows "output_ok B (fst (flush B clk e))"
proof (rule flush_keeps_output [OF inv])
  show "output_ok B (output_segments B (pass_segments clk e) e)"
    by (rule output_segments_ok [OF ok(4)]) (rule pass_segments_fits [OF inv ok(1-3)])
qed (rule flush_out_buf_ok, assumption, simp add: output_ok_def)

end

section \<open>Timers\<close>

definition probe_ok :: "ProbeState \<Rightarrow> bool" where
  "probe_ok p \<longleftrightarrow> unat (p_wait p) = 0 \<or> 7000 \<le> unat (p_wait p) \<and> unat (p_wait p) \<le> 120000"

lemma probe_timer_wait:
  assumes "probe_ok p"
  shows "probe_ok (probe_timer now rmt p)"
    and "rmt = 0 \<Longrightarrow> 7000 \<le> unat (p_wait (probe_timer now rmt p)) \<and> unat (p_wait (probe_timer now rmt p)) \<le> 120000"
proof -
  have grow: "unat (w + w div 2) = unat w + unat w div 2" if "unat w \<le> 120000" for w :: u32
    using that by (subst unat_add_u32) (simp_all add: unat_div)
  have fits: "7000 \<le> unat (p_wait p) \<and> unat (p_wait p) \<le> 120000" if "p_wait p \<noteq> 0"
    using assms that by (auto simp: probe_ok_def unat_eq_0)
  have ge: "\<not> p_wait p < IKCP_PROBE_INIT" if "p_wait p \<noteq> 0"
    using fits [OF that] by (simp add: word_less_nat_alt)
  show *: "7000 \<le> unat (p_wait (probe_timer now rmt p)) \<and> unat (p_wait (probe_timer now rmt p)) \<le> 120000"
    if "rmt = 0"
    using that fits ge grow [of "p_wait p"] by (auto simp: probe_timer_def Let_def word_less_nat_alt)
  show "probe_ok (probe_timer now rmt p)"
    using * by (cases "rmt = 0") (auto simp: probe_ok_def probe_timer_def)
qed

lemma unat_deadline: "int (unat (deadline ts now)) = max (time_diff ts now) 0"
proof -
  have "time_diff ts now < 4294967296" using u32_unat_bound [of "ts - now"] by (simp add: time_diff_unat)
  then have "unat (deadline ts now) = nat (max (time_diff ts now) 0)"
    unfolding deadline_def by (intro i32_as_u32_nat) auto
  then show ?thesis by simp
qed

lemma deadline_small: "unat (deadline ts now) < 2147483648"
proof -
  have "max (time_diff ts now) 0 < 2147483648"
    using u32_unat_bound [of "ts - now"] by (auto simp: time_diff_unat)
  then show ?thesis using unat_deadline [of ts now] by simp
qed

text \<open>A time before the deadline: the test that \<open>flush\<close> makes is still negative.\<close>

lemma before_deadline:
  assumes "j < unat (deadline ts now)"
  shows "time_diff (now + word_of_nat j) ts < 0"
proof -
  have j: "j < 2147483648" using assms deadline_small [of ts now] by simp
  have "int j < time_diff ts now" using assms unat_deadline [of ts now] by simp
  then have ts: "unat (ts - now) < 2147483648" "j < unat (ts - now)"
    using u32_unat_bound [of "ts - now"] by (auto simp: time_diff_unat split: if_splits)
  have "time_diff (now + word_of_nat j) ts = int (unat (now + word_of_nat j - now)) - int (unat (ts - now))"
    using ts j by (intro time_diff_base) (simp_all add: unat_word_of_nat_u32)
  then show ?thesis using ts(2) j by (simp add: unat_word_of_nat_u32)
qed

text \<open>The minimum over the buffer.\<close>

lemma fold_min_le: "fold (\<lambda>seg nxt. min nxt (f seg)) segs (x :: u32) \<le> x"
proof (induction segs arbitrary: x)
  case (Cons t segs)
  have "fold (\<lambda>seg nxt. min nxt (f seg)) segs (min x (f t)) \<le> min x (f t)" by (rule Cons.IH)
  also have "\<dots> \<le> x" by (rule min.cobounded1)
  finally show ?case by simp
qed simp

lemma fold_min_le_elem: "s \<in> set segs \<Longrightarrow> fold (\<lambda>seg nxt. min nxt (f seg)) segs (x :: u32) \<le> f s"
proof (induction segs arbitrary: x)
  case (Cons t segs)
  have "fold (\<lambda>seg nxt. min nxt (f seg)) segs (min x (f t)) \<le> min x (f t)" by (rule fold_min_le)
  then have "fold (\<lambda>seg nxt. min nxt (f seg)) segs (min x (f t)) \<le> f t" by (rule order_trans) simp
  then show ?case using Cons by auto
qed simp

lemma fold_min_in: "fold (\<lambda>seg nxt. min nxt (f seg)) segs (x :: u32) \<in> insert x (f ` set segs)"
proof (induction segs arbitrary: x)
  case (Cons t segs)
  show ?case using Cons.IH [of "min x (f t)"] by (auto simp: min_def split: if_splits)
qed simp

section \<open>Properties\<close>

text \<open>A sender with one message queued and an acknowledgement pending, for the witnesses.\<close>

definition flush_engine :: KcpEngine where
  "flush_engine = (KcpEngine_new (\<lambda>_. 0) 7 KcpCoreConfig_default)
     \<lparr>e_snd_queue := [KcpSegment_push 0 7 0 [1, 2, 3]], e_ack_list := [(9, 4)]\<rparr>"

lemma flush_engine_ok:
  "send_inv flush_engine" "una_synced flush_engine" "mtu_ok flush_engine" "snd_queue_ok flush_engine"
  "snd_buf_ok flush_engine" "output_ok B flush_engine" "cwnd_inv flush_engine" "move_count flush_engine = 1"
  by (simp_all add: flush_engine_def send_inv_def in_flight_def una_synced_def mtu_ok_def snd_queue_ok_def
      snd_buf_ok_def data_seg_ok_def output_ok_def cwnd_inv_def KcpEngine_new_def KcpCoreConfig_default_def
      KcpSegment_push_def KcpSegment_new_def KcpHeader_new_def mss_def move_count_def effective_cwnd_def)

text \<open>
  C12. A flush pass emits exactly its segments: one acknowledgement per pending entry, in order, then
  the due window probes, then the selected data segments up to the first one at its retry limit,
  appended to what was emitted before; acknowledgements are no longer pending afterwards, and a
  pass that succeeds leaves nothing in the datagram under construction, so all of it is in
  \<open>output_queue\<close>.
\<close>

theorem flush_emits_exactly:
  assumes "buf_codec B" "send_inv e"
  shows "emitted (fst (flush B clk e)) = emitted e @ concat (map (\<lambda>s. KcpSegment_encode B s [])
      (pass_acks clk e @ pass_probes clk e @
       upto_dead (e_dead_link e) (pass_selected (clk 0) (move_to_send_buf (clk 0) e))))
    \<and> length (pass_acks clk e) = length (e_ack_list e) \<and> e_ack_list (fst (flush B clk e)) = []
    \<and> (snd (flush B clk e) = Ok () \<longrightarrow>
         concat (e_output_queue (fst (flush B clk e))) = emitted (fst (flush B clk e)))"
proof -
  have acks: "length (ack_segs clk i c w u l) = length l" for i c w u l
    by (induction l arbitrary: i) simp_all
  show ?thesis
    using buf_codec.flush_emitted [OF assms, of clk] flush_effects [where B = B and clk = clk, OF assms(2)]
    by (auto simp: pass_segments_def pass_acks_def acks emitted_def [of "fst (flush B clk e)"] split: if_splits)
qed

lemma mark_new_segment: "snd (mark_segment e now r x (number_segment t e' s)) = First"
  by (simp add: mark_segment_def number_segment_def Let_def)

lemma flush_engine_fields:
  "e_snd_queue flush_engine = [KcpSegment_push 0 7 0 [1, 2, 3]]" "e_snd_buf flush_engine = []"
  "e_ack_list flush_engine = [(9, 4)]" "emitted flush_engine = []" "pass_probes clk flush_engine = []"
  "e_dead_link flush_engine = 20" "p_flags (e_probe flush_engine) = 0"
  by (simp_all add: flush_engine_def KcpEngine_new_def emitted_def pass_probes_def probe_timer_def
      ProbeState_default_def KcpCoreConfig_default_def)

lemma flush_engine_selected:
  "map s_data (pass_selected 5 (move_to_send_buf 5 flush_engine)) = [[1, 2, 3]]"
  "map s_xmit (pass_selected 5 (move_to_send_buf 5 flush_engine)) = [1]"
  by (simp_all add: pass_selected_def selected_def move_to_send_buf_eq [OF flush_engine_ok(1)]
      flush_engine_ok(8) flush_engine_fields mark_new_segment)
    (simp_all add: mark_segment_def number_segment_def KcpSegment_push_def KcpSegment_new_def stamp_def Let_def)

lemma flush_engine_one:
  obtains s where "pass_selected 5 (move_to_send_buf 5 flush_engine) = [s]" "length (s_data s) = 3" "s_xmit s = 1"
  using flush_engine_selected by (cases "pass_selected 5 (move_to_send_buf 5 flush_engine)") auto

theorem flush_emits_exactly_witness:
  "length (emitted (fst (flush le_buf_api (\<lambda>_. 5) flush_engine))) = 51"
proof -
  obtain s where s: "pass_selected 5 (move_to_send_buf 5 flush_engine) = [s]" "length (s_data s) = 3" "s_xmit s = 1"
    by (rule flush_engine_one)
  obtain a where a: "pass_acks (\<lambda>_. 5) flush_engine = [a]" "length (s_data a) = 0"
    by (simp add: pass_acks_def flush_engine_fields make_ack_def KcpSegment_ack_def KcpSegment_new_def Let_def)
  have len: "length (KcpSegment_encode le_buf_api x []) = 24 + length (s_data x)" for x
    using le.segment_encode_length [of x "[]"] by (simp add: KcpSegment_size_def)
  show ?thesis
    using flush_emits_exactly [OF le.buf_codec_axioms flush_engine_ok(1), of "\<lambda>_. 5"] s a
    by (simp add: flush_engine_fields len)
qed

text \<open>
  Datagrams respect the MTU: when the queued and buffered segments are at most one segment size
  (which \<open>send\<close> guarantees), every datagram a flush pass puts on the output queue, and the one under
  construction, is a concatenation of whole segments with correct length fields and is no longer
  than the configured MTU, also when the pass fails.
\<close>

theorem flush_datagrams_fit_mtu:
  assumes "buf_codec B" "send_inv e" "mtu_ok e" "snd_queue_ok e" "snd_buf_ok e" "output_ok B e"
  shows "\<forall>d \<in> insert (e_out_buf (fst (flush B clk e))) (set (e_output_queue (fst (flush B clk e)))).
      length d \<le> unat (c_mtu (e_config e))
      \<and> (\<exists>segs. d = concat (map (\<lambda>s. KcpSegment_encode B s []) segs)
           \<and> (\<forall>s \<in> set segs. unat (h_len (s_header s)) = length (s_data s)))"
proof -
  have "output_ok B (fst (flush B clk e))" by (rule buf_codec.flush_output_ok [OF assms])
  moreover have "e_config (fst (flush B clk e)) = e_config e"
    using flush_effects [where B = B and clk = clk, OF assms(2)] by blast
  ultimately show ?thesis by (auto simp: output_ok_def packed_def)
qed

theorem flush_datagrams_fit_mtu_witness:
  "length (e_out_buf (fst (flush le_buf_api (\<lambda>_. 5) flush_engine))) \<le> 1400"
proof -
  have "unat (c_mtu (e_config flush_engine)) = 1400"
    by (simp add: flush_engine_def KcpEngine_new_def KcpCoreConfig_default_def)
  with flush_datagrams_fit_mtu [OF le.buf_codec_axioms flush_engine_ok(1,3,4,5,6), of "\<lambda>_. 5"]
  show ?thesis by simp
qed

lemma numbered_sn: "map s_sn (numbered current e segs) = map (\<lambda>k. e_snd_nxt e + word_of_nat k) [0..<length segs]"
proof (induction segs arbitrary: e)
  case (Cons seg segs)
  have "map (\<lambda>k. e_snd_nxt e + word_of_nat k) [0..<length (seg # segs)] =
      e_snd_nxt e # map (\<lambda>k. e_snd_nxt e + word_of_nat (Suc k)) [0..<length segs]"
    by (simp add: map_upt_Suc del: upt_Suc)
  then show ?case by (simp add: Cons.IH add.assoc)
qed simp

text \<open>
  C22. A flush pass keeps the send window: it moves \<open>n\<close> segments from the send queue, as many as the
  smaller of send window, remote window and (unless congestion control is off) congestion window
  allows, so the number in flight never exceeds the send window and grows only up to the effective
  window. The moved segments take the numbers \<open>snd_nxt\<close>, \<open>snd_nxt + 1\<close>, ..., behind the buffered ones,
  whose numbers do not change, and \<open>snd_nxt\<close> advances by \<open>n\<close>; no payload is lost or reordered on the
  way, the buffer stays ordered by sequence number within the window, and \<open>snd_una\<close> does not move and
  stays its first number.
\<close>

theorem flush_respects_window:
  assumes "send_inv e" "una_synced e"
  shows "let e' = fst (flush B clk e); n = min (length (e_snd_queue e)) (unat (effective_cwnd e) - in_flight e) in
    in_flight e' = in_flight e + n
    \<and> in_flight e' \<le> max (in_flight e) (unat (effective_cwnd e))
    \<and> length (e_snd_buf e') \<le> in_flight e' \<and> in_flight e' \<le> unat (w_snd (e_wnd e))
    \<and> map s_sn (e_snd_buf e') = map s_sn (e_snd_buf e) @ map (\<lambda>k. e_snd_nxt e + word_of_nat k) [0..<n]
    \<and> e_snd_nxt e' = e_snd_nxt e + word_of_nat n \<and> e_snd_una e' = e_snd_una e
    \<and> e_snd_queue e' = drop n (e_snd_queue e)
    \<and> map s_data (e_snd_buf e' @ e_snd_queue e') = map s_data (e_snd_buf e @ e_snd_queue e)
    \<and> send_inv e' \<and> una_synced e'"
proof -
  let ?e' = "fst (flush B clk e)"
  note inv = flush_invariants [where B = B and clk = clk, OF assms(1)]
  note eff = flush_effects [where B = B and clk = clk, OF assms(1)]
  note mv = move_to_send_buf_eq [OF assms(1)]
  have data: "map s_data (e_snd_buf ?e' @ e_snd_queue ?e') = map s_data (e_snd_buf e @ e_snd_queue e)"
    by (rule flush_keeps_data [OF assms(1)])
  have len: "length (e_snd_buf ?e') \<le> in_flight ?e'"
    using inv(1) unfolding send_inv_def by (auto intro: sn_window_length)
  have "length (take (move_count e) (e_snd_queue e)) = move_count e" by (simp add: move_count_def)
  then have "map s_sn (e_snd_buf ?e') = map s_sn (e_snd_buf e) @ map (\<lambda>k. e_snd_nxt e + word_of_nat k) [0..<move_count e]"
    "e_snd_nxt ?e' = e_snd_nxt e + word_of_nat (move_count e)" "e_snd_queue ?e' = drop (move_count e) (e_snd_queue e)"
    using numbered_sn [of "clk 0" e "take (move_count e) (e_snd_queue e)"]
    by (simp_all add: eff(2,3,4) mv comp_def)
  then show ?thesis
    using inv(1) inv(2) [OF assms(2)] inv(4) move_count_le [OF assms(1)] data len eff(5)
    unfolding Let_def move_count_def [symmetric] by auto
qed

theorem flush_respects_window_witness:
  "in_flight (fst (flush le_buf_api (\<lambda>_. 5) flush_engine)) = 1
    \<and> map s_sn (e_snd_buf (fst (flush le_buf_api (\<lambda>_. 5) flush_engine))) = [0]"
proof -
  have "in_flight flush_engine = 0" "e_snd_nxt flush_engine = 0"
    by (simp_all add: in_flight_def flush_engine_def KcpEngine_new_def)
  with flush_respects_window [OF flush_engine_ok(1,2), of le_buf_api "\<lambda>_. 5"] flush_engine_ok(8)
  show ?thesis by (simp add: move_count_def Let_def flush_engine_fields)
qed

lemma map_filter_nth: "map f (filter Q xs) = map ((!) (map f xs)) (filter (\<lambda>i. Q (xs ! i)) [0..<length xs])"
proof -
  have "filter Q xs = map ((!) xs) (filter (\<lambda>i. Q (xs ! i)) [0..<length xs])"
    using filter_map [of Q "(!) xs" "[0..<length xs]"] by (simp add: map_nth comp_def)
  then show ?thesis by (auto intro!: map_cong)
qed

text \<open>When a buffered segment is due in a pass at time \<open>now\<close>, by the fields of the segment.\<close>

definition due_now :: "KcpEngine \<Rightarrow> Timestamp \<Rightarrow> KcpSegment \<Rightarrow> bool" where
  "due_now e now s \<longleftrightarrow> s_xmit s = 0 \<or> 0 \<le> time_diff now (s_resendts s)
     \<or> ((if n_resend (c_nodelay (e_config e)) > 0 then n_resend (c_nodelay (e_config e)) else -1) \<le> s_fastack s
        \<and> s_xmit s \<le> 5)"

lemma mark_due: "snd (mark_segment e now (resend_limit e) x s) \<noteq> Keep \<longleftrightarrow> due_now e now s"
  by (simp add: mark_segment_def due_now_def resend_limit_def Let_def)

lemma mark_result:
  "due_now e now s \<Longrightarrow> let s' = fst (mark_segment e now (resend_limit e) x s) in s_xmit s' = s_xmit s + 1
     \<and> h_ts (s_header s') = now \<and> h_una (s_header s') = e_rcv_nxt e \<and> h_wnd (s_header s') = ucast (wnd_unused e)"
  "\<not> due_now e now s \<Longrightarrow> fst (mark_segment e now (resend_limit e) x s) = s"
  by (auto simp: mark_segment_def due_now_def resend_limit_def stamp_def Let_def)

lemma due_now_cong: "e_config e' = e_config e \<Longrightarrow> due_now e' now s = due_now e now s"
  by (simp add: due_now_def)

lemma numbered_unsent: "s \<in> set (numbered now e segs) \<Longrightarrow> s_xmit s = 0"
  by (induction segs arbitrary: e) (auto simp: number_segment_def)

lemma upto_dead_all: "\<forall>s\<in>set segs. \<not> l \<le> s_xmit s \<Longrightarrow> upto_dead l segs = segs"
  by (induction segs) auto

lemma upto_dead_prefix: "\<exists>rest. segs = upto_dead l segs @ rest"
  by (induction segs) auto

text \<open>The places of the send buffer after a pass that hold segments the pass sends.\<close>

definition sent_at :: "KcpEngine \<Rightarrow> Timestamp \<Rightarrow> nat \<Rightarrow> bool" where
  "sent_at e now i \<longleftrightarrow> length (e_snd_buf e) \<le> i \<or> due_now e now (e_snd_buf e ! i)"

lemma moved_nth:
  assumes "send_inv e" "i < length (e_snd_buf (move_to_send_buf now e))"
  shows "i < length (e_snd_buf e) \<Longrightarrow> e_snd_buf (move_to_send_buf now e) ! i = e_snd_buf e ! i"
    "\<not> i < length (e_snd_buf e) \<Longrightarrow> s_xmit (e_snd_buf (move_to_send_buf now e) ! i) = 0"
    "due_now (move_to_send_buf now e) now (e_snd_buf (move_to_send_buf now e) ! i) = sent_at e now i"
proof -
  define new where "new = numbered now e (take (move_count e) (e_snd_queue e))"
  note mv = move_to_send_buf_eq [OF assms(1), of now, folded new_def]
  show old: "e_snd_buf (move_to_send_buf now e) ! i = e_snd_buf e ! i" if "i < length (e_snd_buf e)"
    using that by (simp add: mv nth_append)
  show fresh: "s_xmit (e_snd_buf (move_to_send_buf now e) ! i) = 0" if "\<not> i < length (e_snd_buf e)"
  proof -
    have "new ! (i - length (e_snd_buf e)) \<in> set new" using that assms(2) by (intro nth_mem) (simp add: mv)
    then have "s_xmit (new ! (i - length (e_snd_buf e))) = 0" unfolding new_def by (rule numbered_unsent)
    then show ?thesis using that by (simp add: mv nth_append)
  qed
  have same: "due_now (move_to_send_buf now e) now s = due_now e now s" for s by (rule due_now_cong) (simp add: mv)
  show "due_now (move_to_send_buf now e) now (e_snd_buf (move_to_send_buf now e) ! i) = sent_at e now i"
  proof (cases "i < length (e_snd_buf e)")
    case True
    then show ?thesis unfolding same old [OF True] by (simp add: sent_at_def)
  next
    case False
    then show ?thesis using fresh [OF False] unfolding same by (simp add: sent_at_def due_now_def)
  qed
qed

lemma flush_selected:
  assumes "send_inv e"
  shows "pass_selected (clk 0) (move_to_send_buf (clk 0) e) = map ((!) (e_snd_buf (fst (flush B clk e))))
      (filter (sent_at e (clk 0)) [0..<length (e_snd_buf (fst (flush B clk e)))])"
proof -
  let ?e' = "fst (flush B clk e)" and ?e1 = "move_to_send_buf (clk 0) e"
  let ?mark = "mark_segment ?e1 (clk 0) (resend_limit ?e1) (rto_slack ?e1)"
  have buf: "e_snd_buf ?e' = map (\<lambda>s. fst (?mark s)) (e_snd_buf ?e1)"
    by (rule flush_effects(2) [where B = B and clk = clk, OF assms])
  have "pass_selected (clk 0) ?e1 =
      map ((!) (e_snd_buf ?e')) (filter (\<lambda>i. snd (?mark (e_snd_buf ?e1 ! i)) \<noteq> Keep) [0..<length (e_snd_buf ?e1)])"
    unfolding pass_selected_def selected_def buf by (rule map_filter_nth)
  moreover have "filter (\<lambda>i. snd (?mark (e_snd_buf ?e1 ! i)) \<noteq> Keep) [0..<length (e_snd_buf ?e1)] =
      filter (sent_at e (clk 0)) [0..<length (e_snd_buf ?e1)]"
    by (rule filter_cong [OF refl]) (simp add: mark_due moved_nth(3) [OF assms])
  ultimately show ?thesis using buf by simp
qed

lemma flush_emits_selected:
  assumes "buf_codec B" "send_inv e"
  obtains data rest where "pass_selected (clk 0) (move_to_send_buf (clk 0) e) = data @ rest"
    "snd (flush B clk e) = Ok () \<Longrightarrow> rest = []"
    "emitted (fst (flush B clk e)) =
       emitted e @ concat (map (\<lambda>s. KcpSegment_encode B s []) (pass_acks clk e @ pass_probes clk e @ data))"
proof -
  let ?S = "pass_selected (clk 0) (move_to_send_buf (clk 0) e)"
  obtain rest where rest: "?S = upto_dead (e_dead_link e) ?S @ rest" using upto_dead_prefix by blast
  have "rest = []" if "snd (flush B clk e) = Ok ()"
  proof -
    have "\<forall>s\<in>set ?S. \<not> e_dead_link e \<le> s_xmit s"
      using that flush_effects(1) [where B = B and clk = clk, OF assms(2)]
      by (auto simp: pass_dead_def move_to_send_buf_eq [OF assms(2)] split: if_splits)
    then have "upto_dead (e_dead_link e) ?S = ?S" by (rule upto_dead_all)
    then show ?thesis using rest by simp
  qed
  with rest show thesis
    using that [of "upto_dead (e_dead_link e) ?S" rest] buf_codec.flush_emitted [OF assms, of clk]
    by (simp add: pass_segments_def)
qed

text \<open>
  C27. Which data segments a pass sends (\<open>sent_at\<close>). A buffered segment is sent exactly when it was never sent (so
  are all that enter the buffer in this pass), its retransmission time has come (wrapping clock), or
  it was skipped by as many acknowledgements as the resend threshold and was sent at most five times.
  Behind the acknowledgements and probes the pass emits, in buffer order, these segments as they stand
  in the buffer after the pass, all of them when it succeeds and a prefix of them when it fails on a
  dead link. A segment that is due, sent or not, has its transmit count raised by one and carries the
  current time, window and \<open>rcv_nxt\<close>; every other segment is left as it was, and payload, sequence,
  conversation and fragment numbers never change.
\<close>

theorem flush_selects_due_segments:
  assumes "buf_codec B" "send_inv e"
  shows "let e' = fst (flush B clk e); old = e_snd_buf e; sent = sent_at e (clk 0);
      out = map ((!) (e_snd_buf e')) (filter sent [0..<length (e_snd_buf e')]) in
    (\<exists>data rest. out = data @ rest \<and> (snd (flush B clk e) = Ok () \<longrightarrow> rest = [])
       \<and> emitted e' = emitted e @ concat (map (\<lambda>s. KcpSegment_encode B s []) (pass_acks clk e @ pass_probes clk e @ data)))
    \<and> length old \<le> length (e_snd_buf e')
    \<and> (\<forall>i < length (e_snd_buf e'). let s' = e_snd_buf e' ! i in
         (sent i \<longrightarrow> s_xmit s' = (if i < length old then s_xmit (old ! i) + 1 else 1) \<and> h_ts (s_header s') = clk 0
            \<and> h_una (s_header s') = e_rcv_nxt e \<and> h_wnd (s_header s') = ucast (wnd_unused e))
         \<and> (\<not> sent i \<longrightarrow> s' = old ! i)
         \<and> (i < length old \<longrightarrow> (s_sn s', s_frg s', s_data s', h_conv (s_header s')) =
              (s_sn (old ! i), s_frg (old ! i), s_data (old ! i), h_conv (s_header (old ! i)))))"
proof -
  let ?e' = "fst (flush B clk e)" and ?e1 = "move_to_send_buf (clk 0) e"
  let ?mark = "mark_segment ?e1 (clk 0) (resend_limit ?e1) (rto_slack ?e1)"
  have buf: "e_snd_buf ?e' = map (\<lambda>s. fst (?mark s)) (e_snd_buf ?e1)"
    by (rule flush_effects(2) [where B = B and clk = clk, OF assms(2)])
  have fields: "e_rcv_nxt ?e1 = e_rcv_nxt e" "wnd_unused ?e1 = wnd_unused e" "length (e_snd_buf e) \<le> length (e_snd_buf ?e')"
    by (simp_all add: buf move_to_send_buf_eq [OF assms(2)] wnd_unused_def)
  have out: "\<exists>data rest. map ((!) (e_snd_buf ?e')) (filter (sent_at e (clk 0)) [0..<length (e_snd_buf ?e')]) = data @ rest
      \<and> (snd (flush B clk e) = Ok () \<longrightarrow> rest = [])
      \<and> emitted ?e' = emitted e @ concat (map (\<lambda>s. KcpSegment_encode B s []) (pass_acks clk e @ pass_probes clk e @ data))"
    using flush_emits_selected [OF assms, of clk] unfolding flush_selected [OF assms(2), where B = B] by metis
  have each: "let s' = e_snd_buf ?e' ! i; old = e_snd_buf e in
         (sent_at e (clk 0) i \<longrightarrow> s_xmit s' = (if i < length old then s_xmit (old ! i) + 1 else 1) \<and> h_ts (s_header s') = clk 0
            \<and> h_una (s_header s') = e_rcv_nxt e \<and> h_wnd (s_header s') = ucast (wnd_unused e))
         \<and> (\<not> sent_at e (clk 0) i \<longrightarrow> s' = old ! i)
         \<and> (i < length old \<longrightarrow> (s_sn s', s_frg s', s_data s', h_conv (s_header s')) =
              (s_sn (old ! i), s_frg (old ! i), s_data (old ! i), h_conv (s_header (old ! i))))"
    if "i < length (e_snd_buf ?e')" for i
  proof -
    have i: "i < length (e_snd_buf ?e1)" "e_snd_buf ?e' ! i = fst (?mark (e_snd_buf ?e1 ! i))" using that by (simp_all add: buf)
    note at = moved_nth [OF assms(2) i(1)]
    show ?thesis
      using mark_result [of ?e1 "clk 0" "e_snd_buf ?e1 ! i" "rto_slack ?e1"] at
      unfolding i(2) fields Let_def by (cases "i < length (e_snd_buf e)") (auto simp: sent_at_def)
  qed
  with out fields(3) show ?thesis unfolding Let_def by blast
qed

theorem flush_selects_due_segments_witness:
  "\<exists>data rest. [e_snd_buf (fst (flush le_buf_api (\<lambda>_. 5) flush_engine)) ! 0] = data @ rest
     \<and> emitted (fst (flush le_buf_api (\<lambda>_. 5) flush_engine)) =
         concat (map (\<lambda>s. KcpSegment_encode le_buf_api s []) (pass_acks (\<lambda>_. 5) flush_engine @ data))
     \<and> s_xmit (e_snd_buf (fst (flush le_buf_api (\<lambda>_. 5) flush_engine)) ! 0) = 1"
proof -
  have "length (e_snd_buf (fst (flush le_buf_api (\<lambda>_. 5) flush_engine))) = 1"
    using flush_effects(2) [where B = le_buf_api and clk = "\<lambda>_. 5", OF flush_engine_ok(1)]
    by (simp add: move_to_send_buf_eq [OF flush_engine_ok(1)] flush_engine_ok(8) flush_engine_fields)
  with flush_selects_due_segments [OF le.buf_codec_axioms flush_engine_ok(1), of "\<lambda>_. 5"]
  show ?thesis by (simp add: Let_def flush_engine_fields sent_at_def) blast
qed

text \<open>
  C28. Dead links. A pass fails only with \<open>ConnectionLost\<close>, and exactly when a segment it sends has
  reached the retry limit; the engine then reports \<open>is_dead\<close>. A pass that succeeds leaves a
  congestion window of at least one segment.
\<close>

theorem flush_fails_iff_dead_segment:
  assumes "send_inv e"
  shows "(snd (flush B clk e) = Err core_connection_lost \<longleftrightarrow>
      (\<exists>s \<in> set (pass_selected (clk 0) (move_to_send_buf (clk 0) e)). e_dead_link e \<le> s_xmit s))
    \<and> (snd (flush B clk e) \<noteq> Ok () \<longrightarrow>
        snd (flush B clk e) = Err core_connection_lost \<and> is_dead (fst (flush B clk e)))
    \<and> (snd (flush B clk e) = Ok () \<longrightarrow> 1 \<le> w_cwnd (e_wnd (fst (flush B clk e))))"
proof -
  note eff = flush_effects [where B = B and clk = clk, OF assms]
  have dl: "e_dead_link (move_to_send_buf (clk 0) e) = e_dead_link e"
    by (simp add: move_to_send_buf_eq [OF assms])
  have "is_dead (fst (flush B clk e))" if "pass_dead (clk 0) (move_to_send_buf (clk 0) e)"
    using that unfolding is_dead_def eff
    by (auto simp: pass_dead_def pass_selected_def selected_def list_ex_iff dl)
  then show ?thesis
    using eff(1) eff(19) by (auto simp: pass_dead_def dl split: if_splits)
qed

theorem flush_fails_iff_dead_segment_witness:
  "snd (flush le_buf_api (\<lambda>_. 5) (flush_engine\<lparr>e_dead_link := 1\<rparr>)) = Err core_connection_lost"
proof -
  have inv: "send_inv (flush_engine\<lparr>e_dead_link := 1\<rparr>)"
    using flush_engine_ok(1) by (simp add: send_inv_def in_flight_def)
  have mc: "move_count (flush_engine\<lparr>e_dead_link := 1\<rparr>) = move_count flush_engine"
    by (simp add: move_count_def effective_cwnd_def in_flight_def Let_def)
  have nc: "numbered 5 (flush_engine\<lparr>e_dead_link := 1\<rparr>) segs = numbered 5 flush_engine segs" for segs
    by (rule numbered_cong) simp_all
  have core: "move_to_send_buf 5 (flush_engine\<lparr>e_dead_link := 1\<rparr>) = (move_to_send_buf 5 flush_engine)\<lparr>e_dead_link := 1\<rparr>"
    by (simp add: move_to_send_buf_eq [OF inv] move_to_send_buf_eq [OF flush_engine_ok(1)] mc nc)
  have "pass_selected 5 (E\<lparr>e_dead_link := 1\<rparr>) = pass_selected 5 E" for E
  proof -
    have "mark_segment (E\<lparr>e_dead_link := 1\<rparr>) 5 r x s = mark_segment E 5 r x s" for r x s
      by (rule mark_segment_cong) simp_all
    then show ?thesis by (simp add: pass_selected_def selected_def resend_limit_def rto_slack_def)
  qed
  moreover obtain s where "pass_selected 5 (move_to_send_buf 5 flush_engine) = [s]" "s_xmit s = 1"
    by (rule flush_engine_one)
  ultimately have "pass_selected 5 (move_to_send_buf 5 (flush_engine\<lparr>e_dead_link := 1\<rparr>)) = [s]" "s_xmit s = 1"
    unfolding core by simp_all
  then have "\<exists>s\<in>set (pass_selected 5 (move_to_send_buf 5 (flush_engine\<lparr>e_dead_link := 1\<rparr>))).
      e_dead_link (flush_engine\<lparr>e_dead_link := 1\<rparr>) \<le> s_xmit s" by simp
  then show ?thesis
    using conjunct1 [OF flush_fails_iff_dead_segment [OF inv, of le_buf_api "\<lambda>_. 5"]] by blast
qed

lemma fold_min_Min: "fold (\<lambda>seg nxt. min nxt (f seg)) segs (x :: u32) = Min (insert x (f ` set segs))"
proof (induction segs arbitrary: x)
  case (Cons t segs)
  have "Min (insert (min x (f t)) (f ` set segs)) = Min (insert x (insert (f t) (f ` set segs)))"
    by (cases "set segs = {}") (simp_all add: min.assoc)
  then show ?case by (simp add: Cons.IH)
qed simp

text \<open>The moments a pass is scheduled for: every retransmission, and the window probe once it is armed.\<close>

definition deadlines :: "KcpEngine \<Rightarrow> Timestamp set" where
  "deadlines e = s_resendts ` set (e_snd_buf e)
     \<union> (if w_rmt (e_wnd e) = 0 \<and> p_ts (e_probe e) \<noteq> 0 then {p_ts (e_probe e)} else {})"

lemma deadline_not_max: "deadline t now \<noteq> -1"
  using deadline_small [of t now] by (auto simp: unsigned_minus_1_eq_mask mask_eq_exp_minus_1)

lemma check_fold:
  "(if w_rmt (e_wnd e) = 0 \<and> p_ts (e_probe e) \<noteq> 0
      then min (fold (\<lambda>seg nxt. min nxt (deadline (s_resendts seg) now)) (e_snd_buf e) (-1)) (deadline (p_ts (e_probe e)) now)
      else fold (\<lambda>seg nxt. min nxt (deadline (s_resendts seg) now)) (e_snd_buf e) (-1)) =
    Min (insert (-1) ((\<lambda>t. deadline t now) ` deadlines e))"
proof (cases "w_rmt (e_wnd e) = 0 \<and> p_ts (e_probe e) \<noteq> 0")
  case True
  then have "insert (-1) ((\<lambda>t. deadline t now) ` deadlines e) =
      insert (deadline (p_ts (e_probe e)) now) (insert (-1) ((\<lambda>s. deadline (s_resendts s) now) ` set (e_snd_buf e)))"
    by (auto simp: deadlines_def)
  then show ?thesis using True by (simp add: fold_min_Min min.commute)
next
  case False
  then have "(\<lambda>t. deadline t now) ` deadlines e = (\<lambda>s. deadline (s_resendts s) now) ` set (e_snd_buf e)"
    by (auto simp: deadlines_def)
  then show ?thesis using False by (simp only: fold_min_Min if_False)
qed

lemma check_cases:
  assumes "e_ack_list e = []" "p_flags (e_probe e) = 0"
  shows "deadlines e = {} \<Longrightarrow> check now e = 30000"
    "deadlines e \<noteq> {} \<Longrightarrow> check now e = Min ((\<lambda>t. deadline t now) ` deadlines e)"
proof -
  let ?D = "(\<lambda>t. deadline t now) ` deadlines e"
  have chk: "check now e = (if Min (insert (-1) ?D) = -1 then 30000 else Min (insert (-1) ?D))"
    unfolding check_def Let_def check_fold using assms by simp
  then show "deadlines e = {} \<Longrightarrow> check now e = 30000" by simp
  assume D: "deadlines e \<noteq> {}"
  have fin: "finite (deadlines e)" by (simp add: deadlines_def)
  then have "Min (insert (-1) ?D) = Min ?D" using D by (simp add: word_order.extremum min_absorb2)
  moreover have "Min ?D \<in> ?D" using fin D by (intro Min_in) simp_all
  then have "Min ?D \<noteq> -1" using deadline_not_max by (metis imageE)
  ultimately show "check now e = Min ?D" using chk by simp
qed

text \<open>
  C30. \<open>check\<close> is the time to the next pass. It is 0 when an acknowledgement or a probe is waiting;
  otherwise it is the idle value of 30 seconds exactly when nothing is scheduled, and else the time
  to the earliest retransmission or armed window probe (0 when that has come), so that at every
  moment before it none of them is due.
\<close>

theorem check_is_next_deadline:
  "if e_ack_list e \<noteq> [] \<or> p_flags (e_probe e) \<noteq> 0 then check now e = 0
   else if deadlines e = {} then check now e = 30000
   else int (unat (check now e)) = Min ((\<lambda>t. max (time_diff t now) 0) ` deadlines e)
     \<and> (\<forall>t \<in> deadlines e. \<forall>j < unat (check now e). time_diff (now + word_of_nat j) t < 0)"
proof -
  have fin: "finite ((\<lambda>t. deadline t now) ` deadlines e)" by (simp add: deadlines_def)
  have "int (unat (check now e)) = Min ((\<lambda>t. max (time_diff t now) 0) ` deadlines e)
      \<and> (\<forall>t \<in> deadlines e. \<forall>j < unat (check now e). time_diff (now + word_of_nat j) t < 0)"
    if "e_ack_list e = []" "p_flags (e_probe e) = 0" and D: "deadlines e \<noteq> {}"
  proof -
    note chk = check_cases(2) [OF that, of now]
    have le: "check now e \<le> deadline t now" if "t \<in> deadlines e" for t
      unfolding chk by (rule Min_le [OF fin]) (use that in blast)
    have "check now e \<in> (\<lambda>t. deadline t now) ` deadlines e" unfolding chk using fin D by (intro Min_in) simp_all
    then have "int (unat (check now e)) \<in> (\<lambda>t. max (time_diff t now) 0) ` deadlines e" using unat_deadline by force
    moreover have "int (unat (check now e)) \<le> y" if y: "y \<in> (\<lambda>t. max (time_diff t now) 0) ` deadlines e" for y
    proof -
      obtain t where "t \<in> deadlines e" "y = int (unat (deadline t now))" using y unat_deadline by auto
      then show ?thesis using le by (simp add: word_le_nat_alt)
    qed
    ultimately have "Min ((\<lambda>t. max (time_diff t now) 0) ` deadlines e) = int (unat (check now e))"
      by (intro Min_eqI) (simp_all add: deadlines_def)
    moreover have "\<forall>t \<in> deadlines e. \<forall>j < unat (check now e). time_diff (now + word_of_nat j) t < 0"
      using le before_deadline by (meson order_less_le_trans word_le_nat_alt)
    ultimately show ?thesis by simp
  qed
  then show ?thesis using check_cases(1) [of e now] by (auto simp: check_def)
qed

theorem check_is_next_deadline_witness:
  "check 100 (flush_engine\<lparr>e_ack_list := [], e_snd_buf := [(ack_seg 0)\<lparr>s_resendts := 300\<rparr>]\<rparr>) = 200
    \<and> check 100 flush_engine = 0 \<and> check 100 (flush_engine\<lparr>e_ack_list := []\<rparr>) = 30000"
proof -
  let ?e = "flush_engine\<lparr>e_ack_list := [], e_snd_buf := [(ack_seg 0)\<lparr>s_resendts := 300\<rparr>]\<rparr>"
  have "w_rmt (e_wnd flush_engine) \<noteq> 0" by (simp add: flush_engine_def KcpEngine_new_def KcpCoreConfig_default_def)
  then have D: "deadlines ?e = {300}" "deadlines (flush_engine\<lparr>e_ack_list := []\<rparr>) = {}"
    by (simp_all add: deadlines_def flush_engine_fields)
  have "int (unat (check 100 ?e)) = 200"
    using check_is_next_deadline [of ?e 100] D by (simp add: flush_engine_fields time_diff_unat)
  then have "check 100 ?e = 200" by (simp add: word_unat_eq_iff)
  then show ?thesis
    using check_is_next_deadline [of flush_engine 100] D
      check_is_next_deadline [of "flush_engine\<lparr>e_ack_list := []\<rparr>" 100] by (simp add: flush_engine_fields)
qed

text \<open>
  Congestion response of a pass that succeeds: after a retransmission by timeout the congestion
  window is one segment (\<open>incr\<close> one segment size) and the slow start threshold half the old window
  but at least 2; after fast retransmissions alone it is half the number in flight, at least 2, plus
  the resend threshold; with neither, a window of at least one segment stays as it was.
\<close>

theorem flush_congestion_response:
  assumes "send_inv e" "snd (flush B clk e) = Ok ()"
  shows "let e1 = move_to_send_buf (clk 0) e; w = e_wnd e; w' = e_wnd (fst (flush B clk e));
             half_flight = max (e_snd_nxt e1 - e_snd_una e1) 4 div 2 in
    (pass_lost (clk 0) e1 \<longrightarrow> w_cwnd w' = 1 \<and> w_incr w' = mss e \<and> 2 \<le> w_ssthresh w'
       \<and> (\<not> pass_change (clk 0) e1 \<longrightarrow> w_ssthresh w' = max (w_cwnd w div 2) 2))
    \<and> (\<not> pass_lost (clk 0) e1 \<and> pass_change (clk 0) e1 \<and> half_flight + resend_limit e1 \<noteq> 0 \<longrightarrow>
        w_ssthresh w' = half_flight \<and> w_cwnd w' = half_flight + resend_limit e1
        \<and> w_incr w' = w_cwnd w' * mss e)
    \<and> (\<not> pass_lost (clk 0) e1 \<and> \<not> pass_change (clk 0) e1 \<and> w_cwnd w \<noteq> 0 \<longrightarrow> w' = w)"
proof -
  define e1 where "e1 = move_to_send_buf (clk 0) e"
  note eff = flush_effects [where B = B and clk = clk, OF assms(1), folded e1_def]
  have "\<not> pass_dead (clk 0) e1" using eff(1) assms(2) by (auto split: if_splits)
  then have w': "e_wnd (fst (flush B clk e)) =
    e_wnd (update_congestion_on_loss (pass_lost (clk 0) e1) (pass_change (clk 0) e1) (resend_limit e1) e1)"
    using flush_wnd [OF assms(1), of clk B] by (simp add: e1_def)
  have e1: "e_wnd e1 = e_wnd e" "mss e1 = mss e"
    by (simp_all add: e1_def move_to_send_buf_eq [OF assms(1)] mss_def)
  have half: "(if x div 2 < 2 then 2 else x div 2) = max x 4 div 2" for x :: u32
  proof -
    have "unat (if x div 2 < 2 then 2 else x div 2) = unat (max x 4 div 2)"
      by (auto simp: word_less_nat_alt word_le_nat_alt unat_div max_def)
    then show ?thesis by (simp add: word_unat_eq_iff)
  qed
  show ?thesis
    unfolding e1_def [symmetric] w' Let_def
    by (simp add: update_congestion_on_loss_def reset_cwnd_def Let_def half e1 mss_def [of "_\<lparr>e_wnd := _\<rparr>"]
        flip: mss_def)
qed

theorem flush_congestion_response_witness:
  "e_wnd (fst (flush le_buf_api (\<lambda>_. 5) flush_engine)) = e_wnd flush_engine"
proof -
  let ?e1 = "move_to_send_buf 5 flush_engine"
  have buf: "e_snd_buf ?e1 = [number_segment 5 flush_engine (KcpSegment_push 0 7 0 [1, 2, 3])]"
    by (simp add: move_to_send_buf_eq [OF flush_engine_ok(1)] flush_engine_ok(8) flush_engine_fields)
  then have none: "\<not> pass_lost 5 ?e1" "\<not> pass_change 5 ?e1"
    by (simp_all add: pass_lost_def pass_change_def mark_new_segment)
  obtain s where "pass_selected 5 ?e1 = [s]" "s_xmit s = 1" by (rule flush_engine_one)
  then have "\<not> pass_dead 5 ?e1"
    by (simp add: pass_dead_def move_to_send_buf_eq [OF flush_engine_ok(1)] flush_engine_fields word_le_nat_alt)
  then have ok: "snd (flush le_buf_api (\<lambda>_. 5) flush_engine) = Ok ()"
    using flush_effects(1) [OF flush_engine_ok(1), of le_buf_api "\<lambda>_. 5"] by simp
  have "w_cwnd (e_wnd flush_engine) \<noteq> 0"
    by (simp add: flush_engine_def KcpEngine_new_def KcpCoreConfig_default_def)
  with flush_congestion_response [OF flush_engine_ok(1) ok] none show ?thesis by (simp add: Let_def)
qed

lemma ask_bit: "(x OR 1) AND 1 \<noteq> (0 :: u32)"
  by (metis bit_0 bit_and_iff bit_or_iff bit_0_eq odd_one zero_neq_one bot_apply bot_bool_def)

lemma tell_bit: "((x OR 1) AND 2 = (0 :: u32)) = (x AND 2 = 0)"
  by (simp add: word_ao_dist)

lemma probe_timer_flags:
  "p_flags (probe_timer now rmt p) AND 1 \<noteq> 0 \<longleftrightarrow> p_flags p AND 1 \<noteq> 0 \<or> (rmt = 0 \<and> p_wait p \<noteq> 0 \<and> 0 \<le> time_diff now (p_ts p))"
  "p_flags (probe_timer now rmt p) AND 2 \<noteq> 0 \<longleftrightarrow> p_flags p AND 2 \<noteq> 0"
  using ask_bit tell_bit by (auto simp: probe_timer_def Let_def)

lemma probe_back_off:
  assumes "probe_ok p" "p_wait p \<noteq> 0" "0 \<le> time_diff now (p_ts p)"
  shows "unat (p_wait (probe_timer now 0 p)) = min (unat (p_wait p) + unat (p_wait p) div 2) 120000"
proof -
  have w: "7000 \<le> unat (p_wait p)" "unat (p_wait p) \<le> 120000" using assms(1,2) by (auto simp: probe_ok_def unat_eq_0)
  have grow: "unat (p_wait p + p_wait p div 2) = unat (p_wait p) + unat (p_wait p) div 2"
    using w by (subst unat_add_u32) (simp_all add: unat_div)
  have "\<not> p_wait p < IKCP_PROBE_INIT" using w by (simp add: word_less_nat_alt)
  then show ?thesis
    using assms(2,3) grow by (auto simp: probe_timer_def Let_def word_less_nat_alt)
qed

text \<open>
  C31. Zero-window probing. While the remote window is closed a pass arms the probe timer with 7
  seconds and leaves it running until its moment has come (\<open>fires\<close>); then it is set to half again as
  long, at most 120 seconds, and the pass puts a window request into the output, right behind the
  acknowledgements. An open window disarms the timer. The only other probe segments of a pass are a
  window request for a flag already set, and the window answer the peer asked for; each carries the
  conversation, the current window and \<open>rcv_nxt\<close>, and what follows are segments of the send buffer.
  A pass leaves no probe flag.
\<close>

theorem window_probe_when_closed:
  assumes "buf_codec B" "send_inv e" "probe_ok (e_probe e)"
  shows "let e' = fst (flush B clk e); p = e_probe e; p' = e_probe e'; now = clk 0; closed = (w_rmt (e_wnd e) = 0);
      fires = (closed \<and> p_wait p \<noteq> 0 \<and> 0 \<le> time_diff now (p_ts p));
      ask = create_probe_segment (clk 1) IKCP_CMD_WASK e; tell = create_probe_segment (clk 2) IKCP_CMD_WINS e in
    p_flags p' = 0 \<and> probe_ok p'
    \<and> (\<not> closed \<longrightarrow> p_wait p' = 0 \<and> p_ts p' = 0)
    \<and> (closed \<and> p_wait p = 0 \<longrightarrow> unat (p_wait p') = 7000 \<and> p_ts p' = now + 7000)
    \<and> (closed \<and> p_wait p \<noteq> 0 \<and> \<not> fires \<longrightarrow> p_wait p' = p_wait p \<and> p_ts p' = p_ts p)
    \<and> (fires \<longrightarrow> unat (p_wait p') = min (unat (p_wait p) + unat (p_wait p) div 2) 120000 \<and> p_ts p' = now + p_wait p')
    \<and> (\<exists>data. emitted e' = emitted e @ concat (map (\<lambda>s. KcpSegment_encode B s []) (pass_acks clk e
            @ (if fires \<or> p_flags p AND IKCP_ASK_SEND \<noteq> 0 then [ask] else [])
            @ (if p_flags p AND IKCP_ASK_TELL \<noteq> 0 then [tell] else []) @ data))
         \<and> set data \<subseteq> set (e_snd_buf e'))
    \<and> h_cmd (s_header ask) = IKCP_CMD_WASK \<and> h_cmd (s_header tell) = IKCP_CMD_WINS
    \<and> (\<forall>s \<in> {ask, tell}. h_conv (s_header s) = e_conv e \<and> h_una (s_header s) = e_rcv_nxt e
         \<and> h_wnd (s_header s) = ucast (wnd_unused e) \<and> s_data s = [])"
proof -
  let ?e' = "fst (flush B clk e)" and ?p = "e_probe e" and ?rmt = "w_rmt (e_wnd e)"
  let ?fires = "?rmt = 0 \<and> p_wait ?p \<noteq> 0 \<and> 0 \<le> time_diff (clk 0) (p_ts ?p)"
  let ?S = "upto_dead (e_dead_link e) (pass_selected (clk 0) (move_to_send_buf (clk 0) e))"
  note eff = flush_effects [where B = B and clk = clk, OF assms(2)]
  note wait = probe_timer_wait [where now = "clk 0" and rmt = ?rmt, OF assms(3)]
  have p': "e_probe ?e' = (probe_timer (clk 0) ?rmt ?p)\<lparr>p_flags := 0\<rparr>" by (rule eff(17))
  have ok: "probe_ok (e_probe ?e')" using wait(1) unfolding p' by (simp add: probe_ok_def)
  have "pass_probes clk e = (if ?fires \<or> p_flags ?p AND 1 \<noteq> 0 then [create_probe_segment (clk 1) IKCP_CMD_WASK e] else [])
      @ (if p_flags ?p AND 2 \<noteq> 0 then [create_probe_segment (clk 2) IKCP_CMD_WINS e] else [])"
    unfolding pass_probes_def Let_def probe_timer_flags by auto
  then have out: "emitted ?e' = emitted e @ concat (map (\<lambda>s. KcpSegment_encode B s []) (pass_acks clk e
      @ (if ?fires \<or> p_flags ?p AND 1 \<noteq> 0 then [create_probe_segment (clk 1) IKCP_CMD_WASK e] else [])
      @ (if p_flags ?p AND 2 \<noteq> 0 then [create_probe_segment (clk 2) IKCP_CMD_WINS e] else []) @ ?S))"
    using buf_codec.flush_emitted [OF assms(1,2), of clk] unfolding pass_segments_def by simp
  have data: "set ?S \<subseteq> set (e_snd_buf ?e')"
    using upto_dead_subset unfolding eff(2) pass_selected_def selected_def by fastforce
  have seg: "h_cmd (s_header (create_probe_segment t cmd e)) = cmd" "h_conv (s_header (create_probe_segment t cmd e)) = e_conv e"
    "h_una (s_header (create_probe_segment t cmd e)) = e_rcv_nxt e"
    "h_wnd (s_header (create_probe_segment t cmd e)) = ucast (wnd_unused e)" "s_data (create_probe_segment t cmd e) = []" for t cmd
    by (simp_all add: create_probe_segment_def KcpSegment_new_def KcpHeader_new_def Let_def)
  have grows: "unat (p_wait (e_probe ?e')) = min (unat (p_wait ?p) + unat (p_wait ?p) div 2) 120000" if "?fires"
    using probe_back_off [OF assms(3)] that unfolding p' by simp
  have timer: "p_flags (e_probe ?e') = 0" "?rmt \<noteq> 0 \<Longrightarrow> p_wait (e_probe ?e') = 0 \<and> p_ts (e_probe ?e') = 0"
    "?rmt = 0 \<Longrightarrow> p_wait ?p = 0 \<Longrightarrow> unat (p_wait (e_probe ?e')) = 7000 \<and> p_ts (e_probe ?e') = clk 0 + 7000"
    "?rmt = 0 \<Longrightarrow> p_wait ?p \<noteq> 0 \<Longrightarrow> \<not> ?fires \<Longrightarrow> p_wait (e_probe ?e') = p_wait ?p \<and> p_ts (e_probe ?e') = p_ts ?p"
    "?fires \<Longrightarrow> p_ts (e_probe ?e') = clk 0 + p_wait (e_probe ?e')"
    unfolding p' by (auto simp: probe_timer_def Let_def)
  have emission: "\<exists>data. emitted ?e' = emitted e @ concat (map (\<lambda>s. KcpSegment_encode B s []) (pass_acks clk e
      @ (if ?fires \<or> p_flags ?p AND 1 \<noteq> 0 then [create_probe_segment (clk 1) IKCP_CMD_WASK e] else [])
      @ (if p_flags ?p AND 2 \<noteq> 0 then [create_probe_segment (clk 2) IKCP_CMD_WINS e] else []) @ data))
    \<and> set data \<subseteq> set (e_snd_buf ?e')"
    by (intro exI [of _ ?S] conjI out data)
  show ?thesis unfolding Let_def
    by (intro conjI impI ballI emission) (use ok seg grows timer in auto)
qed

text \<open>A sender whose peer closed its window, the probe timer due at 100.\<close>

definition closed_engine :: KcpEngine where
  "closed_engine = flush_engine\<lparr>e_wnd := (e_wnd flush_engine)\<lparr>w_rmt := 0\<rparr>,
     e_probe := \<lparr>p_flags = 0, p_wait = 7000, p_ts = 100\<rparr>\<rparr>"

theorem window_probe_when_closed_witness:
  "\<exists>data. emitted (fst (flush le_buf_api (\<lambda>_. 100) closed_engine)) =
      concat (map (\<lambda>s. KcpSegment_encode le_buf_api s []) (pass_acks (\<lambda>_. 100) closed_engine
        @ create_probe_segment 100 IKCP_CMD_WASK closed_engine # data))
    \<and> unat (p_wait (e_probe (fst (flush le_buf_api (\<lambda>_. 100) closed_engine)))) = 10500"
proof -
  have hyps: "send_inv closed_engine" "probe_ok (e_probe closed_engine)"
    using flush_engine_ok(1) by (simp_all add: closed_engine_def send_inv_def in_flight_def probe_ok_def)
  have "emitted closed_engine = []" using flush_engine_fields(4) by (simp add: closed_engine_def emitted_def)
  then show ?thesis
    using window_probe_when_closed [OF le.buf_codec_axioms hyps, of "\<lambda>_. 100"]
    by (simp add: Let_def closed_engine_def time_diff_unat) blast
qed

text \<open>
  Changing the conversation id does not reach segments in flight: after \<open>set_conv\<close> a segment of
  the send buffer still carries the old id when it is retransmitted, while segments that enter the
  window later carry the new one.
\<close>

theorem set_conv_keeps_old_id_in_flight:
  assumes "s \<in> set (e_snd_buf e)" "h_conv (s_header s) \<noteq> c"
  shows "fst (mark_segment (set_conv c e) now r x s) \<in> set (marked (set_conv c e) now r x (e_snd_buf (set_conv c e)))
    \<and> h_conv (s_header (fst (mark_segment (set_conv c e) now r x s))) \<noteq> c
    \<and> h_conv (s_header (number_segment now (set_conv c e) t)) = c"
  using assms by (auto simp: set_conv_def number_segment_def)

theorem set_conv_keeps_old_id_in_flight_witness:
  "h_conv (s_header (fst (mark_segment (set_conv 9 ack_engine) 500 3 0 (ack_seg 1)))) \<noteq> 9"
proof -
  have "ack_seg 1 \<in> set (e_snd_buf ack_engine)" "h_conv (s_header (ack_seg 1)) \<noteq> 9"
    by (simp_all add: ack_engine_def ack_seg_def KcpSegment_push_def KcpSegment_new_def KcpHeader_new_def)
  from set_conv_keeps_old_id_in_flight [OF this] show ?thesis by blast
qed

end
