(* ===== verification/Kcp_Engine_Input.thy ===== *)
theory Kcp_Engine_Input
  imports Kcp_Engine_Recv Kcp_Engine_Flush
begin

text \<open>
  The input path of the engine: \<open>input\<close> splits a datagram into segments, dispatches on the command
  and finishes with \<open>shrink_buf\<close>, \<open>parse_fastack\<close> and \<open>update_cwnd\<close>. The lemmas show how a datagram
  splits, that every byte string a peer may send keeps the invariants of both directions, and that
  the receive direction delivers in order and exactly once.

  Clock reads: \<open>clk 0\<close> is \<open>current\<close>. \<open>ring i\<close> is where the ring buffer of \<open>snd_buf\<close> wraps in memory
  when the \<open>i\<close>-th segment of the datagram is processed (it matters for no result).
\<close>

unbundle bit_operations_syntax

section \<open>Operations\<close>

text \<open>The local variables \<open>flag\<close>, \<open>max_ack\<close> and \<open>latest_ts\<close> of \<open>input\<close>.\<close>

record ack_track =
  a_flag :: bool
  a_max_ack :: SeqNum
  a_latest_ts :: Timestamp

definition track_ack :: "KcpSegment \<Rightarrow> ack_track \<Rightarrow> ack_track" where
  "track_ack segment a =
     (let sn = h_sn (s_header segment); ts = h_ts (s_header segment) in
      if \<not> a_flag a then \<lparr>a_flag = True, a_max_ack = sn, a_latest_ts = ts\<rparr>
      else if seq_after sn (a_max_ack a) \<and> time_diff ts (a_latest_ts a) > 0
      then a\<lparr>a_max_ack := sn, a_latest_ts := ts\<rparr> else a)"

definition input_ack :: "usize \<Rightarrow> Timestamp \<Rightarrow> KcpSegment \<Rightarrow> KcpEngine \<Rightarrow> KcpEngine" where
  "input_ack k current segment e =
     (let ts = h_ts (s_header segment);
          e1 = (if time_diff current ts \<ge> 0 then update_ack (time_diff current ts) e else e)
      in parse_ack k (h_sn (s_header segment)) e1)"

definition input_push :: "KcpSegment \<Rightarrow> KcpEngine \<Rightarrow> KcpEngine" where
  "input_push segment e =
     (let sn = h_sn (s_header segment) in
      if seq_before sn (e_rcv_nxt e + w_rcv (e_wnd e)) then
        (let e1 = ack_push sn (h_ts (s_header segment)) e
         in if \<not> seq_before sn (e_rcv_nxt e1) then parse_data segment e1 else e1)
      else e)"

text \<open>The body of the loop for one segment that was cut out of the packet.\<close>

definition process_segment :: "usize \<Rightarrow> Timestamp \<Rightarrow> KcpSegment \<Rightarrow> KcpEngine \<times> ack_track \<Rightarrow> KcpEngine \<times> ack_track" where
  "process_segment k current segment st =
     (let e = fst st; a = snd st; h = s_header segment in
      if h_conv h \<noteq> e_conv e then (e, a)
      else
        (let e1 = parse_una (h_una h) (e\<lparr>e_wnd := (e_wnd e)\<lparr>w_rmt := ucast (h_wnd h)\<rparr>\<rparr>) in
         if h_cmd h = IKCP_CMD_ACK then (input_ack k current segment e1, track_ack segment a)
         else if h_cmd h = IKCP_CMD_PUSH then (input_push segment e1, a)
         else if h_cmd h = IKCP_CMD_WASK then (set_flag IKCP_ASK_TELL e1, a)
         else (e1, a)))"

text \<open>Cut the next segment from the packet: the peek at the header, the slice, and the decoding.\<close>

definition next_segment :: "buf_api \<Rightarrow> bytes \<Rightarrow> (KcpSegment \<times> bytes) option" where
  "next_segment B buf =
     (if length buf < KcpHeader_SIZE then None
      else case KcpHeader_decode B buf of
        None \<Rightarrow> None
      | Some (header, _) \<Rightarrow>
          (let seg_len = KcpHeader_SIZE + unat (h_len header) in
           if length buf < seg_len then None
           else case KcpSegment_decode B (take seg_len buf) of
             None \<Rightarrow> None
           | Some segment \<Rightarrow> Some (segment, drop seg_len buf)))"

lemma next_segment_shorter: "next_segment B buf = Some (seg, rest) \<Longrightarrow> length rest < length buf"
  by (auto simp: next_segment_def Let_def split: if_splits option.splits)

function input_loop :: "buf_api \<Rightarrow> (nat \<Rightarrow> usize) \<Rightarrow> Timestamp \<Rightarrow> nat \<Rightarrow> bytes \<Rightarrow> KcpEngine \<times> ack_track \<Rightarrow>
    KcpEngine \<times> ack_track" where
  "input_loop B ring current i buf st =
     (case next_segment B buf of
        None \<Rightarrow> st
      | Some (segment, rest) \<Rightarrow>
          input_loop B ring current (Suc i) rest (process_segment (ring i) current segment st))"
  by pat_completeness auto
termination
  by (relation "measure (\<lambda>(B, ring, current, i, buf, st). length buf)") (auto dest: next_segment_shorter)

declare input_loop.simps [simp del]

definition input :: "buf_api \<Rightarrow> (nat \<Rightarrow> usize) \<Rightarrow> clock \<Rightarrow> bytes \<Rightarrow> KcpEngine \<Rightarrow> unit engine_result" where
  "input B ring clk data e0 =
     (let current = clk 0;
          e = e0\<lparr>e_last_activity := current\<rparr>
      in if length data < KcpHeader_SIZE then (e, Err (core_protocol ''Packet too small''))
         else
           (let prev_una = e_snd_una e;
                (e1, a) = input_loop B ring current 0 data (e, \<lparr>a_flag = False, a_max_ack = 0, a_latest_ts = 0\<rparr>);
                e2 = shrink_buf e1;
                e3 = (if a_flag a then parse_fastack (a_max_ack a) (a_latest_ts a) e2 else e2);
                e4 = update_cwnd prev_una e3
            in (e4\<lparr>e_stats := (e_stats e4)\<lparr>st_packets_received := st_packets_received (e_stats e4) + 1\<rparr>\<rparr>, Ok ())))"

section \<open>How a packet splits\<close>

text \<open>The segments of a packet, as the loop cuts them.\<close>

function packet_segments :: "buf_api \<Rightarrow> bytes \<Rightarrow> KcpSegment list" where
  "packet_segments B buf =
     (case next_segment B buf of None \<Rightarrow> [] | Some (segment, rest) \<Rightarrow> segment # packet_segments B rest)"
  by pat_completeness auto
termination by (relation "measure (\<lambda>(B, buf). length buf)") (auto dest: next_segment_shorter)

declare packet_segments.simps [simp del]

fun process_segments :: "(nat \<Rightarrow> usize) \<Rightarrow> Timestamp \<Rightarrow> nat \<Rightarrow> KcpSegment list \<Rightarrow> KcpEngine \<times> ack_track \<Rightarrow>
    KcpEngine \<times> ack_track" where
  "process_segments ring current i [] st = st"
| "process_segments ring current i (seg # segs) st =
     process_segments ring current (Suc i) segs (process_segment (ring i) current seg st)"

lemma input_loop_segments:
  "input_loop B ring current i buf st = process_segments ring current i (packet_segments B buf) st"
proof (induction B ring current i buf st rule: input_loop.induct)
  case (1 B ring current i buf st)
  then show ?case
    by (simp add: input_loop.simps [of B ring current i buf] packet_segments.simps [of B buf]
        split: option.split prod.split)
qed

definition received :: "KcpSegment \<Rightarrow> KcpSegment" where
  "received seg = seg\<lparr>s_resendts := 0, s_rto := IKCP_RTO_DEF, s_fastack := 0, s_xmit := 0\<rparr>"

context buf_codec
begin

lemma next_segment_encode:
  assumes "unat (h_len (s_header seg)) = length (s_data seg)"
  shows "next_segment B (KcpSegment_encode B seg [] @ rest) = Some (received seg, rest)"
proof -
  have len: "length (KcpSegment_encode B seg []) = 24 + length (s_data seg)"
    using segment_encode_length [of seg "[]"] by (simp add: KcpSegment_size_def)
  have "KcpSegment_encode B seg [] @ rest = KcpHeader_encode B (s_header seg) [] @ (s_data seg @ rest)"
    by (simp add: KcpSegment_encode_def)
  then have "KcpHeader_decode B (KcpSegment_encode B seg [] @ rest) = Some (s_header seg, s_data seg @ rest)"
    using header_decode_encode by simp
  then show ?thesis
    using assms len segment_decode_encode [OF assms] by (simp add: next_segment_def received_def)
qed

lemma packet_segments_concat:
  "\<forall>seg\<in>set segs. unat (h_len (s_header seg)) = length (s_data seg) \<Longrightarrow>
   packet_segments B (concat (map (\<lambda>s. KcpSegment_encode B s []) segs)) = map received segs"
proof (induction segs)
  case Nil
  then show ?case by (subst packet_segments.simps) (simp add: next_segment_def)
next
  case (Cons seg segs)
  then show ?case by (subst packet_segments.simps) (simp add: next_segment_encode)
qed

end

section \<open>The protocol invariant\<close>

text \<open>
  Both directions together: ordered send buffer within the window, receive buffer within the window,
  estimator and congestion window in range, MTU and remote window in 16 bits, segments not longer
  than the segment size.
\<close>

definition proto_inv :: "KcpEngine \<Rightarrow> bool" where
  "proto_inv e \<longleftrightarrow> send_inv e \<and> recv_inv e \<and> rtt_ok (e_rtt e) \<and> cwnd_inv e \<and> mtu_ok e
     \<and> unat (c_mtu (e_config e)) \<le> 65535 \<and> unat (w_rmt (e_wnd e)) \<le> 65535
     \<and> snd_queue_ok e \<and> snd_buf_ok e \<and> probe_ok (e_probe e)"

lemma proto_invD:
  assumes "proto_inv e"
  shows "send_inv e" "recv_inv e" "rtt_ok (e_rtt e)" "cwnd_inv e" "mtu_ok e"
    "unat (c_mtu (e_config e)) \<le> 65535" "unat (w_rmt (e_wnd e)) \<le> 65535" "snd_queue_ok e" "snd_buf_ok e"
    "probe_ok (e_probe e)"
  using assms by (simp_all add: proto_inv_def)

text \<open>An update of the send buffer alone.\<close>

lemma proto_inv_snd_buf:
  assumes "proto_inv e" "send_inv (e\<lparr>e_snd_buf := b\<rparr>)" "\<forall>s\<in>set b. data_seg_ok e s"
  shows "proto_inv (e\<lparr>e_snd_buf := b\<rparr>)"
  using assms by (simp add: proto_inv_def recv_inv_def cwnd_inv_def mtu_ok_def mss_def snd_queue_ok_def
      snd_buf_ok_def data_seg_ok_def)

lemma proto_inv_rmt: "proto_inv e \<Longrightarrow> proto_inv (e\<lparr>e_wnd := (e_wnd e)\<lparr>w_rmt := ucast (x :: u16)\<rparr>\<rparr>)"
proof -
  have "unat (ucast x :: u32) \<le> 65535"
    using unsigned_less [of x, where ?'a = nat] by (simp add: unsigned_ucast_eq take_bit_nat_eq_self)
  then show "proto_inv e \<Longrightarrow> ?thesis"
    by (simp add: proto_inv_def send_inv_def in_flight_def recv_inv_def cwnd_inv_def mtu_ok_def mss_def
        snd_queue_ok_def snd_buf_ok_def data_seg_ok_def)
qed

lemma parse_una_proto_inv:
  assumes "proto_inv e" shows "proto_inv (parse_una una e)"
proof -
  have "set (una_loop una xs) \<subseteq> set xs" for xs
    unfolding una_loop_dropWhile by (auto dest: set_dropWhileD)
  then show ?thesis
    using assms parse_una_send_inv [of e una] unfolding parse_una_def
    by (intro proto_inv_snd_buf) (auto simp: proto_inv_def snd_buf_ok_def)
qed

lemma parse_ack_proto_inv:
  assumes "proto_inv e" shows "proto_inv (parse_ack k sn e)"
  using assms parse_ack_send_inv [of e k sn] unfolding parse_ack_filter [OF proto_invD(1) [OF assms]]
  by (intro proto_inv_snd_buf) (auto simp: proto_inv_def snd_buf_ok_def)

lemma fastack_loop_ok:
  "\<forall>s\<in>set segs. data_seg_ok e s \<Longrightarrow> \<forall>s\<in>set (fastack_loop sn ts segs). data_seg_ok e s"
proof (induction segs)
  case (Cons s segs)
  have "data_seg_ok e (s\<lparr>s_fastack := x\<rparr>) = data_seg_ok e s" for x
    by (rule data_seg_ok_cong) simp_all
  then show ?case using Cons by simp
qed simp

lemma parse_fastack_proto_inv:
  assumes "proto_inv e" shows "proto_inv (parse_fastack sn ts e)"
proof (cases "seq_before sn (e_snd_una e) \<or> \<not> seq_before sn (e_snd_nxt e)")
  case True
  then show ?thesis using assms by (simp add: parse_fastack_def)
next
  case False
  then have eq: "parse_fastack sn ts e = e\<lparr>e_snd_buf := fastack_loop sn ts (e_snd_buf e)\<rparr>"
    by (simp add: parse_fastack_def)
  show ?thesis
    using assms parse_fastack_send_inv [of e sn ts] unfolding eq
    by (intro proto_inv_snd_buf fastack_loop_ok) (auto simp: proto_inv_def snd_buf_ok_def)
qed

lemma update_ack_fields [simp]:
  "e_conv (update_ack i e) = e_conv e" "e_config (update_ack i e) = e_config e"
  "e_snd_una (update_ack i e) = e_snd_una e" "e_snd_nxt (update_ack i e) = e_snd_nxt e"
  "e_rcv_nxt (update_ack i e) = e_rcv_nxt e" "e_wnd (update_ack i e) = e_wnd e"
  "e_probe (update_ack i e) = e_probe e" "e_snd_queue (update_ack i e) = e_snd_queue e"
  "e_rcv_queue (update_ack i e) = e_rcv_queue e" "e_snd_buf (update_ack i e) = e_snd_buf e"
  "e_rcv_buf (update_ack i e) = e_rcv_buf e" "e_ack_list (update_ack i e) = e_ack_list e"
  "e_output_queue (update_ack i e) = e_output_queue e" "e_out_buf (update_ack i e) = e_out_buf e"
  "e_dead_link (update_ack i e) = e_dead_link e" "e_last_update (update_ack i e) = e_last_update e"
  "e_last_activity (update_ack i e) = e_last_activity e"
  by (simp_all add: update_ack_def Let_def)

text \<open>\<open>same_send e e'\<close>: the fields the send direction and the configuration rest on are the same.\<close>

lemma proto_inv_cong:
  assumes "proto_inv e" "e_snd_una e' = e_snd_una e" "e_snd_nxt e' = e_snd_nxt e" "e_snd_buf e' = e_snd_buf e"
    "e_snd_queue e' = e_snd_queue e" "e_config e' = e_config e" "e_wnd e' = e_wnd e" "p_wait (e_probe e') = p_wait (e_probe e)"
    and "recv_inv e'" "rtt_ok (e_rtt e')"
  shows "proto_inv e'"
  using assms by (simp add: proto_inv_def send_inv_def in_flight_def cwnd_inv_def mtu_ok_def mss_def
      snd_queue_ok_def snd_buf_ok_def data_seg_ok_def probe_ok_def)

lemma recv_inv_cong:
  "e_rcv_nxt e' = e_rcv_nxt e \<Longrightarrow> e_rcv_queue e' = e_rcv_queue e \<Longrightarrow> e_rcv_buf e' = e_rcv_buf e \<Longrightarrow>
   w_rcv (e_wnd e') = w_rcv (e_wnd e) \<Longrightarrow> recv_inv e' = recv_inv e"
  by (simp add: recv_inv_def)

lemma input_ack_proto_inv:
  assumes "proto_inv e" shows "proto_inv (input_ack k current seg e)"
proof -
  have "proto_inv (update_ack i e)" for i
    using proto_invD [OF assms] update_ack_rtt(1) [of e i]
    by (intro proto_inv_cong [OF assms]) (simp_all add: recv_inv_def)
  then show ?thesis using assms by (simp add: input_ack_def Let_def parse_ack_proto_inv)
qed

lemma parse_data_fields [simp]:
  "e_conv (parse_data s e) = e_conv e" "e_config (parse_data s e) = e_config e"
  "e_snd_una (parse_data s e) = e_snd_una e" "e_snd_nxt (parse_data s e) = e_snd_nxt e"
  "e_rtt (parse_data s e) = e_rtt e" "e_wnd (parse_data s e) = e_wnd e"
  "e_probe (parse_data s e) = e_probe e" "e_snd_queue (parse_data s e) = e_snd_queue e"
  "e_snd_buf (parse_data s e) = e_snd_buf e" "e_ack_list (parse_data s e) = e_ack_list e"
  "e_output_queue (parse_data s e) = e_output_queue e" "e_out_buf (parse_data s e) = e_out_buf e"
  "e_dead_link (parse_data s e) = e_dead_link e" "e_last_activity (parse_data s e) = e_last_activity e"
  by (simp_all add: parse_data_def Let_def)

lemma ack_push_recv_inv [simp]: "recv_inv (ack_push sn ts e) = recv_inv e"
  by (simp add: ack_push_def recv_inv_def)

lemma input_push_proto_inv:
  assumes "proto_inv e" shows "proto_inv (input_push seg e)"
proof -
  have ack: "proto_inv (ack_push sn ts e)" for sn ts
    using proto_invD [OF assms] by (intro proto_inv_cong [OF assms]) (simp_all add: ack_push_def recv_inv_def)
  have "proto_inv (parse_data s (ack_push sn ts e))" for s sn ts
    using proto_invD [OF ack]
    by (intro proto_inv_cong [OF ack]) (simp_all add: parse_data_recv_inv)
  with ack show ?thesis using assms by (simp add: input_push_def Let_def)
qed

lemma set_flag_proto_inv: "proto_inv e \<Longrightarrow> proto_inv (set_flag f e)"
  by (rule proto_inv_cong) (simp_all add: proto_inv_def)

lemma process_segment_proto_inv:
  assumes "proto_inv (fst st)" shows "proto_inv (fst (process_segment k current seg st))"
  using assms
  by (simp add: process_segment_def Let_def input_ack_proto_inv input_push_proto_inv set_flag_proto_inv
      parse_una_proto_inv proto_inv_rmt)

lemma process_segments_proto_inv:
  "proto_inv (fst st) \<Longrightarrow> proto_inv (fst (process_segments ring current i segs st))"
  by (induction segs arbitrary: i st) (simp_all add: process_segment_proto_inv)

lemma shrink_buf_fields [simp]:
  "e_conv (shrink_buf e) = e_conv e" "e_config (shrink_buf e) = e_config e" "e_snd_nxt (shrink_buf e) = e_snd_nxt e"
  "e_rcv_nxt (shrink_buf e) = e_rcv_nxt e" "e_rtt (shrink_buf e) = e_rtt e" "e_wnd (shrink_buf e) = e_wnd e"
  "e_probe (shrink_buf e) = e_probe e" "e_snd_queue (shrink_buf e) = e_snd_queue e"
  "e_rcv_queue (shrink_buf e) = e_rcv_queue e" "e_snd_buf (shrink_buf e) = e_snd_buf e"
  "e_rcv_buf (shrink_buf e) = e_rcv_buf e" "e_ack_list (shrink_buf e) = e_ack_list e"
  "e_output_queue (shrink_buf e) = e_output_queue e" "e_out_buf (shrink_buf e) = e_out_buf e"
  "e_stats (shrink_buf e) = e_stats e" "e_dead_link (shrink_buf e) = e_dead_link e"
  "e_last_update (shrink_buf e) = e_last_update e" "e_last_activity (shrink_buf e) = e_last_activity e"
  by (cases "e_snd_buf e"; simp add: shrink_buf_def)+

lemma shrink_buf_proto_inv:
  assumes "proto_inv e" shows "proto_inv (shrink_buf e)" "una_synced (shrink_buf e)"
  using assms shrink_buf_send_inv [OF proto_invD(1) [OF assms]]
  by (simp_all add: proto_inv_def recv_inv_def cwnd_inv_def mtu_ok_def mss_def snd_queue_ok_def
      snd_buf_ok_def data_seg_ok_def)

lemma parse_fastack_fields [simp]:
  "e_conv (parse_fastack sn ts e) = e_conv e" "e_config (parse_fastack sn ts e) = e_config e"
  "e_snd_una (parse_fastack sn ts e) = e_snd_una e" "e_snd_nxt (parse_fastack sn ts e) = e_snd_nxt e"
  "e_rcv_nxt (parse_fastack sn ts e) = e_rcv_nxt e" "e_rtt (parse_fastack sn ts e) = e_rtt e"
  "e_wnd (parse_fastack sn ts e) = e_wnd e" "e_probe (parse_fastack sn ts e) = e_probe e"
  "e_snd_queue (parse_fastack sn ts e) = e_snd_queue e" "e_rcv_queue (parse_fastack sn ts e) = e_rcv_queue e"
  "e_rcv_buf (parse_fastack sn ts e) = e_rcv_buf e" "e_ack_list (parse_fastack sn ts e) = e_ack_list e"
  "e_output_queue (parse_fastack sn ts e) = e_output_queue e" "e_out_buf (parse_fastack sn ts e) = e_out_buf e"
  "e_stats (parse_fastack sn ts e) = e_stats e" "e_dead_link (parse_fastack sn ts e) = e_dead_link e"
  "e_last_activity (parse_fastack sn ts e) = e_last_activity e"
  by (simp_all add: parse_fastack_def)

lemma parse_fastack_una_synced: "una_synced e \<Longrightarrow> una_synced (parse_fastack sn ts e)"
  by (cases "e_snd_buf e") (simp_all add: parse_fastack_def una_synced_def)

lemma update_cwnd_proto_inv:
  assumes "proto_inv e" shows "proto_inv (update_cwnd p e)"
  using proto_invD [OF assms] update_cwnd_inv [of e p]
  by (simp add: proto_inv_def send_inv_def in_flight_def recv_inv_def mtu_ok_def mss_def snd_queue_ok_def
      snd_buf_ok_def data_seg_ok_def)

text \<open>The steps of \<open>input\<close> after the loop.\<close>

definition finish_input :: "SeqNum \<Rightarrow> KcpEngine \<times> ack_track \<Rightarrow> KcpEngine" where
  "finish_input prev_una st =
     (let e2 = shrink_buf (fst st);
          e3 = (if a_flag (snd st) then parse_fastack (a_max_ack (snd st)) (a_latest_ts (snd st)) e2 else e2)
      in update_cwnd prev_una e3)"

abbreviation no_acks :: ack_track where
  "no_acks \<equiv> \<lparr>a_flag = False, a_max_ack = 0, a_latest_ts = 0\<rparr>"

definition count_packet :: "KcpEngine \<Rightarrow> KcpEngine" where
  "count_packet e = e\<lparr>e_stats := (e_stats e)\<lparr>st_packets_received := st_packets_received (e_stats e) + 1\<rparr>\<rparr>"

lemma input_eq:
  "input B ring clk data e =
     (if length data < 24 then (e\<lparr>e_last_activity := clk 0\<rparr>, Err (core_protocol ''Packet too small''))
      else (count_packet (finish_input (e_snd_una e)
              (process_segments ring (clk 0) 0 (packet_segments B data) (e\<lparr>e_last_activity := clk 0\<rparr>, no_acks))), Ok ()))"
  by (simp add: input_def input_loop_segments finish_input_def count_packet_def Let_def split: prod.split)

lemma finish_input_inv:
  assumes "proto_inv (fst st)"
  shows "proto_inv (finish_input p st)" "una_synced (finish_input p st)"
proof -
  have "una_synced (update_cwnd p e) = una_synced e" for e by (simp add: una_synced_def split: list.split)
  then show "proto_inv (finish_input p st)" "una_synced (finish_input p st)"
    using shrink_buf_proto_inv [OF assms]
    by (simp_all add: finish_input_def Let_def update_cwnd_proto_inv parse_fastack_proto_inv parse_fastack_una_synced)
qed

lemma count_packet_inv [simp]:
  "proto_inv (count_packet e) = proto_inv e" "una_synced (count_packet e) = una_synced e"
  "recv_inv (count_packet e) = recv_inv e" "tracks D n (count_packet e) = tracks D n e"
  "e_rcv_queue (count_packet e) = e_rcv_queue e" "e_ack_list (count_packet e) = e_ack_list e"
  by (simp_all add: count_packet_def proto_inv_def send_inv_def in_flight_def recv_inv_def cwnd_inv_def mtu_ok_def
      mss_def snd_queue_ok_def snd_buf_ok_def data_seg_ok_def una_synced_def tracks_def split: list.split)

lemma activity_inv [simp]:
  "proto_inv (e\<lparr>e_last_activity := t\<rparr>) = proto_inv e" "una_synced (e\<lparr>e_last_activity := t\<rparr>) = una_synced e"
  "recv_inv (e\<lparr>e_last_activity := t\<rparr>) = recv_inv e" "tracks D n (e\<lparr>e_last_activity := t\<rparr>) = tracks D n e"
  by (simp_all add: proto_inv_def send_inv_def in_flight_def recv_inv_def cwnd_inv_def mtu_ok_def
      mss_def snd_queue_ok_def snd_buf_ok_def data_seg_ok_def una_synced_def tracks_def split: list.split)

lemma input_invariants:
  assumes "proto_inv e" "una_synced e"
  shows "proto_inv (fst (input B ring clk data e))" "una_synced (fst (input B ring clk data e))"
proof -
  have "proto_inv (fst (process_segments ring (clk 0) 0 (packet_segments B data) (e\<lparr>e_last_activity := clk 0\<rparr>, no_acks)))"
    using assms(1) by (intro process_segments_proto_inv) simp
  from finish_input_inv [OF this] assms
  show "proto_inv (fst (input B ring clk data e))" "una_synced (fst (input B ring clk data e))"
    by (simp_all add: input_eq)
qed

section \<open>The receive direction of a packet\<close>

lemma parse_ack_recv_fields [simp]:
  "e_rcv_nxt (parse_ack k sn e) = e_rcv_nxt e" "e_rcv_queue (parse_ack k sn e) = e_rcv_queue e"
  "e_rcv_buf (parse_ack k sn e) = e_rcv_buf e" "e_wnd (parse_ack k sn e) = e_wnd e"
  "e_conv (parse_ack k sn e) = e_conv e" "e_ack_list (parse_ack k sn e) = e_ack_list e"
  by (auto simp: parse_ack_def split: sum.split)

lemma finish_input_recv_fields [simp]:
  "e_rcv_nxt (finish_input p st) = e_rcv_nxt (fst st)" "e_rcv_queue (finish_input p st) = e_rcv_queue (fst st)"
  "e_rcv_buf (finish_input p st) = e_rcv_buf (fst st)" "w_rcv (e_wnd (finish_input p st)) = w_rcv (e_wnd (fst st))"
  "e_ack_list (finish_input p st) = e_ack_list (fst st)"
  by (simp_all add: finish_input_def Let_def)

lemma tracks_cong:
  "e_rcv_nxt e' = e_rcv_nxt e \<Longrightarrow> e_rcv_buf e' = e_rcv_buf e \<Longrightarrow> w_rcv (e_wnd e') = w_rcv (e_wnd e) \<Longrightarrow>
   tracks D n e' = tracks D n e"
  by (simp add: tracks_def)

text \<open>
  A segment from the peer whose data is the sequence \<open>D\<close>: if it is a data segment of this conversation,
  it carries one of the numbers near \<open>n\<close> and the content \<open>D\<close> has there.
\<close>

definition from_peer :: "(nat \<Rightarrow> u8 \<times> bytes) \<Rightarrow> nat \<Rightarrow> ConvId \<Rightarrow> KcpSegment \<Rightarrow> bool" where
  "from_peer D n conv seg \<longleftrightarrow>
     (h_conv (s_header seg) = conv \<and> h_cmd (s_header seg) = IKCP_CMD_PUSH \<longrightarrow>
       (\<exists>i. s_sn seg = word_of_nat i \<and> content seg = D i \<and> i < n + 2147483648 \<and> n \<le> i + 1073741824))"

text \<open>\<open>parse_data\<close> reads and writes only the receive fields.\<close>

lemma move_recv_cong:
  assumes "e_rcv_nxt e' = e_rcv_nxt e" "e_rcv_queue e' = e_rcv_queue e" "e_rcv_buf e' = e_rcv_buf e"
    "w_rcv (e_wnd e') = w_rcv (e_wnd e)"
  shows "e_rcv_nxt (move_to_recv_queue e') = e_rcv_nxt (move_to_recv_queue e)
    \<and> e_rcv_queue (move_to_recv_queue e') = e_rcv_queue (move_to_recv_queue e)
    \<and> e_rcv_buf (move_to_recv_queue e') = e_rcv_buf (move_to_recv_queue e)"
  using assms
proof (induction e arbitrary: e' rule: move_to_recv_queue.induct)
  case (1 e)
  show ?case
  proof (cases "bt_get (e_rcv_buf e) (e_rcv_nxt e)")
    case None
    then show ?thesis using 1(2-) by (simp add: move_none)
  next
    case (Some seg)
    show ?thesis
    proof (cases "length (e_rcv_queue e) \<ge> unat (w_rcv (e_wnd e))")
      case True
      then show ?thesis
        using Some 1(2-) by (simp add: move_to_recv_queue.simps [of e] move_to_recv_queue.simps [of e'])
    next
      case False
      have s': "bt_get (e_rcv_buf e') (e_rcv_nxt e') = Some seg" using Some 1(2-) by simp
      have f': "length (e_rcv_queue e') < unat (w_rcv (e_wnd e'))" using False 1(2-) by simp
      show ?thesis
        unfolding move_step [OF Some not_le_imp_less [OF False]] move_step [OF s' f']
        using 1(1) [OF Some refl, of "e'\<lparr>e_rcv_buf := bt_remove (e_rcv_nxt e') (e_rcv_buf e'),
            e_rcv_queue := e_rcv_queue e' @ [seg], e_rcv_nxt := e_rcv_nxt e' + 1\<rparr>"] False 1(2-) by simp
    qed
  qed
qed

lemma parse_data_cong:
  assumes "e_rcv_nxt e' = e_rcv_nxt e" "e_rcv_queue e' = e_rcv_queue e" "e_rcv_buf e' = e_rcv_buf e"
    "w_rcv (e_wnd e') = w_rcv (e_wnd e)"
  shows "e_rcv_nxt (parse_data s e') = e_rcv_nxt (parse_data s e)
    \<and> e_rcv_queue (parse_data s e') = e_rcv_queue (parse_data s e)
    \<and> e_rcv_buf (parse_data s e') = e_rcv_buf (parse_data s e)"
  using assms move_recv_cong [of "e'\<lparr>e_rcv_buf := bt_or_insert (s_sn s) s (e_rcv_buf e')\<rparr>"
      "e\<lparr>e_rcv_buf := bt_or_insert (s_sn s) s (e_rcv_buf e)\<rparr>"]
  by (simp add: parse_data_def Let_def)

lemma input_push_parse:
  "input_push seg e =
     (if seq_before (s_sn seg) (e_rcv_nxt e + w_rcv (e_wnd e))
      then parse_data seg (ack_push (s_sn seg) (h_ts (s_header seg)) e) else e)"
  by (simp add: input_push_def Let_def) (simp add: parse_data_def Let_def)

text \<open>What one segment does to the receive direction.\<close>

lemma process_segment_frame [simp]:
  "e_conv (fst (process_segment k current seg st)) = e_conv (fst st)"
  "w_rcv (e_wnd (fst (process_segment k current seg st))) = w_rcv (e_wnd (fst st))"
  by (simp_all add: process_segment_def input_ack_def input_push_def parse_una_def Let_def ack_push_def)

definition accepts_push :: "KcpSegment \<Rightarrow> KcpEngine \<Rightarrow> bool" where
  "accepts_push seg e \<longleftrightarrow> h_conv (s_header seg) = e_conv e \<and> h_cmd (s_header seg) = IKCP_CMD_PUSH
     \<and> seq_before (s_sn seg) (e_rcv_nxt e + w_rcv (e_wnd e))"

text \<open>What one segment does to the receive direction.\<close>

lemma process_segment_other:
  assumes "\<not> accepts_push seg (fst st)"
  shows "e_ack_list (fst (process_segment k current seg st)) = e_ack_list (fst st)
    \<and> e_rcv_nxt (fst (process_segment k current seg st)) = e_rcv_nxt (fst st)
    \<and> e_rcv_queue (fst (process_segment k current seg st)) = e_rcv_queue (fst st)
    \<and> e_rcv_buf (fst (process_segment k current seg st)) = e_rcv_buf (fst st)"
  using assms
  by (auto simp: accepts_push_def process_segment_def input_ack_def input_push_parse parse_una_def Let_def)

lemma process_segment_push:
  assumes "accepts_push seg (fst st)"
  shows "e_ack_list (fst (process_segment k current seg st)) = e_ack_list (fst st) @ [(s_sn seg, h_ts (s_header seg))]
    \<and> e_rcv_nxt (fst (process_segment k current seg st)) = e_rcv_nxt (parse_data seg (fst st))
    \<and> e_rcv_queue (fst (process_segment k current seg st)) = e_rcv_queue (parse_data seg (fst st))
    \<and> e_rcv_buf (fst (process_segment k current seg st)) = e_rcv_buf (parse_data seg (fst st))"
proof -
  let ?e1 = "parse_una (h_una (s_header seg)) ((fst st)\<lparr>e_wnd := (e_wnd (fst st))\<lparr>w_rmt := ucast (h_wnd (s_header seg))\<rparr>\<rparr>)"
  let ?e2 = "ack_push (s_sn seg) (h_ts (s_header seg)) ?e1"
  have "fst (process_segment k current seg st) = parse_data seg ?e2"
    using assms by (simp add: accepts_push_def process_segment_def input_push_parse parse_una_def Let_def)
  moreover have "e_ack_list ?e2 = e_ack_list (fst st) @ [(s_sn seg, h_ts (s_header seg))]"
    by (simp add: ack_push_def parse_una_def)
  ultimately show ?thesis
    using parse_data_cong [of ?e2 "fst st" seg] by (simp add: ack_push_def parse_una_def)
qed

lemma process_segment_delivers:
  assumes inv: "recv_inv (fst st)" and tr: "tracks D m (fst st)"
    and seg: "from_peer D n (e_conv (fst st)) seg" and m: "n \<le> m" "m \<le> n + 1073741824"
  shows "recv_inv (fst (process_segment k current seg st)) \<and>
    (\<exists>m'\<ge>m. tracks D m' (fst (process_segment k current seg st)) \<and>
      map content (e_rcv_queue (fst (process_segment k current seg st))) =
        map content (e_rcv_queue (fst st)) @ map D [m..<m'])"
proof (cases "accepts_push seg (fst st)")
  case False
  note same = process_segment_other [OF this, of k current]
  have "recv_inv (fst (process_segment k current seg st)) = recv_inv (fst st)"
    by (rule recv_inv_cong) (use same in simp_all)
  moreover have "tracks D m (fst (process_segment k current seg st)) = tracks D m (fst st)"
    by (rule tracks_cong) (use same in simp_all)
  ultimately show ?thesis using inv tr same by (intro conjI exI [of _ m]) simp_all
next
  case True
  note same = process_segment_push [OF this, of k current]
  obtain i where i: "s_sn seg = word_of_nat i" "content seg = D i" "i < n + 2147483648" "n \<le> i + 1073741824"
    using seg True by (auto simp: from_peer_def accepts_push_def)
  obtain m' where m': "m \<le> m'" "tracks D m' (parse_data seg (fst st))"
    "map content (e_rcv_queue (parse_data seg (fst st))) = map content (e_rcv_queue (fst st)) @ map D [m..<m']"
    using parse_data_delivers [OF inv tr i(1,2)] i(3,4) m by auto
  have "recv_inv (fst (process_segment k current seg st)) = recv_inv (parse_data seg (fst st))"
    by (rule recv_inv_cong) (use same in simp_all)
  moreover have "tracks D m' (fst (process_segment k current seg st)) = tracks D m' (parse_data seg (fst st))"
    by (rule tracks_cong) (use same in simp_all)
  ultimately show ?thesis
    using m' same parse_data_recv_inv [OF inv, of seg] by (intro conjI exI [of _ m']) simp_all
qed

lemma process_segments_delivers:
  assumes "recv_inv (fst st)" "tracks D m (fst st)" "n \<le> m"
    "\<forall>seg\<in>set segs. from_peer D n (e_conv (fst st)) seg"
    and wnd: "unat (w_rcv (e_wnd (fst st))) \<le> 1073741824"
    and grown: "m = n + (length (e_rcv_queue (fst st)) - q0)" "q0 \<le> length (e_rcv_queue (fst st))"
  shows "recv_inv (fst (process_segments ring current i segs st)) \<and>
    (\<exists>m'\<ge>m. tracks D m' (fst (process_segments ring current i segs st)) \<and>
      map content (e_rcv_queue (fst (process_segments ring current i segs st))) =
        map content (e_rcv_queue (fst st)) @ map D [m..<m'])"
  using assms
proof (induction segs arbitrary: i st m)
  case Nil
  then show ?case by (auto intro!: exI [of _ m])
next
  case (Cons seg segs)
  have "length (e_rcv_queue (fst st)) \<le> 1073741824" using Cons.prems(1,5) by (simp add: recv_inv_def)
  then have m: "m \<le> n + 1073741824" using Cons.prems(6) by simp
  let ?st = "process_segment (ring i) current seg st"
  have peer: "from_peer D n (e_conv (fst st)) seg" "\<forall>seg\<in>set segs. from_peer D n (e_conv (fst ?st)) seg"
    using Cons.prems(4) by simp_all
  obtain m1 where 1: "recv_inv (fst ?st)" "m \<le> m1" "tracks D m1 (fst ?st)"
    "map content (e_rcv_queue (fst ?st)) = map content (e_rcv_queue (fst st)) @ map D [m..<m1]"
    using process_segment_delivers [OF Cons.prems(1,2) peer(1) Cons.prems(3) m, of "ring i" current] by blast
  have len: "length (e_rcv_queue (fst ?st)) = length (e_rcv_queue (fst st)) + (m1 - m)"
    using arg_cong [OF 1(4), of length] by simp
  have p: "n \<le> m1" "unat (w_rcv (e_wnd (fst ?st))) \<le> 1073741824"
    "m1 = n + (length (e_rcv_queue (fst ?st)) - q0)" "q0 \<le> length (e_rcv_queue (fst ?st))"
    using Cons.prems(3,5,6,7) 1(2) unfolding len by simp_all
  obtain m' where 2: "m1 \<le> m'"
    "recv_inv (fst (process_segments ring current (Suc i) segs ?st))"
    "tracks D m' (fst (process_segments ring current (Suc i) segs ?st))"
    "map content (e_rcv_queue (fst (process_segments ring current (Suc i) segs ?st))) =
        map content (e_rcv_queue (fst ?st)) @ map D [m1..<m']"
    using Cons.IH [OF 1(1,3) p(1) peer(2) p(2-4), of "Suc i"] by blast
  have "[m..<m1] @ [m1..<m'] = [m..<m']"
    using 1(2) 2(1) upt_add_eq_append [of m m1 "m' - m1"] by simp
  then have "map D [m..<m1] @ map D [m1..<m'] = map D [m..<m']" by (metis map_append)
  then show ?case
    using 1(2,4) 2 by (intro conjI exI [of _ m']) simp_all
qed

lemma process_segments_skip:
  "\<forall>seg\<in>set segs. h_conv (s_header seg) \<noteq> e_conv (fst st) \<Longrightarrow> process_segments ring current i segs st = st"
  by (induction segs arbitrary: i) (simp_all add: process_segment_def)

lemma process_segments_acks:
  assumes "\<forall>seg\<in>set segs. \<not> (h_conv (s_header seg) = e_conv (fst st) \<and> h_cmd (s_header seg) = IKCP_CMD_PUSH)"
  shows "e_ack_list (fst (process_segments ring current i segs st)) = e_ack_list (fst st)"
  using assms
proof (induction segs arbitrary: i st)
  case (Cons seg segs)
  have "\<not> accepts_push seg (fst st)" using Cons.prems by (auto simp: accepts_push_def)
  then show ?case
    using Cons process_segment_other [of seg st "ring i" current] by simp
qed simp

text \<open>A whole packet of the peer's segments.\<close>

lemma input_delivers:
  assumes "proto_inv e" "tracks D n e" "unat (w_rcv (e_wnd e)) \<le> 1073741824" "24 \<le> length data"
    and "\<forall>seg\<in>set (packet_segments B data). from_peer D n (e_conv e) seg"
  shows "\<exists>m\<ge>n. tracks D m (fst (input B ring clk data e))
    \<and> map content (e_rcv_queue (fst (input B ring clk data e))) = map content (e_rcv_queue e) @ map D [n..<m]"
proof -
  let ?st = "(e\<lparr>e_last_activity := clk 0\<rparr>, no_acks)"
  let ?r = "process_segments ring (clk 0) 0 (packet_segments B data) ?st"
  have "recv_inv e" by (rule proto_invD(2) [OF assms(1)])
  then obtain m where m: "n \<le> m" "tracks D m (fst ?r)"
    "map content (e_rcv_queue (fst ?r)) = map content (e_rcv_queue e) @ map D [n..<m]"
    using process_segments_delivers [of ?st D n n "packet_segments B data" "length (e_rcv_queue e)" ring "clk 0" 0]
      assms(2,3,5) by auto
  have "tracks D m (finish_input (e_snd_una e) ?r) = tracks D m (fst ?r)"
    by (rule tracks_cong) simp_all
  then show ?thesis
    using m assms(4) by (intro exI [of _ m]) (simp add: input_eq)
qed

section \<open>Properties\<close>

definition input_engine :: KcpEngine where
  "input_engine = ack_engine\<lparr>e_snd_buf := [ack_seg (-1), ack_seg 1, ack_seg 3]\<rparr>"

lemma input_engine_ok: "proto_inv input_engine" "una_synced input_engine" "tracks D 0 input_engine"
  by (simp_all add: input_engine_def ack_engine_def ack_seg_def proto_inv_def send_inv_def in_flight_def
      recv_inv_def rtt_ok_def cwnd_inv_def mtu_ok_def mss_def snd_queue_ok_def snd_buf_ok_def data_seg_ok_def
      probe_ok_def una_synced_def tracks_def KcpEngine_new_def KcpCoreConfig_default_def ProbeState_default_def
      KcpSegment_push_def KcpSegment_new_def KcpHeader_new_def bt_empty_def bt_invar_def)

text \<open>
  Robustness against the peer: whatever bytes arrive, \<open>input\<close> keeps the protocol invariant of
  both directions (ordered send buffer within the send window, receive queue and buffer within the
  receive window, estimator, congestion window and probe timer in range) and leaves \<open>snd_una\<close> at the
  first segment in flight; it fails only on a packet shorter than a header, and then changes
  nothing but the activity time.
\<close>

theorem input_keeps_invariant:
  assumes "proto_inv e" "una_synced e"
  shows "proto_inv (fst (input B ring clk data e)) \<and> una_synced (fst (input B ring clk data e))
    \<and> (snd (input B ring clk data e) = Ok () \<longleftrightarrow> 24 \<le> length data)
    \<and> (length data < 24 \<longrightarrow> input B ring clk data e =
         (e\<lparr>e_last_activity := clk 0\<rparr>, Err (core_protocol ''Packet too small'')))"
  using input_invariants [OF assms] by (auto simp: input_eq)

theorem input_keeps_invariant_witness:
  "proto_inv (fst (input le_buf_api (\<lambda>_. 0) (\<lambda>_. 9) (replicate 60 81) input_engine))"
  using input_keeps_invariant [OF input_engine_ok(1,2)] by blast

text \<open>
  C21. A datagram is processed segment by segment. For a datagram that is the concatenation of encoded
  segments with correct length fields, which is what a peer's flush emits, \<open>input\<close> processes exactly
  these segments, in order, and then finishes the packet.
\<close>

theorem input_processes_packed_segments:
  assumes "buf_codec B" "segs \<noteq> []" "\<forall>seg\<in>set segs. unat (h_len (s_header seg)) = length (s_data seg)"
  shows "input B ring clk (concat (map (\<lambda>s. KcpSegment_encode B s []) segs)) e =
    (count_packet (finish_input (e_snd_una e)
       (process_segments ring (clk 0) 0 (map received segs) (e\<lparr>e_last_activity := clk 0\<rparr>, no_acks))), Ok ())"
proof -
  obtain s segs' where segs: "segs = s # segs'" using assms(2) by (cases segs) auto
  have "24 \<le> length (concat (map (\<lambda>s. KcpSegment_encode B s []) segs))"
    using buf_codec.segment_encode_length [OF assms(1), of s "[]"] by (simp add: segs KcpSegment_size_def)
  then show ?thesis
    by (simp add: input_eq buf_codec.packet_segments_concat [OF assms(1,3)])
qed

theorem input_processes_packed_segments_witness:
  "snd (input le_buf_api (\<lambda>_. 0) (\<lambda>_. 9) (concat (map (\<lambda>s. KcpSegment_encode le_buf_api s []) [ack_seg 0])) input_engine)
     = Ok ()"
proof -
  have "\<forall>seg\<in>set [ack_seg 0]. unat (h_len (s_header seg)) = length (s_data seg)"
    by (simp add: ack_seg_def KcpSegment_push_def KcpSegment_new_def KcpHeader_new_def)
  from input_processes_packed_segments [OF le.buf_codec_axioms _ this] show ?thesis by simp
qed

text \<open>
  Segments of another conversation are ignored: a datagram whose segments all carry a foreign
  conversation id changes only the activity time and the packet counter.
\<close>

theorem input_ignores_foreign_conv:
  assumes "una_synced e" "24 \<le> length data"
    and "\<forall>seg\<in>set (packet_segments B data). h_conv (s_header seg) \<noteq> e_conv e"
  shows "input B ring clk data e = (count_packet (e\<lparr>e_last_activity := clk 0\<rparr>), Ok ())"
proof -
  have shrink: "shrink_buf (e\<lparr>e_last_activity := t\<rparr>) = e\<lparr>e_last_activity := t\<rparr>" for t
    using assms(1) by (cases "e_snd_buf e") (auto simp: shrink_buf_def una_synced_def)
  have "\<not> seq_after una una" for una
    by (simp add: seq_after_def u32_as_i32_def)
  then show ?thesis
    using assms(2,3) by (simp add: input_eq process_segments_skip finish_input_def Let_def shrink update_cwnd_def)
qed

theorem input_ignores_foreign_conv_witness:
  "e_snd_buf (fst (input le_buf_api (\<lambda>_. 0) (\<lambda>_. 9)
     (KcpSegment_encode le_buf_api (KcpSegment_ack 0 8 1 0) [] @ []) input_engine)) = e_snd_buf input_engine"
proof -
  let ?a = "KcpSegment_ack 0 8 1 0"
  let ?d = "concat (map (\<lambda>s. KcpSegment_encode le_buf_api s []) [?a])"
  have "packet_segments le_buf_api ?d = map received [?a]"
    by (rule le.packet_segments_concat) (simp add: KcpSegment_ack_def KcpSegment_new_def KcpHeader_new_def)
  then have "\<forall>seg\<in>set (packet_segments le_buf_api ?d). h_conv (s_header seg) \<noteq> e_conv input_engine"
    by (simp add: received_def KcpSegment_ack_def KcpSegment_new_def KcpHeader_new_def input_engine_def
        ack_engine_def KcpEngine_new_def)
  moreover have "24 \<le> length ?d"
    using le.segment_encode_length [of ?a "[]"] by (simp add: KcpSegment_size_def)
  ultimately show ?thesis
    using input_ignores_foreign_conv [OF input_engine_ok(2), of ?d le_buf_api] by (simp add: count_packet_def)
qed

text \<open>
  C11. Reliable in-order delivery. When the data segments of a datagram come from a peer whose numbered
  segments are the sequence \<open>D\<close> (in any order, repeated, or missing some), then \<open>input\<close> appends to
  the receive queue exactly the next segments of \<open>D\<close>, none skipped and none twice, and again only
  segments of \<open>D\<close> wait in the receive buffer, each under its own number.
\<close>

theorem input_delivers_in_order:
  assumes "proto_inv e" "tracks D n e" "unat (w_rcv (e_wnd e)) \<le> 1073741824" "24 \<le> length data"
    and "\<forall>seg\<in>set (packet_segments B data). from_peer D n (e_conv e) seg"
  shows "\<exists>m\<ge>n. tracks D m (fst (input B ring clk data e))
    \<and> map content (e_rcv_queue (fst (input B ring clk data e))) = map content (e_rcv_queue e) @ map D [n..<m]"
  by (rule input_delivers [OF assms])

theorem input_delivers_in_order_witness:
  "\<exists>m\<ge>0. map content (e_rcv_queue (fst (input le_buf_api (\<lambda>_. 0) (\<lambda>_. 9)
      (concat (map (\<lambda>s. KcpSegment_encode le_buf_api s []) [ack_seg 1, ack_seg 0])) input_engine)))
     = map (\<lambda>_. (0, [1, 2, 3])) [0..<m]"
proof -
  let ?segs = "[ack_seg 1, ack_seg 0]"
  let ?d = "concat (map (\<lambda>s. KcpSegment_encode le_buf_api s []) ?segs)"
  have "packet_segments le_buf_api ?d = map received ?segs"
    by (rule le.packet_segments_concat) (simp add: ack_seg_def KcpSegment_push_def KcpSegment_new_def KcpHeader_new_def)
  then have "\<forall>seg\<in>set (packet_segments le_buf_api ?d). from_peer (\<lambda>_. (0, [1, 2, 3])) 0 (e_conv input_engine) seg"
    by (auto simp: from_peer_def content_def received_def ack_seg_def KcpSegment_push_def KcpSegment_new_def
        KcpHeader_new_def intro: exI [of _ 1] exI [of _ 0])
  moreover have "24 \<le> length ?d"
    using le.segment_encode_length [of "ack_seg 1" "[]"] by (simp add: KcpSegment_size_def)
  moreover have "unat (w_rcv (e_wnd input_engine)) \<le> 1073741824" "e_rcv_queue input_engine = []"
    by (simp_all add: input_engine_def ack_engine_def KcpEngine_new_def KcpCoreConfig_default_def)
  ultimately show ?thesis
    using input_delivers_in_order [OF input_engine_ok(1,3), of ?d le_buf_api "\<lambda>_. (0, [1, 2, 3])" "\<lambda>_. 0" "\<lambda>_. 9"]
    by auto
qed

text \<open>
  Acknowledgements. A data segment of this conversation numbered \<open>i\<close>, with the first \<open>n\<close> segments
  already delivered, is acknowledged with its own number and time stamp exactly when it lies below
  the end of the receive window; so duplicates of delivered segments are acknowledged again, and a
  segment beyond the window is neither acknowledged nor stored.
\<close>

theorem input_acknowledges_below_window_end:
  assumes "recv_inv (fst st)" "tracks D n (fst st)"
    and "h_conv (s_header seg) = e_conv (fst st)" "h_cmd (s_header seg) = IKCP_CMD_PUSH"
    and "s_sn seg = word_of_nat i" "i < n + 2147483648" "n \<le> i + 1073741824"
    and "unat (w_rcv (e_wnd (fst st))) \<le> 1073741824"
  shows "let e = fst st; e' = fst (process_segment k current seg st) in
    e_ack_list e' = e_ack_list e @ (if i < n + unat (w_rcv (e_wnd e)) then [(s_sn seg, h_ts (s_header seg))] else [])
    \<and> (n + unat (w_rcv (e_wnd e)) \<le> i \<longrightarrow>
         e_rcv_buf e' = e_rcv_buf e \<and> e_rcv_queue e' = e_rcv_queue e \<and> e_rcv_nxt e' = e_rcv_nxt e)"
proof -
  let ?r = "unat (w_rcv (e_wnd (fst st)))"
  have nxt: "e_rcv_nxt (fst st) = word_of_nat n" using assms(2) by (simp add: tracks_def)
  have "seq_before (word_of_nat i) (word_of_nat n + w_rcv (e_wnd (fst st))) \<longleftrightarrow> i < n + ?r"
  proof (cases "n \<le> i")
    case True
    have d: "unat (word_of_nat i - word_of_nat n :: u32) = i - n"
      using True assms(6) by (intro unat_word_of_nat_diff) simp_all
    show ?thesis
      using True d assms(6,8) seq_before_base [of "word_of_nat i" "word_of_nat n" "word_of_nat n + w_rcv (e_wnd (fst st))"]
      by auto
  next
    case False
    have d: "unat (word_of_nat n - word_of_nat i :: u32) = n - i"
      using False assms(7) by (intro unat_word_of_nat_diff) simp_all
    have eq: "word_of_nat n + w_rcv (e_wnd (fst st)) - word_of_nat i =
      (word_of_nat n - word_of_nat i) + w_rcv (e_wnd (fst st))" by simp
    have "unat (word_of_nat n + w_rcv (e_wnd (fst st)) - word_of_nat i) = (n - i) + ?r"
      unfolding eq using d assms(7,8) by (subst unat_add_u32) simp_all
    then show ?thesis
      using False assms(7,8) seq_before_base [of "word_of_nat i" "word_of_nat i" "word_of_nat n + w_rcv (e_wnd (fst st))"]
      by auto
  qed
  then have "accepts_push seg (fst st) \<longleftrightarrow> i < n + ?r"
    using assms(3-5) nxt by (simp add: accepts_push_def)
  then show ?thesis
    using process_segment_push [of seg st k current] process_segment_other [of seg st k current]
    by (auto simp: Let_def)
qed

theorem input_acknowledges_below_window_end_witness:
  "e_ack_list (fst (process_segment 0 9 (ack_seg 0) (input_engine, no_acks))) = [(0, 0)]"
proof -
  have "e_ack_list (fst (process_segment 0 9 (ack_seg 0) (input_engine, no_acks))) =
      e_ack_list input_engine @ [(s_sn (ack_seg 0), h_ts (s_header (ack_seg 0)))]"
  proof -
    have "recv_inv (fst (input_engine, no_acks))" "tracks (\<lambda>_. (0, [])) 0 (fst (input_engine, no_acks))"
      using proto_invD(2) [OF input_engine_ok(1)] input_engine_ok(3) by simp_all
    moreover have "h_conv (s_header (ack_seg 0)) = e_conv (fst (input_engine, no_acks))"
      "h_cmd (s_header (ack_seg 0)) = IKCP_CMD_PUSH" "s_sn (ack_seg 0) = word_of_nat 0"
      "unat (w_rcv (e_wnd (fst (input_engine, no_acks)))) = 128"
      by (simp_all add: ack_seg_def input_engine_def ack_engine_def KcpEngine_new_def KcpCoreConfig_default_def
          KcpSegment_push_def KcpSegment_new_def KcpHeader_new_def)
    ultimately show ?thesis
      using input_acknowledges_below_window_end [of "(input_engine, no_acks)" "\<lambda>_. (0, [])" 0 "ack_seg 0" 0 0 9]
      by (simp add: Let_def)
  qed
  then show ?thesis
    by (simp add: input_engine_def ack_engine_def ack_seg_def KcpEngine_new_def KcpSegment_push_def
        KcpSegment_new_def KcpHeader_new_def)
qed

end
