(* ===== verification/Kcp_Engine.thy ===== *)
theory Kcp_Engine
  imports Kcp_Engine_Input Kcp_Error
begin

text \<open>
  The engine as a state machine: one step per call of a public operation, with every clock reading,
  ring-buffer position and datagram left open. The invariant of the engine is proved once for the
  interface of invariants of transition systems (\<open>safe_system\<close>) and holds after every sequence of
  calls, failed ones included.
\<close>

unbundle bit_operations_syntax

section \<open>Transition systems with an invariant\<close>

locale safe_system =
  fixes init :: "'s \<Rightarrow> bool" and step :: "'s \<Rightarrow> 's \<Rightarrow> bool" and inv :: "'s \<Rightarrow> bool"
  assumes init_inv: "init s \<Longrightarrow> inv s"
    and step_inv: "inv s \<Longrightarrow> step s s' \<Longrightarrow> inv s'"
begin

lemma steps_inv: "step\<^sup>*\<^sup>* s s' \<Longrightarrow> inv s \<Longrightarrow> inv s'"
  by (induction rule: rtranclp_induct) (auto intro: step_inv)

lemma reachable_inv: "init s \<Longrightarrow> step\<^sup>*\<^sup>* s s' \<Longrightarrow> inv s'"
  using init_inv steps_inv by blast

end

section \<open>Calls of the engine\<close>

inductive engine_step :: "buf_api \<Rightarrow> KcpEngine \<Rightarrow> KcpEngine \<Rightarrow> bool" for B where
  step_send: "engine_step B e (fst (send clk data e))"
| step_recv: "engine_step B e (fst (recv e))"
| step_input: "engine_step B e (fst (input B ring clk data e))"
| step_flush: "engine_step B e (fst (flush B clk e))"
| step_update: "engine_step B e (fst (update B clk e))"
| step_keep_alive: "engine_step B e (fst (keep_alive_probe B clk e))"
| step_drain: "engine_step B e (snd (drain_output e))"
| step_set_conv: "engine_step B e (set_conv conv e)"
| step_start: "engine_step B e (fst (start e))"

inductive_cases engine_stepE: "engine_step B e e'"

definition engine_init :: "KcpEngine \<Rightarrow> bool" where
  "engine_init e \<longleftrightarrow> (\<exists>clk conv config. core_config_ok config \<and> e = KcpEngine_new clk conv config)"

definition engine_inv :: "buf_api \<Rightarrow> KcpEngine \<Rightarrow> bool" where
  "engine_inv B e \<longleftrightarrow> proto_inv e \<and> una_synced e \<and> output_ok B e
     \<and> w_snd (e_wnd e) = c_snd_wnd (e_config e) \<and> w_rcv (e_wnd e) = c_rcv_wnd (e_config e)"

lemma new_engine_inv:
  assumes "core_config_ok config"
  shows "engine_inv B (KcpEngine_new clk conv config)"
proof -
  let ?e = "KcpEngine_new clk conv config"
  have wnd: "unat (c_snd_wnd config) \<le> 65535" "unat (c_rcv_wnd config) \<le> 65535" "unat (c_mtu config) \<le> 65535"
    using assms by (simp_all add: core_config_ok_def word_le_nat_alt)
  have mtu: "unat (c_mtu (e_config ?e)) \<le> 65535"
    using wnd(3) by (simp add: KcpEngine_new_def max_def word_le_nat_alt)
  have "proto_inv ?e"
    using wnd mtu new_mtu_ok [of clk conv config]
    by (simp add: proto_inv_def)
      (simp add: KcpEngine_new_def Let_def send_inv_def in_flight_def recv_inv_def rtt_ok_def cwnd_inv_def
        snd_queue_ok_def snd_buf_ok_def probe_ok_def ProbeState_default_def bt_empty_def bt_invar_def)
  moreover have "una_synced ?e" by (simp add: KcpEngine_new_def Let_def una_synced_def)
  moreover have "w_snd (e_wnd ?e) = c_snd_wnd (e_config ?e)" "w_rcv (e_wnd ?e) = c_rcv_wnd (e_config ?e)"
    by (simp_all add: KcpEngine_new_def Let_def)
  ultimately show ?thesis by (simp add: engine_inv_def)
qed

section \<open>Each call keeps the invariant\<close>

text \<open>\<open>send\<close> touches the send queue, the byte counter and the activity time only.\<close>

definition same_but_queue :: "KcpEngine \<Rightarrow> KcpEngine \<Rightarrow> bool" where
  "same_but_queue e e' \<longleftrightarrow> (\<exists>q t st. e' = e\<lparr>e_snd_queue := q, e_last_activity := t, e_stats := st\<rparr>)"

lemma same_but_queue_refl [simp]: "same_but_queue e e"
  unfolding same_but_queue_def
  by (intro exI [of _ "e_snd_queue e"] exI [of _ "e_last_activity e"] exI [of _ "e_stats e"]) simp

lemma same_but_queue_updates:
  assumes "same_but_queue e e'"
  shows "same_but_queue e (e'\<lparr>e_snd_queue := q\<rparr>)" "same_but_queue e (e'\<lparr>e_last_activity := t\<rparr>)"
    "same_but_queue e (e'\<lparr>e_stats := st\<rparr>)"
proof -
  from assms obtain q0 t0 st0 where e': "e' = e\<lparr>e_snd_queue := q0, e_last_activity := t0, e_stats := st0\<rparr>"
    unfolding same_but_queue_def by blast
  show "same_but_queue e (e'\<lparr>e_snd_queue := q\<rparr>)"
    unfolding same_but_queue_def e' by (intro exI [of _ q] exI [of _ t0] exI [of _ st0]) simp
  show "same_but_queue e (e'\<lparr>e_last_activity := t\<rparr>)"
    unfolding same_but_queue_def e' by (intro exI [of _ q0] exI [of _ t] exI [of _ st0]) simp
  show "same_but_queue e (e'\<lparr>e_stats := st\<rparr>)"
    unfolding same_but_queue_def e' by (intro exI [of _ q0] exI [of _ t0] exI [of _ st]) simp
qed

lemma fragment_loop_same:
  "same_but_queue e x \<Longrightarrow> same_but_queue e (fragment_loop clk m count d n i off x)"
  by (induction n arbitrary: i off x) (simp_all add: Let_def same_but_queue_updates)

lemma send_fragments_same: "same_but_queue e x \<Longrightarrow> same_but_queue e (fst (send_fragments clk m d x))"
  by (simp add: send_fragments_def Let_def add_bytes_sent_def same_but_queue_updates fragment_loop_same)

lemma send_frame: "same_but_queue e (fst (send clk data e))"
proof -
  have base: "same_but_queue e (e\<lparr>e_last_activity := clk 0\<rparr>)" by (simp add: same_but_queue_updates)
  show ?thesis
  proof (cases "data = [] \<or> stream_merge (unat (mss e)) data (e\<lparr>e_last_activity := clk 0\<rparr>) = None")
    case True
    then show ?thesis using send_fragments_same [OF base] base by (auto simp: send_def Let_def)
  next
    case False
    then obtain e' rest n where t: "stream_merge (unat (mss e)) data (e\<lparr>e_last_activity := clk 0\<rparr>) = Some (e', rest, n)"
      by (cases "stream_merge (unat (mss e)) data (e\<lparr>e_last_activity := clk 0\<rparr>)") auto
    obtain q where "e' = e\<lparr>e_last_activity := clk 0, e_snd_queue := q\<rparr>"
      using stream_merge_SomeD [OF t] by auto
    then have "same_but_queue e e'" using same_but_queue_updates(1) [OF base] by simp
    then show ?thesis
      using False t send_fragments_same [of e e' clk "unat (mss e)" rest]
      by (auto simp: send_def Let_def add_bytes_sent_def same_but_queue_updates)
  qed
qed

lemma send_engine_inv:
  assumes "engine_inv B e" shows "engine_inv B (fst (send clk data e))"
proof -
  obtain q t st where eq: "fst (send clk data e) = e\<lparr>e_snd_queue := q, e_last_activity := t, e_stats := st\<rparr>"
    using send_frame unfolding same_but_queue_def by blast
  have inv: "proto_inv e" "una_synced e" "output_ok B e" using assms by (simp_all add: engine_inv_def)
  have "snd_queue_ok (e\<lparr>e_snd_queue := q, e_last_activity := t, e_stats := st\<rparr>)"
    using send_queue_ok [of e clk data] proto_invD(5,8) [OF inv(1)] eq by simp
  then have "proto_inv (e\<lparr>e_snd_queue := q, e_last_activity := t, e_stats := st\<rparr>)"
    using inv(1) by (simp add: proto_inv_def send_inv_def in_flight_def recv_inv_def cwnd_inv_def mtu_ok_def
        mss_def snd_buf_ok_def data_seg_ok_def)
  then show ?thesis
    using inv assms unfolding eq by (simp add: engine_inv_def una_synced_def output_ok_def split: list.split)
qed

lemma recv_other_fields:
  "e_conv (fst (recv e)) = e_conv e" "e_config (fst (recv e)) = e_config e" "e_snd_una (fst (recv e)) = e_snd_una e"
  "e_snd_nxt (fst (recv e)) = e_snd_nxt e" "e_snd_buf (fst (recv e)) = e_snd_buf e"
  "e_snd_queue (fst (recv e)) = e_snd_queue e" "e_wnd (fst (recv e)) = e_wnd e" "e_rtt (fst (recv e)) = e_rtt e"
  "p_wait (e_probe (fst (recv e))) = p_wait (e_probe e)" "e_output_queue (fst (recv e)) = e_output_queue e"
  "e_out_buf (fst (recv e)) = e_out_buf e" "e_ack_list (fst (recv e)) = e_ack_list e"
  "e_dead_link (fst (recv e)) = e_dead_link e"
  by (cases rule: recv_cases [of e]; auto simp: after_recv_def Let_def)+

lemma recv_engine_inv:
  assumes "engine_inv B e" shows "engine_inv B (fst (recv e))"
proof -
  have inv: "proto_inv e" "una_synced e" "output_ok B e" using assms by (simp_all add: engine_inv_def)
  have "proto_inv (fst (recv e))"
    using recv_recv_inv [OF proto_invD(2) [OF inv(1)]] proto_invD(3) [OF inv(1)]
    by (intro proto_inv_cong [OF inv(1)]) (simp_all add: recv_other_fields)
  then show ?thesis
    using inv assms by (simp add: engine_inv_def una_synced_def output_ok_def recv_other_fields split: list.split)
qed

lemma process_segments_wnd:
  "w_snd (e_wnd (fst (process_segments ring current i segs st))) = w_snd (e_wnd (fst st))"
  "w_rcv (e_wnd (fst (process_segments ring current i segs st))) = w_rcv (e_wnd (fst st))"
proof (induction segs arbitrary: i st)
  case (Cons seg segs)
  {
    case 1
    show ?case using Cons by (simp add: process_segment_def input_ack_def input_push_def parse_una_def ack_push_def Let_def)
  next
    case 2
    show ?case using Cons by simp
  }
qed simp_all

lemma process_segments_output_fields:
  "e_output_queue (fst (process_segments ring current i segs st)) = e_output_queue (fst st)"
  "e_out_buf (fst (process_segments ring current i segs st)) = e_out_buf (fst st)"
  "e_config (fst (process_segments ring current i segs st)) = e_config (fst st)"
proof (induction segs arbitrary: i st)
  case (Cons seg segs)
  have ack: "e_output_queue (parse_ack k sn e) = e_output_queue e" "e_out_buf (parse_ack k sn e) = e_out_buf e"
    "e_config (parse_ack k sn e) = e_config e" for k sn e
    by (auto simp: parse_ack_def split: sum.split)
  {
    case 1
    show ?case using Cons by (simp add: process_segment_def input_ack_def input_push_def parse_una_def ack_push_def ack Let_def)
  next
    case 2
    show ?case using Cons by (simp add: process_segment_def input_ack_def input_push_def parse_una_def ack_push_def ack Let_def)
  next
    case 3
    show ?case using Cons by (simp add: process_segment_def input_ack_def input_push_def parse_una_def ack_push_def ack Let_def)
  }
qed simp_all

lemma input_engine_inv:
  assumes "engine_inv B e" shows "engine_inv B (fst (input B ring clk data e))"
proof -
  have inv: "proto_inv e" "una_synced e" "output_ok B e" using assms by (simp_all add: engine_inv_def)
  have "output_ok B (fst (input B ring clk data e))"
    using inv(3) by (simp add: output_ok_def input_eq count_packet_def finish_input_def Let_def
        process_segments_output_fields)
  moreover have "w_snd (e_wnd (fst (input B ring clk data e))) = w_snd (e_wnd e)"
    "w_rcv (e_wnd (fst (input B ring clk data e))) = w_rcv (e_wnd e)"
    "e_config (fst (input B ring clk data e)) = e_config e"
    by (simp_all add: input_eq count_packet_def finish_input_def Let_def process_segments_output_fields
        process_segments_wnd)
  ultimately show ?thesis using input_invariants [OF inv(1,2)] assms by (simp add: engine_inv_def)
qed

context buf_codec
begin

lemma flush_engine_inv:
  assumes "engine_inv B e" shows "engine_inv B (fst (flush B clk e))"
proof -
  have inv: "proto_inv e" "una_synced e" "output_ok B e" using assms by (simp_all add: engine_inv_def)
  note p = proto_invD [OF inv(1)]
  note eff = flush_effects [where B = B and clk = clk, OF p(1)]
  note keep = flush_invariants [where B = B and clk = clk, OF p(1)]
  have "recv_inv (fst (flush B clk e)) = recv_inv e" by (rule recv_inv_cong) (simp_all add: eff)
  moreover have "probe_ok (e_probe (fst (flush B clk e)))"
    unfolding eff(17) using probe_timer_wait(1) [OF p(10)] by (simp add: probe_ok_def)
  moreover have "mtu_ok (fst (flush B clk e)) = mtu_ok e" by (simp add: mtu_ok_def eff)
  ultimately have "proto_inv (fst (flush B clk e))"
    using p keep(1,3) eff(18) by (simp add: proto_inv_def eff)
  then show ?thesis
    using keep(2) [OF inv(2)] flush_output_ok [OF p(1,5,8,9) inv(3)] assms
    by (simp add: engine_inv_def eff)
qed

end

lemma engine_inv_cong:
  assumes "engine_inv B e" "e_snd_una e' = e_snd_una e" "e_snd_nxt e' = e_snd_nxt e" "e_snd_buf e' = e_snd_buf e"
    "e_snd_queue e' = e_snd_queue e" "e_config e' = e_config e" "e_wnd e' = e_wnd e" "e_rtt e' = e_rtt e"
    "p_wait (e_probe e') = p_wait (e_probe e)" "e_rcv_nxt e' = e_rcv_nxt e" "e_rcv_queue e' = e_rcv_queue e"
    "e_rcv_buf e' = e_rcv_buf e" "set (e_output_queue e') \<subseteq> set (e_output_queue e)" "e_out_buf e' = e_out_buf e"
  shows "engine_inv B e'"
proof -
  have inv: "proto_inv e" "una_synced e" "output_ok B e" using assms(1) by (simp_all add: engine_inv_def)
  have "recv_inv e'" using proto_invD(2) [OF inv(1)] assms by (simp add: recv_inv_def)
  then have "proto_inv e'"
    using proto_invD(3) [OF inv(1)] assms by (intro proto_inv_cong [OF inv(1)]) simp_all
  then show ?thesis
    using inv(2,3) assms by (auto simp: engine_inv_def una_synced_def output_ok_def split: list.split)
qed

lemma engine_step_inv:
  assumes "buf_codec B" "engine_inv B e" "engine_step B e e'"
  shows "engine_inv B e'"
  using assms(3)
proof (cases rule: engine_step.cases)
  case (step_update clk)
  have "engine_inv B (e\<lparr>e_last_update := t\<rparr>)" for t
    by (rule engine_inv_cong [OF assms(2)]) simp_all
  then show ?thesis
    using buf_codec.flush_engine_inv [OF assms(1)] step_update by (cases rule: update_cases [of B clk e]) simp_all
next
  case (step_keep_alive clk)
  have "engine_inv B (e\<lparr>e_probe := (e_probe e)\<lparr>p_flags := f\<rparr>\<rparr>)" for f
    by (rule engine_inv_cong [OF assms(2)]) simp_all
  then show ?thesis
    using step_keep_alive buf_codec.flush_engine_inv [OF assms(1)] by (simp add: keep_alive_probe_def)
next
  case step_drain
  show ?thesis
    unfolding step_drain by (rule engine_inv_cong [OF assms(2)]) (simp_all add: drain_output_def)
next
  case (step_set_conv conv)
  show ?thesis
    unfolding step_set_conv by (rule engine_inv_cong [OF assms(2)]) (simp_all add: set_conv_def)
qed (use assms in \<open>simp_all add: send_engine_inv recv_engine_inv input_engine_inv
      buf_codec.flush_engine_inv start_def\<close>)

interpretation eng: safe_system engine_init "engine_step le_buf_api" "engine_inv le_buf_api"
  using new_engine_inv engine_step_inv [OF le.buf_codec_axioms]
  by unfold_locales (auto simp: engine_init_def)

section \<open>Properties\<close>

text \<open>
  C9. Safety of the engine over its whole life. From a validated configuration, after any sequence of
  calls with any data, datagrams and clock readings, calls that fail included: at most \<open>snd_wnd\<close>
  segments are in flight; receive queue and receive buffer hold at most \<open>rcv_wnd\<close> segments each; the
  retransmission timeout is at most 60 seconds and not below the minimum; every datagram waiting for
  the transport is no longer than the MTU; and the invariant of all parts holds.
\<close>

theorem engine_safe_in_every_reachable_state:
  assumes "core_config_ok config" "(engine_step le_buf_api)\<^sup>*\<^sup>* (KcpEngine_new clk conv config) e"
  shows "length (e_snd_buf e) \<le> unat (c_snd_wnd (e_config e)) \<and> in_flight e \<le> unat (c_snd_wnd (e_config e))
    \<and> length (e_rcv_queue e) \<le> unat (c_rcv_wnd (e_config e)) \<and> bt_len (e_rcv_buf e) \<le> unat (c_rcv_wnd (e_config e))
    \<and> r_min_rto (e_rtt e) \<le> r_rto (e_rtt e) \<and> r_rto (e_rtt e) \<le> 60000
    \<and> (\<forall>d \<in> set (e_output_queue e). d \<noteq> [] \<and> length d \<le> unat (c_mtu (e_config e)))
    \<and> engine_inv le_buf_api e"
proof -
  have init: "engine_init (KcpEngine_new clk conv config)" using assms(1) by (auto simp: engine_init_def)
  have inv: "engine_inv le_buf_api e" by (rule eng.reachable_inv [OF init assms(2)])
  then have p: "proto_inv e" and out: "output_ok le_buf_api e"
    and wnd: "w_snd (e_wnd e) = c_snd_wnd (e_config e)" "w_rcv (e_wnd e) = c_rcv_wnd (e_config e)"
    by (simp_all add: engine_inv_def)
  have snd: "in_flight e \<le> unat (c_snd_wnd (e_config e))" "length (e_snd_buf e) \<le> in_flight e"
    using proto_invD(1) [OF p] unfolding send_inv_def wnd by (auto intro: sn_window_length)
  have rcv: "length (e_rcv_queue e) \<le> unat (c_rcv_wnd (e_config e))" "bt_len (e_rcv_buf e) \<le> unat (c_rcv_wnd (e_config e))"
    using proto_invD(2) [OF p] rcv_buf_len_bound [OF proto_invD(2) [OF p]] wnd(2) by (simp_all add: recv_inv_def)
  have "r_min_rto (e_rtt e) \<le> r_rto (e_rtt e)" "r_rto (e_rtt e) \<le> 60000"
    using proto_invD(3) [OF p] by (simp_all add: rtt_ok_def word_le_nat_alt)
  moreover have "\<forall>d \<in> set (e_output_queue e). d \<noteq> [] \<and> length d \<le> unat (c_mtu (e_config e))"
    using out by (auto simp: output_ok_def packed_def)
  ultimately show ?thesis using snd rcv inv by auto
qed

lemma default_config_ok: "core_config_ok KcpCoreConfig_default"
  by (simp add: core_config_ok_def KcpCoreConfig_default_def NodeDelayConfig_normal_def)

theorem engine_safe_in_every_reachable_state_witness:
  "length (e_snd_buf (fst (flush le_buf_api (\<lambda>_. 5)
     (fst (send (\<lambda>_. 4) [1, 2, 3] (KcpEngine_new (\<lambda>_. 0) 7 KcpCoreConfig_default)))))) \<le>
   unat (c_snd_wnd (e_config (fst (flush le_buf_api (\<lambda>_. 5)
     (fst (send (\<lambda>_. 4) [1, 2, 3] (KcpEngine_new (\<lambda>_. 0) 7 KcpCoreConfig_default)))))))"
proof -
  let ?e0 = "KcpEngine_new (\<lambda>_. 0) 7 KcpCoreConfig_default"
  let ?e1 = "fst (send (\<lambda>_. 4) [1, 2, 3] ?e0)"
  have "(engine_step le_buf_api)\<^sup>*\<^sup>* ?e0 ?e1" by (rule r_into_rtranclp) (rule step_send)
  then have "(engine_step le_buf_api)\<^sup>*\<^sup>* ?e0 (fst (flush le_buf_api (\<lambda>_. 5) ?e1))"
    by (rule rtranclp.rtrancl_into_rtrancl) (rule step_flush)
  from engine_safe_in_every_reachable_state [OF default_config_ok this] show ?thesis by blast
qed

text \<open>
  The retry limit counts the first transmission: with a limit of 1, which validation accepts, the
  flush that sends a segment for the first time already reports the connection as lost, before any
  retransmission.
\<close>

theorem first_transmission_counts_as_retry:
  assumes "send_inv e" "e_dead_link e = 1" "0 < move_count e"
  shows "snd (flush B clk e) = Err core_connection_lost"
proof -
  let ?e1 = "move_to_send_buf (clk 0) e"
  obtain seg q where q: "take (move_count e) (e_snd_queue e) = seg # q"
  proof (cases "take (move_count e) (e_snd_queue e)")
    case Nil
    then have "length (take (move_count e) (e_snd_queue e)) = 0" by (simp only: list.size)
    then show ?thesis using assms(3) move_count_le(3) [OF assms(1)] by simp
  qed
  let ?s = "number_segment (clk 0) e seg"
  have "?s \<in> set (e_snd_buf ?e1)" by (simp add: move_to_send_buf_eq [OF assms(1)] q)
  then have "fst (mark_segment ?e1 (clk 0) (resend_limit ?e1) (rto_slack ?e1) ?s) \<in> set (pass_selected (clk 0) ?e1)"
    unfolding pass_selected_def selected_def by (auto simp: mark_new_segment)
  moreover have "s_xmit (fst (mark_segment ?e1 (clk 0) r x ?s)) = 1" for r x
    by (simp add: mark_segment_def number_segment_def stamp_def Let_def)
  moreover have "e_dead_link ?e1 = 1" using assms(2) by (simp add: move_to_send_buf_eq [OF assms(1)])
  ultimately have "pass_dead (clk 0) ?e1" unfolding pass_dead_def by (metis order_refl)
  then show ?thesis using flush_effects(1) [where B = B and clk = clk, OF assms(1)] by simp
qed

theorem first_transmission_counts_as_retry_witness:
  "core_config_ok (KcpCoreConfig_default\<lparr>c_max_retries := 1\<rparr>) \<and>
   snd (flush le_buf_api (\<lambda>_. 5) (flush_engine\<lparr>e_dead_link := 1\<rparr>)) = Err core_connection_lost"
proof -
  have "send_inv (flush_engine\<lparr>e_dead_link := 1\<rparr>)" "move_count (flush_engine\<lparr>e_dead_link := 1\<rparr>) = move_count flush_engine"
    using flush_engine_ok(1) by (simp_all add: send_inv_def in_flight_def move_count_def effective_cwnd_def Let_def)
  with first_transmission_counts_as_retry [of "flush_engine\<lparr>e_dead_link := 1\<rparr>" le_buf_api "\<lambda>_. 5"]
  show ?thesis
    using flush_engine_ok(8) default_config_ok by (simp add: core_config_ok_def)
qed

end
