(* ===== verification/Kcp_Actor.thy ===== *)
theory Kcp_Actor
  imports Kcp_Engine
begin

text \<open>
  The event loop that owns an engine: \<open>run_engine_actor\<close> of \<open>kcp/actor.rs\<close> with \<open>flush_output\<close>,
  \<open>random_unit_f32\<close> and \<open>drain_recv\<close>.

  The loop talks to channels, timers and a transport of other crates. What those calls return in one
  iteration is the \<open>event\<close> of the iteration, an argument of every step: which branches of the
  \<open>select!\<close> are ready and with what value, the messages further \<open>try_recv\<close> calls on the send channel
  yield, how many \<open>try_reserve\<close> calls on the data channel succeed, the clock readings and the hash
  bits. The effects on the outside are recorded in order: datagrams handed to the transport, messages
  put into the data channel, replies to commands. Log output is left out.
\<close>

unbundle bit_operations_syntax

section \<open>Commands, parameters, state\<close>

text \<open>A command carries a reply channel, except \<open>Close\<close>; the replies are recorded in the state.\<close>

datatype EngineCmd = Cmd_Flush | Cmd_Stats | Cmd_IsAlive | Cmd_Close

datatype cmd_reply = Reply_Flush "unit KcpResult" | Reply_Stats KcpStats | Reply_IsAlive bool

text \<open>A \<open>tokio::time::Instant\<close> is a number of nanoseconds; it never goes back.\<close>

type_synonym instant = nat

record actor_args =
  g_update_interval_ms :: u64
  g_keep_alive_ms :: "u64 option"
  g_simulate_loss :: "f32 option"
  g_send_high_water :: usize

record actor =
  a_engine :: KcpEngine
  a_last_probe :: instant
  a_send_closed :: bool
  a_closing :: bool
  a_close_deadline :: "instant option"
  a_wire :: "bytes list"
  a_delivered :: "bytes list"
  a_replies :: "cmd_reply list"

text \<open>
  \<open>v_clk k\<close> is the clock of the \<open>k\<close>-th engine call of the iteration that reads it (numbered in the
  step functions), \<open>v_send_clk i\<close> that of the \<open>i\<close>-th \<open>send\<close>, \<open>v_now k\<close> the \<open>k\<close>-th reading of
  \<open>Instant\<close>, \<open>v_bits k\<close> the hash bits drawn in the \<open>k\<close>-th \<open>flush_output\<close>.
\<close>

record event =
  v_timer :: bool
  v_cmd :: "EngineCmd option option"
  v_packet :: "bytes option option"
  v_data :: "bytes option option"
  v_more :: "bytes list"
  v_permits :: nat
  v_clk :: "nat \<Rightarrow> clock"
  v_send_clk :: "nat \<Rightarrow> clock"
  v_ring :: "nat \<Rightarrow> usize"
  v_now :: "nat \<Rightarrow> instant"
  v_bits :: "nat \<Rightarrow> nat \<Rightarrow> u64"

datatype flow = Continue | Break

section \<open>Output, delivery, waiting time\<close>

definition random_unit_f32 :: "u64 \<Rightarrow> rat" where
  "random_unit_f32 bits = of_nat (unat (drop_bit 40 bits)) / of_nat (2 ^ 24)"

fun less_f32 :: "rat \<Rightarrow> f32 \<Rightarrow> bool" where
  "less_f32 q (Finite p) = (q < p)"
| "less_f32 q PosInf = True"
| "less_f32 q _ = False"

definition dropped :: "f32 option \<Rightarrow> u64 \<Rightarrow> bool" where
  "dropped loss bits = (case loss of Some p \<Rightarrow> less_f32 (random_unit_f32 bits) p | None \<Rightarrow> False)"

fun flush_loop :: "f32 option \<Rightarrow> (nat \<Rightarrow> u64) \<Rightarrow> nat \<Rightarrow> bytes list \<Rightarrow> bytes list" where
  "flush_loop loss bits i [] = []"
| "flush_loop loss bits i (buf # bufs) =
     (if dropped loss (bits i) then flush_loop loss bits (Suc i) bufs
      else buf # flush_loop loss bits (Suc i) bufs)"

definition flush_output :: "actor_args \<Rightarrow> (nat \<Rightarrow> u64) \<Rightarrow> actor \<Rightarrow> actor" where
  "flush_output g bits a =
     (let (bufs, e) = drain_output (a_engine a)
      in a\<lparr>a_engine := e, a_wire := a_wire a @ flush_loop (g_simulate_loss g) bits 0 bufs\<rparr>)"

text \<open>The loop of \<open>drain_recv\<close>; the first argument is how many more reservations succeed.\<close>

fun drain_loop :: "nat \<Rightarrow> KcpEngine \<Rightarrow> KcpEngine \<times> bytes list" where
  "drain_loop 0 e = (e, [])"
| "drain_loop (Suc permits) e =
     (case recv e of
        (e', Inr (Some msg)) \<Rightarrow> (let (e'', msgs) = drain_loop permits e' in (e'', msg # msgs))
      | (e', _) \<Rightarrow> (e', []))"

definition drain_recv :: "nat \<Rightarrow> actor \<Rightarrow> actor" where
  "drain_recv permits a =
     (let (e, msgs) = drain_loop permits (a_engine a)
      in a\<lparr>a_engine := e, a_delivered := a_delivered a @ msgs\<rparr>)"

definition idle_cap_ms :: "actor_args \<Rightarrow> u64" where
  "idle_cap_ms g =
     max (case g_keep_alive_ms g of Some ka \<Rightarrow> ka | None \<Rightarrow> 1000) (max (g_update_interval_ms g) 1)"

definition wait_ms :: "actor_args \<Rightarrow> Timestamp \<Rightarrow> KcpEngine \<Rightarrow> u64" where
  "wait_ms g now e = clamp (ucast (check now e)) 1 (idle_cap_ms g)"

definition saturating_mul :: "u64 \<Rightarrow> u64 \<Rightarrow> u64" where
  "saturating_mul a b = (if unat a * unat b < 2 ^ 64 then a * b else -1)"

definition fatal :: "KcpCoreError + 'a \<Rightarrow> bool" where
  "fatal r = (case r of Inl e \<Rightarrow> core_is_fatal e | Inr _ \<Rightarrow> False)"

section \<open>The branches of the loop\<close>

text \<open>Keep-alive: dead-peer detection first, then at most one probe per window.\<close>

definition keep_alive_step :: "buf_api \<Rightarrow> u64 \<Rightarrow> event \<Rightarrow> actor \<Rightarrow> actor \<times> flow" where
  "keep_alive_step B ka v a =
     (if ucast (idle_ms (v_clk v 1 0) (a_engine a)) \<ge> saturating_mul ka 3 then (a, Break)
      else if ucast (idle_ms (v_clk v 2 0) (a_engine a)) \<ge> ka
              \<and> v_now v 0 - a_last_probe a \<ge> unat ka * 1000000 then
        (let (e, r) = keep_alive_probe B (v_clk v 3) (a_engine a);
             a1 = a\<lparr>a_last_probe := v_now v 1, a_engine := e\<rparr>
         in (a1, if fatal r then Break else Continue))
      else (a, Continue))"

definition on_timer :: "buf_api \<Rightarrow> actor_args \<Rightarrow> event \<Rightarrow> actor \<Rightarrow> actor \<times> flow" where
  "on_timer B g v a =
     (let (e, r) = flush B (v_clk v 0) (a_engine a);
          a1 = a\<lparr>a_engine := e\<rparr>
      in if fatal r then (a1, Break)
         else
           (let (a2, f) = (case g_keep_alive_ms g of
                             Some ka \<Rightarrow> keep_alive_step B ka v a1 | None \<Rightarrow> (a1, Continue))
            in if f = Break then (a2, Break)
               else (drain_recv (v_permits v) (flush_output g (v_bits v 0) a2), Continue)))"

text \<open>\<open>while let Ok(data) = send_rx.try_recv()\<close> on \<open>Close\<close>: no limit, errors of \<open>send\<close> ignored.\<close>

fun absorb_all :: "(nat \<Rightarrow> clock) \<Rightarrow> nat \<Rightarrow> bytes list \<Rightarrow> KcpEngine \<Rightarrow> KcpEngine" where
  "absorb_all clk i [] e = e"
| "absorb_all clk i (data # msgs) e = absorb_all clk (Suc i) msgs (fst (send (clk i) data e))"

definition on_close :: "buf_api \<Rightarrow> actor_args \<Rightarrow> event \<Rightarrow> actor \<Rightarrow> actor \<times> flow" where
  "on_close B g v a =
     (let e1 = absorb_all (v_send_clk v) 0 (v_more v) (a_engine a);
          e2 = fst (flush B (v_clk v 0) e1)
      in (flush_output g (v_bits v 0)
            (a\<lparr>a_engine := e2, a_send_closed := True, a_closing := True,
               a_close_deadline := Some (v_now v 0 + from_secs 10)\<rparr>), Continue))"

definition reply :: "cmd_reply \<Rightarrow> actor \<Rightarrow> actor" where
  "reply r a = a\<lparr>a_replies := a_replies a @ [r]\<rparr>"

definition map_err :: "('e \<Rightarrow> 'f) \<Rightarrow> 'e + 'a \<Rightarrow> 'f + 'a" where
  "map_err f r = (case r of Inl e \<Rightarrow> Inl (f e) | Inr x \<Rightarrow> Inr x)"

fun on_cmd :: "buf_api \<Rightarrow> actor_args \<Rightarrow> event \<Rightarrow> EngineCmd option \<Rightarrow> actor \<Rightarrow> actor \<times> flow" where
  "on_cmd B g v (Some Cmd_Flush) a =
     (let (e, r) = flush B (v_clk v 0) (a_engine a)
      in (reply (Reply_Flush (map_err KcpError_from r)) (flush_output g (v_bits v 0) (a\<lparr>a_engine := e\<rparr>)),
          Continue))"
| "on_cmd B g v (Some Cmd_Stats) a = (reply (Reply_Stats (e_stats (a_engine a))) a, Continue)"
| "on_cmd B g v (Some Cmd_IsAlive) a = (reply (Reply_IsAlive (\<not> is_dead (a_engine a))) a, Continue)"
| "on_cmd B g v (Some Cmd_Close) a = on_close B g v a"
| "on_cmd B g v None a = on_close B g v a"

fun on_packet :: "buf_api \<Rightarrow> actor_args \<Rightarrow> event \<Rightarrow> bytes option \<Rightarrow> actor \<Rightarrow> actor \<times> flow" where
  "on_packet B g v (Some data) a =
     (let e1 = fst (input B (v_ring v) (v_clk v 0) data (a_engine a));
          (e2, r) = flush B (v_clk v 1) e1;
          a1 = a\<lparr>a_engine := e2\<rparr>
      in if fatal r then (a1, Break)
         else (drain_recv (v_permits v) (flush_output g (v_bits v 0) a1), Continue))"
| "on_packet B g v None a = (a, Break)"

text \<open>\<open>while engine.send_queue_len() < send_high_water\<close> over the messages \<open>try_recv\<close> yields.\<close>

fun absorb_some :: "usize \<Rightarrow> (nat \<Rightarrow> clock) \<Rightarrow> nat \<Rightarrow> bytes list \<Rightarrow> KcpEngine \<Rightarrow> KcpEngine" where
  "absorb_some limit clk i [] e = e"
| "absorb_some limit clk i (data # msgs) e =
     (if send_queue_len e < limit
      then absorb_some limit clk (Suc i) msgs (fst (send (clk i) data e)) else e)"

fun on_data :: "buf_api \<Rightarrow> actor_args \<Rightarrow> event \<Rightarrow> bytes option \<Rightarrow> actor \<Rightarrow> actor \<times> flow" where
  "on_data B g v (Some data) a =
     (let e1 = fst (send (v_send_clk v 0) data (a_engine a));
          e2 = absorb_some (g_send_high_water g) (v_send_clk v) 1 (v_more v) e1;
          (e3, r) = flush B (v_clk v 0) e2;
          a1 = a\<lparr>a_engine := e3\<rparr>
      in if fatal r then (a1, Break) else (flush_output g (v_bits v 0) a1, Continue))"
| "on_data B g v None a = (a\<lparr>a_send_closed := True\<rparr>, Continue)"

section \<open>The loop\<close>

datatype branch = Timer | Cmd "EngineCmd option" | Packet "bytes option" | Data "bytes option" | Pending

text \<open>\<open>select!\<close> with \<open>biased\<close>: the first branch that is enabled and ready.\<close>

definition select_branch :: "actor_args \<Rightarrow> event \<Rightarrow> actor \<Rightarrow> branch" where
  "select_branch g v a =
     (if v_timer v then Timer
      else case (if \<not> a_closing a then v_cmd v else None) of Some c \<Rightarrow> Cmd c
      | None \<Rightarrow> (case v_packet v of Some p \<Rightarrow> Packet p
      | None \<Rightarrow> (case (if \<not> a_send_closed a \<and> send_queue_len (a_engine a) < g_send_high_water g
                      then v_data v else None) of Some d \<Rightarrow> Data d
      | None \<Rightarrow> Pending)))"

text \<open>The check behind the \<open>select!\<close>.\<close>

definition after_select :: "buf_api \<Rightarrow> actor_args \<Rightarrow> event \<Rightarrow> actor \<Rightarrow> actor \<times> flow" where
  "after_select B g v a =
     (if a_closing a
         \<and> (\<not> has_unsent_data (a_engine a)
            \<or> (case a_close_deadline a of Some d \<Rightarrow> v_now v 2 \<ge> d | None \<Rightarrow> False))
      then (flush_output g (v_bits v 1) (a\<lparr>a_engine := fst (flush B (v_clk v 4) (a_engine a))\<rparr>), Break)
      else (a, Continue))"

definition run_branch :: "buf_api \<Rightarrow> actor_args \<Rightarrow> event \<Rightarrow> branch \<Rightarrow> actor \<Rightarrow> actor \<times> flow" where
  "run_branch B g v b a =
     (case b of Timer \<Rightarrow> on_timer B g v a | Cmd c \<Rightarrow> on_cmd B g v c a | Packet p \<Rightarrow> on_packet B g v p a
      | Data d \<Rightarrow> on_data B g v d a | Pending \<Rightarrow> (a, Continue))"

text \<open>One turn of the loop. While no branch is ready, \<open>select!\<close> goes on waiting.\<close>

definition turn :: "buf_api \<Rightarrow> actor_args \<Rightarrow> event \<Rightarrow> actor \<Rightarrow> actor \<times> flow" where
  "turn B g v a =
     (let b = select_branch g v a; (a1, f) = run_branch B g v b a
      in if b = Pending \<or> f = Break then (a1, f) else after_select B g v a1)"

fun run_loop :: "buf_api \<Rightarrow> actor_args \<Rightarrow> event list \<Rightarrow> actor \<Rightarrow> actor \<times> flow" where
  "run_loop B g [] a = (a, Continue)"
| "run_loop B g (v # vs) a =
     (case turn B g v a of (a', Break) \<Rightarrow> (a', Break) | (a', Continue) \<Rightarrow> run_loop B g vs a')"

definition actor_start :: "buf_api \<Rightarrow> actor_args \<Rightarrow> event \<Rightarrow> KcpEngine \<Rightarrow> actor" where
  "actor_start B g v e =
     drain_recv (v_permits v) (flush_output g (v_bits v 0)
       \<lparr>a_engine = fst (update B (v_clk v 0) e), a_last_probe = v_now v 0, a_send_closed = False,
        a_closing = False, a_close_deadline = None, a_wire = [], a_delivered = [], a_replies = []\<rparr>)"

definition run_engine_actor :: "buf_api \<Rightarrow> actor_args \<Rightarrow> event \<Rightarrow> event list \<Rightarrow> KcpEngine \<Rightarrow> actor \<times> flow" where
  "run_engine_actor B g v0 vs e = run_loop B g vs (actor_start B g v0 e)"

section \<open>Every engine call keeps the engine in order\<close>

text \<open>The engine invariant together with the configuration, which no call changes.\<close>

definition engine_ok :: "buf_api \<Rightarrow> KcpCoreConfig \<Rightarrow> KcpEngine \<Rightarrow> bool" where
  "engine_ok B c e \<longleftrightarrow> engine_inv B e \<and> e_config e = c"

lemma engine_okD:
  assumes "engine_ok B c e"
  shows "engine_inv B e" "e_config e = c" "proto_inv e" "una_synced e" "output_ok B e" "send_inv e" "recv_inv e"
    "mtu_ok e" "w_rcv (e_wnd e) = c_rcv_wnd c" "w_snd (e_wnd e) = c_snd_wnd c"
  using assms proto_invD [of e] by (simp_all add: engine_ok_def engine_inv_def)

lemma engine_ok_last_update: "engine_ok B c e \<Longrightarrow> engine_ok B c (e\<lparr>e_last_update := t\<rparr>)"
  using engine_inv_cong [of B e "e\<lparr>e_last_update := t\<rparr>"] by (simp add: engine_ok_def)

lemma send_config: "e_config (fst (send clk data e)) = e_config e"
  using send_frame [of e clk data] unfolding same_but_queue_def by force

lemma engine_ok_send: "engine_ok B c e \<Longrightarrow> engine_ok B c (fst (send clk data e))"
  by (simp add: engine_ok_def send_engine_inv send_config)

lemma engine_ok_recv: "engine_ok B c e \<Longrightarrow> engine_ok B c (fst (recv e))"
  by (simp add: engine_ok_def recv_engine_inv recv_other_fields)

lemma input_config: "e_config (fst (input B ring clk data e)) = e_config e"
  by (simp add: input_eq count_packet_def finish_input_def Let_def process_segments_output_fields)

lemma engine_ok_input: "engine_ok B c e \<Longrightarrow> engine_ok B c (fst (input B ring clk data e))"
  by (simp add: engine_ok_def input_engine_inv input_config)

lemma engine_ok_drain: "engine_ok B c e \<Longrightarrow> engine_ok B c (snd (drain_output e))"
  using engine_inv_cong [of B e "snd (drain_output e)"] by (simp add: engine_ok_def drain_output_def)

lemma engine_ok_absorb_all: "engine_ok B c e \<Longrightarrow> engine_ok B c (absorb_all clk i msgs e)"
  by (induction msgs arbitrary: i e) (simp_all add: engine_ok_send)

lemma engine_ok_absorb_some: "engine_ok B c e \<Longrightarrow> engine_ok B c (absorb_some l clk i msgs e)"
  by (induction msgs arbitrary: i e) (simp_all add: engine_ok_send)

lemma drain_loop_step:
  "drain_loop (Suc n) e = (case snd (recv e) of
      Inr (Some msg) \<Rightarrow> (fst (drain_loop n (fst (recv e))), msg # snd (drain_loop n (fst (recv e))))
    | _ \<Rightarrow> (fst (recv e), []))"
  by (cases "recv e") (auto split: sum.split option.split prod.split)

declare drain_loop.simps(2) [simp del]

lemma engine_ok_drain_loop: "engine_ok B c e \<Longrightarrow> engine_ok B c (fst (drain_loop n e))"
  by (induction n arbitrary: e) (auto simp: drain_loop_step engine_ok_recv split: sum.split option.split)

context buf_codec
begin

lemma engine_ok_flush: "engine_ok B c e \<Longrightarrow> engine_ok B c (fst (flush B clk e))"
  using flush_engine_inv [of e clk] flush_effects(7) [where B = B and clk = clk and e = e] engine_okD(6) [of B c e]
  by (simp add: engine_ok_def)

lemma engine_ok_keep_alive: "engine_ok B c e \<Longrightarrow> engine_ok B c (fst (keep_alive_probe B clk e))"
proof -
  assume "engine_ok B c e"
  then have "engine_ok B c (e\<lparr>e_probe := (e_probe e)\<lparr>p_flags := f\<rparr>\<rparr>)" for f
    using engine_inv_cong [of B e "e\<lparr>e_probe := (e_probe e)\<lparr>p_flags := f\<rparr>\<rparr>"] by (simp add: engine_ok_def)
  then show ?thesis by (simp add: keep_alive_probe_def engine_ok_flush)
qed

lemma engine_ok_update: "engine_ok B c e \<Longrightarrow> engine_ok B c (fst (update B clk e))"
proof -
  assume "engine_ok B c e"
  then have "engine_ok B c (e\<lparr>e_last_update := t\<rparr>)" for t by (rule engine_ok_last_update)
  then show ?thesis using engine_ok_flush by (cases rule: update_cases [of B clk e]) simp_all
qed

end

section \<open>The invariant of the actor\<close>

text \<open>
  The engine is in order, every datagram handed to the transport is non-empty and within the MTU, no
  empty message was delivered, the flags of a graceful close agree, and at the head of the loop
  no datagram waits in the engine.
\<close>

definition actor_ok :: "buf_api \<Rightarrow> KcpCoreConfig \<Rightarrow> actor \<Rightarrow> bool" where
  "actor_ok B c a \<longleftrightarrow> engine_ok B c (a_engine a)
     \<and> (\<forall>d \<in> set (a_wire a). d \<noteq> [] \<and> length d \<le> unat (c_mtu c))
     \<and> [] \<notin> set (a_delivered a)
     \<and> (a_closing a \<longrightarrow> a_send_closed a) \<and> (a_closing a \<longleftrightarrow> a_close_deadline a \<noteq> None)"

definition drained :: "actor \<Rightarrow> bool" where
  "drained a \<longleftrightarrow> e_output_queue (a_engine a) = []"

lemma actor_okD: "actor_ok B c a \<Longrightarrow> engine_ok B c (a_engine a)"
  by (simp add: actor_ok_def)

lemma actor_ok_engine: "actor_ok B c a \<Longrightarrow> engine_ok B c e \<Longrightarrow> actor_ok B c (a\<lparr>a_engine := e\<rparr>)"
  by (simp add: actor_ok_def)

lemma actor_ok_updates:
  "actor_ok B c (a\<lparr>a_last_probe := t\<rparr>) = actor_ok B c a"
  "actor_ok B c a \<Longrightarrow> actor_ok B c (a\<lparr>a_send_closed := True\<rparr>)"
  "actor_ok B c a \<Longrightarrow> actor_ok B c (a\<lparr>a_send_closed := True, a_closing := True, a_close_deadline := Some d\<rparr>)"
  "actor_ok B c (reply r a) = actor_ok B c a"
  by (simp_all add: actor_ok_def reply_def)

lemma flush_loop_subset: "set (flush_loop loss bits i bufs) \<subseteq> set bufs"
  by (induction bufs arbitrary: i) auto

lemma actor_ok_flush_output:
  assumes "actor_ok B c a" shows "actor_ok B c (flush_output g bits a)"
proof -
  have "engine_ok B c (snd (drain_output (a_engine a)))" by (rule engine_ok_drain [OF actor_okD [OF assms]])
  moreover have "\<forall>d \<in> set (e_output_queue (a_engine a)). d \<noteq> [] \<and> length d \<le> unat (c_mtu c)"
    using engine_okD(2,5) [OF actor_okD [OF assms]] by (auto simp: output_ok_def packed_def)
  ultimately show "actor_ok B c (flush_output g bits a)"
    using assms flush_loop_subset [of "g_simulate_loss g" bits 0 "e_output_queue (a_engine a)"]
    by (auto simp: actor_ok_def flush_output_def drain_output_def)
qed

lemma drained_flush_output [simp]: "drained (flush_output g bits a)"
  by (simp add: drained_def flush_output_def drain_output_def)

lemma drain_loop_nonempty: "[] \<notin> set (snd (drain_loop n e))"
proof (induction n arbitrary: e)
  case (Suc n)
  then show ?case
    by (cases rule: recv_cases [of e]) (auto simp: drain_loop_step)
qed simp

lemma drain_loop_output: "e_output_queue (fst (drain_loop n e)) = e_output_queue e"
  by (induction n arbitrary: e) (auto simp: drain_loop_step recv_other_fields split: sum.split option.split)

lemma actor_ok_drain_recv:
  assumes "actor_ok B c a" shows "actor_ok B c (drain_recv n a)"
proof -
  have "engine_ok B c (fst (drain_loop n (a_engine a)))"
    by (rule engine_ok_drain_loop [OF actor_okD [OF assms]])
  then show ?thesis
    using assms drain_loop_nonempty [of n "a_engine a"]
    by (auto simp: actor_ok_def drain_recv_def split: prod.split)
qed

lemma drained_drain_recv [simp]: "drained (drain_recv n a) = drained a"
  using drain_loop_output [of n "a_engine a"] by (auto simp: drained_def drain_recv_def split: prod.split)


lemma drained_updates:
  "drained (a\<lparr>a_send_closed := x\<rparr>) = drained a" "drained (reply r a) = drained a"
  by (simp_all add: drained_def reply_def)

context buf_codec
begin

lemma keep_alive_ok:
  assumes "actor_ok B c a" shows "actor_ok B c (fst (keep_alive_step B ka v a))"
proof -
  have "engine_ok B c (fst (keep_alive_probe B clk (a_engine a)))" for clk
    by (rule engine_ok_keep_alive [OF actor_okD [OF assms]])
  then have "actor_ok B c (a\<lparr>a_last_probe := t, a_engine := fst (keep_alive_probe B clk (a_engine a))\<rparr>)" for t clk
    using assms by (simp add: actor_ok_def)
  then show ?thesis using assms by (simp add: keep_alive_step_def split_def Let_def)
qed

lemma flush_ok: "actor_ok B c a \<Longrightarrow> actor_ok B c (a\<lparr>a_engine := fst (flush B clk (a_engine a))\<rparr>)"
  by (rule actor_ok_engine) (simp_all add: engine_ok_flush actor_okD)

lemma on_timer_ok:
  assumes "actor_ok B c a"
  shows "actor_ok B c (fst (on_timer B g v a))"
    "snd (on_timer B g v a) = Continue \<Longrightarrow> drained (fst (on_timer B g v a))"
  using keep_alive_ok [OF flush_ok [OF assms], of _ v "v_clk v 0"] flush_ok [OF assms, of "v_clk v 0"]
  by (auto simp: on_timer_def split_def Let_def actor_ok_flush_output actor_ok_drain_recv split: option.split)

lemma on_close_ok:
  assumes "actor_ok B c a"
  shows "actor_ok B c (fst (on_close B g v a))" "drained (fst (on_close B g v a))"
proof -
  let ?e = "fst (flush B (v_clk v 0) (absorb_all (v_send_clk v) 0 (v_more v) (a_engine a)))"
  have "engine_ok B c ?e" by (intro engine_ok_flush engine_ok_absorb_all actor_okD [OF assms])
  then have "actor_ok B c (a\<lparr>a_engine := ?e, a_send_closed := True, a_closing := True,
               a_close_deadline := Some (v_now v 0 + from_secs 10)\<rparr>)"
    using assms by (simp add: actor_ok_def)
  then show "actor_ok B c (fst (on_close B g v a))" "drained (fst (on_close B g v a))"
    by (simp_all add: on_close_def Let_def actor_ok_flush_output)
qed

lemma on_cmd_ok:
  assumes "actor_ok B c a"
  shows "actor_ok B c (fst (on_cmd B g v cmd a))" "drained a \<Longrightarrow> drained (fst (on_cmd B g v cmd a))"
proof -
  have "actor_ok B c (fst (on_cmd B g v cmd a)) \<and> (drained a \<longrightarrow> drained (fst (on_cmd B g v cmd a)))"
  proof (cases cmd)
    case None
    then show ?thesis using on_close_ok [OF assms] by simp
  next
    case (Some x)
    then show ?thesis
      using assms on_close_ok [OF assms] flush_ok [OF assms, of "v_clk v 0"]
      by (cases x) (simp_all add: split_def Let_def actor_ok_updates drained_updates actor_ok_flush_output)
  qed
  then show "actor_ok B c (fst (on_cmd B g v cmd a))" "drained a \<Longrightarrow> drained (fst (on_cmd B g v cmd a))"
    by simp_all
qed

lemma on_packet_ok:
  assumes "actor_ok B c a"
  shows "actor_ok B c (fst (on_packet B g v p a))"
    "snd (on_packet B g v p a) = Continue \<Longrightarrow> drained (fst (on_packet B g v p a))"
proof -
  have e: "actor_ok B c (a\<lparr>a_engine := fst (flush B (v_clk v 1) (fst (input B (v_ring v) (v_clk v 0) d (a_engine a))))\<rparr>)" for d
    by (intro actor_ok_engine [OF assms] engine_ok_flush engine_ok_input actor_okD [OF assms])
  show "actor_ok B c (fst (on_packet B g v p a))"
    using assms e by (cases p) (simp_all add: split_def Let_def actor_ok_flush_output actor_ok_drain_recv)
  show "snd (on_packet B g v p a) = Continue \<Longrightarrow> drained (fst (on_packet B g v p a))"
    by (cases p) (simp_all add: split_def Let_def split: if_splits)
qed

lemma on_data_ok:
  assumes "actor_ok B c a"
  shows "actor_ok B c (fst (on_data B g v d a))"
    "drained a \<Longrightarrow> snd (on_data B g v d a) = Continue \<Longrightarrow> drained (fst (on_data B g v d a))"
proof -
  have e: "actor_ok B c (a\<lparr>a_engine := fst (flush B (v_clk v 0) (absorb_some (g_send_high_water g) (v_send_clk v) 1
      (v_more v) (fst (send (v_send_clk v 0) m (a_engine a)))))\<rparr>)" for m
    by (intro actor_ok_engine [OF assms] engine_ok_flush engine_ok_absorb_some engine_ok_send actor_okD [OF assms])
  show "actor_ok B c (fst (on_data B g v d a))"
    using assms e by (cases d) (simp_all add: split_def Let_def actor_ok_flush_output actor_ok_updates)
  show "drained a \<Longrightarrow> snd (on_data B g v d a) = Continue \<Longrightarrow> drained (fst (on_data B g v d a))"
    by (cases d) (simp_all add: split_def Let_def drained_updates split: if_splits)
qed

lemma run_branch_ok:
  assumes "actor_ok B c a"
  shows "actor_ok B c (fst (run_branch B g v b a))"
    "drained a \<Longrightarrow> snd (run_branch B g v b a) = Continue \<Longrightarrow> drained (fst (run_branch B g v b a))"
proof -
  show "actor_ok B c (fst (run_branch B g v b a))"
    using assms by (cases b) (simp_all add: run_branch_def on_timer_ok on_cmd_ok on_packet_ok on_data_ok)
  show "drained a \<Longrightarrow> snd (run_branch B g v b a) = Continue \<Longrightarrow> drained (fst (run_branch B g v b a))"
    using on_timer_ok(2) [OF assms] on_cmd_ok(2) [OF assms] on_packet_ok(2) [OF assms] on_data_ok(2) [OF assms]
    by (cases b) (simp_all add: run_branch_def)
qed

lemma after_select_ok:
  assumes "actor_ok B c a"
  shows "actor_ok B c (fst (after_select B g v a))" "drained a \<Longrightarrow> drained (fst (after_select B g v a))"
  using assms actor_ok_flush_output [OF flush_ok [OF assms]] by (auto simp: after_select_def)

lemma turn_ok:
  assumes "actor_ok B c a"
  shows "actor_ok B c (fst (turn B g v a))"
    "drained a \<Longrightarrow> snd (turn B g v a) = Continue \<Longrightarrow> drained (fst (turn B g v a))"
proof -
  let ?r = "run_branch B g v (select_branch g v a) a"
  note r = run_branch_ok [OF assms, of g v "select_branch g v a"]
  note s = after_select_ok [OF r(1), of g v]
  have eq: "turn B g v a = (if select_branch g v a = Pending \<or> snd ?r = Break then ?r else after_select B g v (fst ?r))"
    by (simp add: turn_def split_def Let_def)
  show "actor_ok B c (fst (turn B g v a))" unfolding eq using r(1) s(1) by simp
  show "drained a \<Longrightarrow> snd (turn B g v a) = Continue \<Longrightarrow> drained (fst (turn B g v a))"
    unfolding eq using r(2) s(2) by (cases "snd ?r") (simp_all split: if_splits)
qed

lemma run_loop_step:
  "run_loop B g (v # vs) a =
     (if snd (turn B g v a) = Break then (fst (turn B g v a), Break) else run_loop B g vs (fst (turn B g v a)))"
  by (cases "turn B g v a"; cases "snd (turn B g v a)") auto

lemma run_loop_ok:
  assumes "actor_ok B c a" shows "actor_ok B c (fst (run_loop B g vs a))"
  using assms
proof (induction vs arbitrary: a)
  case (Cons v vs)
  then show ?case using turn_ok(1) [OF Cons.prems, of g v] by (simp add: run_loop_step del: run_loop.simps)
qed simp

lemma run_loop_drained:
  assumes "actor_ok B c a" "drained a" "snd (run_loop B g vs a) = Continue" shows "drained (fst (run_loop B g vs a))"
  using assms
proof (induction vs arbitrary: a)
  case (Cons v vs)
  then show ?case
    using turn_ok [OF Cons.prems(1), of g v]
    by (cases "snd (turn B g v a)") (simp_all add: run_loop_step del: run_loop.simps)
qed simp

lemma actor_start_ok:
  assumes "engine_ok B c e"
  shows "actor_ok B c (actor_start B g v e)" "drained (actor_start B g v e)"
proof -
  have "actor_ok B c \<lparr>a_engine = fst (update B (v_clk v 0) e), a_last_probe = v_now v 0, a_send_closed = False,
        a_closing = False, a_close_deadline = None, a_wire = [], a_delivered = [], a_replies = []\<rparr>"
    using engine_ok_update [OF assms] by (simp add: actor_ok_def)
  then show "actor_ok B c (actor_start B g v e)" "drained (actor_start B g v e)"
    by (simp_all add: actor_start_def actor_ok_flush_output actor_ok_drain_recv)
qed

end

section \<open>Waiting time\<close>

text \<open>The bounds of the \<open>clamp\<close> are in order, so it does not panic, and the wait never passes the cap.\<close>

lemma wait_ms_bounds: "1 \<le> idle_cap_ms g \<and> 1 \<le> wait_ms g now e \<and> wait_ms g now e \<le> idle_cap_ms g"
proof -
  have "(1 :: u64) \<le> idle_cap_ms g" by (simp add: idle_cap_ms_def le_max_iff_disj)
  then show ?thesis using clamp_bounds [of 1 "idle_cap_ms g"] by (simp add: wait_ms_def)
qed

section \<open>Properties\<close>

text \<open>
  C13. Safety of the event loop over its whole run, whatever arrives on its channels, in any order, and
  whatever the clocks and the loss simulation do: the engine keeps its invariant, every datagram handed
  to the transport is non-empty and at most one MTU long, no empty message is delivered (so a reader
  never mistakes one for the end of the stream), a closing loop takes no more writes, and
  while the loop goes on, no datagram stays behind in the engine.
\<close>

theorem actor_safe_in_every_run:
  assumes "buf_codec B" "engine_ok B c e" "run_engine_actor B g v0 vs e = (a, f)"
  shows "engine_inv B (a_engine a)
    \<and> (\<forall>d \<in> set (a_wire a). d \<noteq> [] \<and> length d \<le> unat (c_mtu c))
    \<and> [] \<notin> set (a_delivered a) \<and> (a_closing a \<longrightarrow> a_send_closed a)
    \<and> (f = Continue \<longrightarrow> e_output_queue (a_engine a) = [])"
proof -
  let ?a0 = "actor_start B g v0 e"
  have run: "run_loop B g vs ?a0 = (a, f)" using assms(3) by (simp add: run_engine_actor_def)
  note start = buf_codec.actor_start_ok [OF assms(1,2), of g v0]
  have "actor_ok B c a" using buf_codec.run_loop_ok [OF assms(1) start(1), of g vs] run by simp
  moreover have "drained a" if "f = Continue"
    using buf_codec.run_loop_drained [OF assms(1) start, of g vs] run that by simp
  ultimately show ?thesis by (auto simp: actor_ok_def engine_ok_def drained_def)
qed

text \<open>A fresh engine with the default configuration, and an event in which nothing is ready.\<close>

definition fresh_engine :: KcpEngine where
  "fresh_engine = KcpEngine_new (\<lambda>_. 0) 7 KcpCoreConfig_default"

definition quiet :: event where
  "quiet = \<lparr>v_timer = False, v_cmd = None, v_packet = None, v_data = None, v_more = [], v_permits = 1,
     v_clk = (\<lambda>_ _. 0), v_send_clk = (\<lambda>_ _. 0), v_ring = (\<lambda>_. 0), v_now = (\<lambda>_. 0), v_bits = (\<lambda>_ _. 0)\<rparr>"

definition some_args :: actor_args where
  "some_args = \<lparr>g_update_interval_ms = 40, g_keep_alive_ms = Some 30000, g_simulate_loss = None,
     g_send_high_water = 128\<rparr>"

lemma fresh_engine_ok: "engine_ok le_buf_api KcpCoreConfig_default fresh_engine"
proof -
  have "e_config fresh_engine = KcpCoreConfig_default"
    by (simp add: fresh_engine_def KcpEngine_new_def KcpCoreConfig_default_def Let_def)
  then show ?thesis
    using new_engine_inv [OF default_config_ok] by (simp add: engine_ok_def fresh_engine_def)
qed

theorem actor_safe_in_every_run_witness:
  "[] \<notin> set (a_delivered (fst (run_engine_actor le_buf_api some_args quiet
     [quiet\<lparr>v_data := Some (Some [1, 2, 3])\<rparr>, quiet\<lparr>v_timer := True\<rparr>] fresh_engine)))"
proof -
  let ?r = "run_engine_actor le_buf_api some_args quiet
     [quiet\<lparr>v_data := Some (Some [1, 2, 3])\<rparr>, quiet\<lparr>v_timer := True\<rparr>] fresh_engine"
  have "?r = (fst ?r, snd ?r)" by simp
  from actor_safe_in_every_run [OF le.buf_codec_axioms fresh_engine_ok this] show ?thesis by blast
qed

end
