(* ===== verification/Kcp_Peer.thy ===== *)
theory Kcp_Peer
  imports Kcp_Actor
begin

text \<open>
  One end of a connection as its engine sees it. Whatever the event loop does in a turn is a sequence of
  calls of its engine; a peer is the engine together with what the calls have exchanged with the outside:
  the datagrams put into the network, the messages taken from the application and those handed to it. What
  every call keeps is so kept by the event loop (\<open>turn_calls\<close>, \<open>run_calls\<close>).
\<close>

section \<open>Steps of a peer\<close>

record peer =
  p_engine :: KcpEngine
  p_wire :: "bytes set"
  p_taken :: "bytes list"
  p_delivered :: "bytes list"

text \<open>The message a result of \<open>recv\<close> carries, if any.\<close>

definition message_of :: "KcpCoreError + bytes option \<Rightarrow> bytes list" where
  "message_of r = (case r of Inr (Some msg) \<Rightarrow> [msg] | _ \<Rightarrow> [])"

text \<open>
  \<open>A\<close> tells which datagrams may arrive at an engine. Of the drained datagrams some may be lost on the
  way to the network.
\<close>

inductive peer_call :: "buf_api \<Rightarrow> (KcpEngine \<Rightarrow> bytes \<Rightarrow> bool) \<Rightarrow> peer \<Rightarrow> peer \<Rightarrow> bool" for B A p where
  call_send: "peer_call B A p
    (p\<lparr>p_engine := fst (send clk data (p_engine p)), p_taken := p_taken p @ [data]\<rparr>)"
| call_recv: "peer_call B A p
    (p\<lparr>p_engine := fst (recv (p_engine p)), p_delivered := p_delivered p @ message_of (snd (recv (p_engine p)))\<rparr>)"
| call_input: "A (p_engine p) data \<Longrightarrow> peer_call B A p (p\<lparr>p_engine := fst (input B ring clk data (p_engine p))\<rparr>)"
| call_flush: "peer_call B A p (p\<lparr>p_engine := fst (flush B clk (p_engine p))\<rparr>)"
| call_update: "peer_call B A p (p\<lparr>p_engine := fst (update B clk (p_engine p))\<rparr>)"
| call_keep_alive: "peer_call B A p (p\<lparr>p_engine := fst (keep_alive_probe B clk (p_engine p))\<rparr>)"
| call_drain: "D \<subseteq> set (e_output_queue (p_engine p)) \<Longrightarrow> peer_call B A p
    (p\<lparr>p_engine := snd (drain_output (p_engine p)), p_wire := p_wire p \<union> D\<rparr>)"

text \<open>Before its event loop starts, a server's stream also sets the conversation id.\<close>

inductive peer_step :: "buf_api \<Rightarrow> (KcpEngine \<Rightarrow> bytes \<Rightarrow> bool) \<Rightarrow> peer \<Rightarrow> peer \<Rightarrow> bool" for B A p where
  peer_call: "peer_call B A p p' \<Longrightarrow> peer_step B A p p'"
| peer_set_conv: "peer_step B A p (p\<lparr>p_engine := set_conv conv (p_engine p)\<rparr>)"

abbreviation peer_calls :: "buf_api \<Rightarrow> (KcpEngine \<Rightarrow> bytes \<Rightarrow> bool) \<Rightarrow> peer \<Rightarrow> peer \<Rightarrow> bool" where
  "peer_calls B A \<equiv> (peer_call B A)\<^sup>*\<^sup>*"

abbreviation peer_steps :: "buf_api \<Rightarrow> (KcpEngine \<Rightarrow> bytes \<Rightarrow> bool) \<Rightarrow> peer \<Rightarrow> peer \<Rightarrow> bool" where
  "peer_steps B A \<equiv> (peer_step B A)\<^sup>*\<^sup>*"

lemma calls_steps: "peer_calls B A p p' \<Longrightarrow> peer_steps B A p p'"
  by (erule mono_rtranclp [rule_format, rotated]) (rule peer_call)

inductive_cases peer_callE: "peer_call B A p p'"

lemma peer_send: "peer_step B A p
    (p\<lparr>p_engine := fst (send clk data (p_engine p)), p_taken := p_taken p @ [data]\<rparr>)"
  by (intro peer_call call_send)

lemma peer_recv: "peer_step B A p
    (p\<lparr>p_engine := fst (recv (p_engine p)), p_delivered := p_delivered p @ message_of (snd (recv (p_engine p)))\<rparr>)"
  by (intro peer_call call_recv)

lemma peer_input: "A (p_engine p) data \<Longrightarrow> peer_step B A p (p\<lparr>p_engine := fst (input B ring clk data (p_engine p))\<rparr>)"
  by (intro peer_call call_input)

lemma peer_flush: "peer_step B A p (p\<lparr>p_engine := fst (flush B clk (p_engine p))\<rparr>)"
  by (intro peer_call call_flush)

lemma peer_update: "peer_step B A p (p\<lparr>p_engine := fst (update B clk (p_engine p))\<rparr>)"
  by (intro peer_call call_update)

lemma peer_keep_alive: "peer_step B A p (p\<lparr>p_engine := fst (keep_alive_probe B clk (p_engine p))\<rparr>)"
  by (intro peer_call call_keep_alive)

lemma peer_drain: "D \<subseteq> set (e_output_queue (p_engine p)) \<Longrightarrow> peer_step B A p
    (p\<lparr>p_engine := snd (drain_output (p_engine p)), p_wire := p_wire p \<union> D\<rparr>)"
  by (intro peer_call call_drain)

lemma peer_stepE:
  assumes "peer_step B A p p'"
  obtains
    (peer_send) data clk where "p' = p\<lparr>p_engine := fst (send clk data (p_engine p)), p_taken := p_taken p @ [data]\<rparr>"
  | (peer_recv) "p' = p\<lparr>p_engine := fst (recv (p_engine p)), p_delivered := p_delivered p @ message_of (snd (recv (p_engine p)))\<rparr>"
  | (peer_input) data ring clk where "p' = p\<lparr>p_engine := fst (input B ring clk data (p_engine p))\<rparr>" "A (p_engine p) data"
  | (peer_flush) clk where "p' = p\<lparr>p_engine := fst (flush B clk (p_engine p))\<rparr>"
  | (peer_update) clk where "p' = p\<lparr>p_engine := fst (update B clk (p_engine p))\<rparr>"
  | (peer_keep_alive) clk where "p' = p\<lparr>p_engine := fst (keep_alive_probe B clk (p_engine p))\<rparr>"
  | (peer_set_conv) conv where "p' = p\<lparr>p_engine := set_conv conv (p_engine p)\<rparr>"
  | (peer_drain) D where "p' = p\<lparr>p_engine := snd (drain_output (p_engine p)), p_wire := p_wire p \<union> D\<rparr>"
      "D \<subseteq> set (e_output_queue (p_engine p))"
  using assms
proof cases
  case peer_call
  then show thesis using that(1-6,8) by (rule peer_callE)
qed (rule that(7))

lemma peer_step_mono: "peer_step B A p p' \<Longrightarrow> (\<And>e d. A e d \<Longrightarrow> A' e d) \<Longrightarrow> peer_step B A' p p'"
  by (erule peer_stepE)
    (blast intro: peer_send peer_recv peer_input peer_flush peer_update peer_keep_alive peer_set_conv peer_drain)+

text \<open>The configuration and the invariant of the engine.\<close>

context buf_codec
begin

lemma peer_step_ok: "peer_step B A p p' \<Longrightarrow> engine_ok B c (p_engine p) \<Longrightarrow> engine_ok B c (p_engine p')"
proof (erule peer_stepE)
  fix conv assume "engine_ok B c (p_engine p)" "p' = p\<lparr>p_engine := set_conv conv (p_engine p)\<rparr>"
  then show ?thesis
    using engine_inv_cong [of B "p_engine p" "set_conv conv (p_engine p)"] by (simp add: engine_ok_def set_conv_def)
qed (simp_all add: engine_ok_send engine_ok_recv engine_ok_input engine_ok_flush engine_ok_update engine_ok_keep_alive
    engine_ok_drain)

lemma peer_steps_ok: "peer_steps B A p p' \<Longrightarrow> engine_ok B c (p_engine p) \<Longrightarrow> engine_ok B c (p_engine p')"
  by (induction rule: rtranclp_induct) (simp_all add: peer_step_ok)

text \<open>What every step keeps of an engine in order, any number of steps keeps.\<close>

lemma peer_steps_keep:
  assumes "\<And>p p'. engine_ok B c (p_engine p) \<Longrightarrow> I p \<Longrightarrow> peer_step B A p p' \<Longrightarrow> I p'"
    and "peer_steps B A p p'" "engine_ok B c (p_engine p)" "I p"
  shows "I p'"
  using assms(2-4)
proof (induction rule: rtranclp_induct)
  case (step p1 p2)
  then show ?case using assms(1) peer_steps_ok [OF step.hyps(1)] by blast
qed

end

section \<open>A turn of the event loop as steps of a peer\<close>

text \<open>The messages that one turn, and a whole run, takes out of the send channel.\<close>

fun absorbed :: "usize \<Rightarrow> (nat \<Rightarrow> clock) \<Rightarrow> nat \<Rightarrow> bytes list \<Rightarrow> KcpEngine \<Rightarrow> bytes list" where
  "absorbed limit clk i [] e = []"
| "absorbed limit clk i (data # msgs) e =
     (if send_queue_len e < limit then data # absorbed limit clk (Suc i) msgs (fst (send (clk i) data e)) else [])"

definition taken :: "actor_args \<Rightarrow> event \<Rightarrow> actor \<Rightarrow> bytes list" where
  "taken g v a =
     (case select_branch g v a of
        Data (Some data) \<Rightarrow> data # absorbed (g_send_high_water g) (v_send_clk v) 1 (v_more v)
                               (fst (send (v_send_clk v 0) data (a_engine a)))
      | Cmd c \<Rightarrow> if c = Some Cmd_Close \<or> c = None then v_more v else []
      | _ \<Rightarrow> [])"

fun run_taken :: "buf_api \<Rightarrow> actor_args \<Rightarrow> event list \<Rightarrow> actor \<Rightarrow> bytes list" where
  "run_taken B g [] a = []"
| "run_taken B g (v # vs) a =
     taken g v a @ (case turn B g v a of (a', Break) \<Rightarrow> [] | (a', Continue) \<Rightarrow> run_taken B g vs a')"

text \<open>The peer of an event loop that has taken the messages \<open>M\<close>.\<close>

definition peer_of :: "bytes list \<Rightarrow> actor \<Rightarrow> peer" where
  "peer_of M a = \<lparr>p_engine = a_engine a, p_wire = set (a_wire a), p_taken = M, p_delivered = a_delivered a\<rparr>"

lemma peer_of_simps [simp]:
  "p_engine (peer_of M a) = a_engine a" "p_wire (peer_of M a) = set (a_wire a)" "p_taken (peer_of M a) = M"
  "p_delivered (peer_of M a) = a_delivered a" "peer_of M (a\<lparr>a_engine := e\<rparr>) = (peer_of M a)\<lparr>p_engine := e\<rparr>"
  "peer_of M (a\<lparr>a_last_probe := t\<rparr>) = peer_of M a" "peer_of M (reply r a) = peer_of M a"
  "peer_of M (a\<lparr>a_send_closed := x\<rparr>) = peer_of M a" "peer_of M (a\<lparr>a_closing := x\<rparr>) = peer_of M a"
  "peer_of M (a\<lparr>a_close_deadline := d\<rparr>) = peer_of M a" "(peer_of M a)\<lparr>p_taken := M'\<rparr> = peer_of M' a"
  by (simp_all add: peer_of_def reply_def)

lemma flush_output_call: "peer_call B A (peer_of M a) (peer_of M (flush_output g bits a))"
proof -
  let ?D = "set (flush_loop (g_simulate_loss g) bits 0 (e_output_queue (a_engine a)))"
  have "peer_of M (flush_output g bits a) =
      (peer_of M a)\<lparr>p_engine := snd (drain_output (a_engine a)), p_wire := set (a_wire a) \<union> ?D\<rparr>"
    by (simp add: peer_of_def flush_output_def drain_output_def)
  then show ?thesis
    using call_drain [of ?D "peer_of M a" B A] flush_loop_subset by simp
qed

lemma drain_loop_calls:
  "peer_calls B A p (p\<lparr>p_engine := fst (drain_loop n (p_engine p)),
     p_delivered := p_delivered p @ snd (drain_loop n (p_engine p))\<rparr>)"
proof (induction n arbitrary: p)
  case (Suc n)
  let ?p = "p\<lparr>p_engine := fst (recv (p_engine p)), p_delivered := p_delivered p @ message_of (snd (recv (p_engine p)))\<rparr>"
  have step: "peer_call B A p ?p" by (rule call_recv)
  show ?case
  proof (cases "\<exists>msg. snd (recv (p_engine p)) = Ok (Some msg)")
    case True
    then show ?thesis
      using converse_rtranclp_into_rtranclp [of "peer_call B A", OF step Suc.IH [of ?p]] by (auto simp: drain_loop_step message_of_def)
  next
    case False
    then have "drain_loop (Suc n) (p_engine p) = (fst (recv (p_engine p)), [])" "message_of (snd (recv (p_engine p))) = []"
      by (auto simp: drain_loop_step message_of_def split: sum.split option.split)
    then show ?thesis using step by (simp add: r_into_rtranclp)
  qed
qed simp

lemma drain_recv_calls: "peer_calls B A (peer_of M a) (peer_of M (drain_recv n a))"
  using drain_loop_calls [of B A "peer_of M a" n] by (simp add: peer_of_def drain_recv_def split_def Let_def)

lemma absorb_all_calls:
  "peer_calls B A p (p\<lparr>p_engine := absorb_all clk i msgs (p_engine p), p_taken := p_taken p @ msgs\<rparr>)"
proof (induction msgs arbitrary: i p)
  case (Cons data msgs)
  from converse_rtranclp_into_rtranclp [of "peer_call B A", OF call_send Cons.IH] show ?case by simp
qed simp

lemma absorb_some_calls:
  "peer_calls B A p (p\<lparr>p_engine := absorb_some limit clk i msgs (p_engine p),
     p_taken := p_taken p @ absorbed limit clk i msgs (p_engine p)\<rparr>)"
proof (induction msgs arbitrary: i p)
  case (Cons data msgs)
  show ?case
  proof (cases "send_queue_len (p_engine p) < limit")
    case True
    let ?p = "p\<lparr>p_engine := fst (send (clk i) data (p_engine p)), p_taken := p_taken p @ [data]\<rparr>"
    have "peer_call B A p ?p" by (rule call_send)
    from converse_rtranclp_into_rtranclp [of "peer_call B A", OF this Cons.IH [of ?p "Suc i"]] True show ?thesis by simp
  qed simp
qed simp

lemma flush_call: "peer_call B A (peer_of M a) (peer_of M (a\<lparr>a_engine := fst (flush B clk (a_engine a))\<rparr>))"
  using call_flush [of B A "peer_of M a" clk] by simp

lemma flush_output_after: "peer_calls B A p (peer_of M a) \<Longrightarrow> peer_calls B A p (peer_of M (flush_output g bits a))"
  by (erule rtranclp.rtrancl_into_rtrancl) (rule flush_output_call)

lemma drain_recv_after: "peer_calls B A p (peer_of M a) \<Longrightarrow> peer_calls B A p (peer_of M (drain_recv n a))"
  by (erule rtranclp_trans) (rule drain_recv_calls)

lemma flush_after: "peer_calls B A p q \<Longrightarrow> peer_calls B A p (q\<lparr>p_engine := fst (flush B clk (p_engine q))\<rparr>)"
  by (erule rtranclp.rtrancl_into_rtrancl) (rule call_flush)

lemmas calls_after = flush_output_after drain_recv_after flush_after

lemma keep_alive_calls:
  "peer_calls B A (peer_of M a) (peer_of M (fst (keep_alive_step B ka v a)))"
  using call_keep_alive [of B A "peer_of M a" "v_clk v 3"]
  by (auto simp: keep_alive_step_def split_def Let_def intro: r_into_rtranclp)

lemma on_timer_calls: "peer_calls B A (peer_of M a) (peer_of M (fst (on_timer B g v a)))"
proof -
  let ?a = "a\<lparr>a_engine := fst (flush B (v_clk v 0) (a_engine a))\<rparr>"
  have 1: "peer_calls B A (peer_of M a) (peer_of M ?a)" by (rule r_into_rtranclp) (rule flush_call)
  have 2: "peer_calls B A (peer_of M a) (peer_of M (fst (keep_alive_step B ka v ?a)))" for ka
    by (rule rtranclp_trans [OF 1 keep_alive_calls])
  show ?thesis
    using 1 2 calls_after(1,2) by (auto simp: on_timer_def split_def Let_def split: option.split)
qed

lemma on_close_calls: "peer_calls B A (peer_of M a) (peer_of (M @ v_more v) (fst (on_close B g v a)))"
  using absorb_all_calls [where p = "peer_of M a" and clk = "v_send_clk v" and i = 0 and msgs = "v_more v" and B = B and A = A]
  unfolding on_close_def Let_def fst_conv
  by (intro flush_output_after) (simp, drule flush_after, simp)

lemma on_cmd_calls:
  "peer_calls B A (peer_of M a)
     (peer_of (M @ (if cmd = Some Cmd_Close \<or> cmd = None then v_more v else [])) (fst (on_cmd B g v cmd a)))"
proof (cases cmd)
  case (Some x)
  have "peer_calls B A (peer_of M a) (peer_of M (flush_output g bits (a\<lparr>a_engine := fst (flush B clk (a_engine a))\<rparr>)))"
    for bits clk
    by (intro flush_output_after r_into_rtranclp flush_call)
  then show ?thesis using on_close_calls by (cases x) (simp_all add: Some split_def Let_def)
qed (simp add: on_close_calls)

lemma on_packet_calls:
  assumes "\<forall>data. pkt = Some data \<longrightarrow> A (a_engine a) data"
  shows "peer_calls B A (peer_of M a) (peer_of M (fst (on_packet B g v pkt a)))"
proof (cases pkt)
  case (Some data)
  have "peer_calls B A (peer_of M a) (peer_of M (a\<lparr>a_engine := fst (input B (v_ring v) (v_clk v 0) data (a_engine a))\<rparr>))"
    using assms Some call_input [of A "peer_of M a" data B] by (simp add: r_into_rtranclp)
  from flush_after [OF this, of "v_clk v 1"]
  have "peer_calls B A (peer_of M a) (peer_of M (a\<lparr>a_engine :=
      fst (flush B (v_clk v 1) (fst (input B (v_ring v) (v_clk v 0) data (a_engine a))))\<rparr>))"
    by simp
  then show ?thesis
    using calls_after(1,2) unfolding Some on_packet.simps split_def Let_def fst_conv by (simp only: if_distrib split: if_split)
       (simp del: peer_of_simps)
qed simp

lemma on_data_calls:
  assumes "msgs = (case d of None \<Rightarrow> [] | Some data \<Rightarrow>
    data # absorbed (g_send_high_water g) (v_send_clk v) 1 (v_more v) (fst (send (v_send_clk v 0) data (a_engine a))))"
  shows "peer_calls B A (peer_of M a) (peer_of (M @ msgs) (fst (on_data B g v d a)))"
proof (cases d)
  case None
  then show ?thesis using assms by simp
next
  case (Some data)
  let ?p = "(peer_of M a)\<lparr>p_engine := fst (send (v_send_clk v 0) data (a_engine a)), p_taken := M @ [data]\<rparr>"
  let ?e = "absorb_some (g_send_high_water g) (v_send_clk v) 1 (v_more v) (fst (send (v_send_clk v 0) data (a_engine a)))"
  have "peer_call B A (peer_of M a) ?p"
    using call_send [where p = "peer_of M a" and clk = "v_send_clk v 0" and data = data and B = B and A = A] by simp
  from converse_rtranclp_into_rtranclp [of "peer_call B A", OF this absorb_some_calls [where p = ?p and limit = "g_send_high_water g" and clk = "v_send_clk v" and i = 1 and msgs = "v_more v"]]
  have "peer_calls B A (peer_of M a) (peer_of (M @ msgs) (a\<lparr>a_engine := ?e\<rparr>))"
    using assms Some by (simp add: peer_of_def)
  from flush_after [OF this, of "v_clk v 0"]
  have "peer_calls B A (peer_of M a) (peer_of (M @ msgs) (a\<lparr>a_engine := fst (flush B (v_clk v 0) ?e)\<rparr>))"
    by simp
  then show ?thesis
    using flush_output_after by (simp add: Some split_def Let_def del: peer_of_simps)
qed

lemma select_packet: "select_branch g v a = Packet p \<Longrightarrow> v_packet v = Some p"
  by (auto simp: select_branch_def split: if_splits option.splits)

lemma run_branch_calls:
  assumes "\<forall>data. v_packet v = Some (Some data) \<longrightarrow> A (a_engine a) data"
  shows "peer_calls B A (peer_of M a) (peer_of (M @ taken g v a) (fst (run_branch B g v (select_branch g v a) a)))"
proof (cases "select_branch g v a")
  case (Packet p)
  then show ?thesis using assms on_packet_calls select_packet by (fastforce simp: run_branch_def taken_def)
next
  case (Data d)
  then show ?thesis
    using on_data_calls [OF refl, where d = d] by (cases d) (simp_all add: run_branch_def taken_def del: on_data.simps)
qed (use on_timer_calls on_cmd_calls in \<open>simp_all add: run_branch_def taken_def\<close>)

text \<open>A turn, the start and a run of the loop, for any events whose packets may arrive.\<close>

theorem turn_calls:
  assumes "\<forall>data. v_packet v = Some (Some data) \<longrightarrow> A (a_engine a) data"
  shows "peer_calls B A (peer_of M a) (peer_of (M @ taken g v a) (fst (turn B g v a)))"
proof -
  let ?r = "run_branch B g v (select_branch g v a) a"
  note r = run_branch_calls [where A = A and B = B and M = M and g = g, OF assms]
  have "peer_calls B A (peer_of M a)
      (peer_of (M @ taken g v a) ((fst ?r)\<lparr>a_engine := fst (flush B (v_clk v 4) (a_engine (fst ?r)))\<rparr>))"
    by (rule rtranclp.rtrancl_into_rtrancl [OF r]) (rule flush_call)
  then have "peer_calls B A (peer_of M a) (peer_of (M @ taken g v a) (fst (after_select B g v (fst ?r))))"
    using r flush_output_after
    by (simp add: after_select_def del: peer_of_simps)
  with r show ?thesis by (simp add: turn_def split_def Let_def del: peer_of_simps)
qed

lemma start_calls:
  "peer_calls B A \<lparr>p_engine = e, p_wire = {}, p_taken = [], p_delivered = []\<rparr> (peer_of [] (actor_start B g v e))"
proof -
  let ?a = "\<lparr>a_engine = fst (update B (v_clk v 0) e), a_last_probe = v_now v 0, a_send_closed = False,
        a_closing = False, a_close_deadline = None, a_wire = [], a_delivered = [], a_replies = []\<rparr>"
  have "peer_calls B A \<lparr>p_engine = e, p_wire = {}, p_taken = [], p_delivered = []\<rparr> (peer_of [] ?a)"
    using call_update [of B A "\<lparr>p_engine = e, p_wire = {}, p_taken = [], p_delivered = []\<rparr>" "v_clk v 0"]
    by (simp add: peer_of_def r_into_rtranclp)
  then show ?thesis unfolding actor_start_def by (intro drain_recv_after flush_output_after)
qed

lemma run_calls:
  assumes "\<forall>v\<in>set vs. \<forall>data. v_packet v = Some (Some data) \<longrightarrow> (\<forall>e. A e data)"
  shows "peer_calls B A (peer_of M a) (peer_of (M @ run_taken B g vs a) (fst (run_loop B g vs a)))"
  using assms
proof (induction vs arbitrary: M a)
  case (Cons v vs)
  obtain a' f where t: "turn B g v a = (a', f)" by force
  have "\<forall>data. v_packet v = Some (Some data) \<longrightarrow> A (a_engine a) data" using Cons.prems by simp
  then have 1: "peer_calls B A (peer_of M a) (peer_of (M @ taken g v a) a')"
    using turn_calls [where A = A and v = v and a = a and g = g and B = B] t by fastforce
  have "\<forall>v\<in>set vs. \<forall>data. v_packet v = Some (Some data) \<longrightarrow> (\<forall>e. A e data)" using Cons.prems by simp
  from rtranclp_trans [OF 1 Cons.IH [OF this]] show ?case using 1 t by (cases f) (simp_all del: peer_of_simps)
qed simp

definition start_peer :: "KcpEngine \<Rightarrow> peer" where
  "start_peer e = \<lparr>p_engine = e, p_wire = {}, p_taken = [], p_delivered = []\<rparr>"

lemma actor_run_calls:
  assumes "\<forall>v\<in>set vs. \<forall>data. v_packet v = Some (Some data) \<longrightarrow> (\<forall>e. A e data)"
  shows "peer_calls B A (start_peer e)
    (peer_of (run_taken B g vs (actor_start B g v0 e)) (fst (run_engine_actor B g v0 vs e)))"
  using rtranclp_trans [OF start_calls run_calls [OF assms, where M = "[]"]]
  by (simp add: run_engine_actor_def start_peer_def del: peer_of_simps)

text \<open>A call is a step.\<close>

lemmas turn_steps = calls_steps [OF turn_calls]
lemmas start_steps = calls_steps [OF start_calls]
lemmas actor_run_steps = calls_steps [OF actor_run_calls]

end
