(* ===== verification/Kcp_Actor_Delivery.thy ===== *)
theory Kcp_Actor_Delivery
  imports Kcp_Peer
begin

text \<open>
  What the event loop promises to the two ends of a connection. Receiving: the messages it delivers are,
  byte for byte and in order, what the peer sent; the loop refines a FIFO that hands out the
  segments of the peer's sequence one after the other. Sending: back-pressure bounds the send
  queue, and a graceful close loses no write that was already accepted.
\<close>

section \<open>Forward simulation\<close>

locale forward_simulation =
  fixes cstep :: "'c \<Rightarrow> 'c \<Rightarrow> bool" and astep :: "'a \<Rightarrow> 'a \<Rightarrow> bool" and R :: "'c \<Rightarrow> 'a \<Rightarrow> bool"
  assumes simulates: "R c a \<Longrightarrow> cstep c c' \<Longrightarrow> \<exists>a'. astep\<^sup>*\<^sup>* a a' \<and> R c' a'"
begin

lemma simulates_steps: "cstep\<^sup>*\<^sup>* c c' \<Longrightarrow> R c a \<Longrightarrow> \<exists>a'. astep\<^sup>*\<^sup>* a a' \<and> R c' a'"
proof (induction rule: rtranclp_induct)
  case base
  then show ?case by blast
next
  case (step c1 c2)
  then obtain a1 where a1: "astep\<^sup>*\<^sup>* a a1" "R c1 a1" by blast
  obtain a2 where "astep\<^sup>*\<^sup>* a1 a2" "R c2 a2" using simulates [OF a1(2) step.hyps(2)] by blast
  then show ?case using rtranclp_trans [OF a1(1)] by blast
qed

end

section \<open>The engine as a receiver\<close>

text \<open>The first \<open>n\<close> segments of the sequence \<open>D\<close> have been queued, the first \<open>k\<close> have been taken.\<close>

definition rcv_rel :: "(nat \<Rightarrow> u8 \<times> bytes) \<Rightarrow> nat \<Rightarrow> nat \<Rightarrow> KcpEngine \<Rightarrow> bool" where
  "rcv_rel D n k e \<longleftrightarrow> k \<le> n \<and> tracks D n e \<and> map content (e_rcv_queue e) = map D [k..<n]"

text \<open>The bytes of the segments \<open>k\<close> up to \<open>k' - 1\<close>.\<close>

definition bytes_of :: "(nat \<Rightarrow> u8 \<times> bytes) \<Rightarrow> nat \<Rightarrow> nat \<Rightarrow> bytes" where
  "bytes_of D k k' = concat (map (snd \<circ> D) [k..<k'])"

lemma bytes_of_append: "k \<le> k' \<Longrightarrow> k' \<le> k'' \<Longrightarrow> bytes_of D k k'' = bytes_of D k k' @ bytes_of D k' k''"
  using upt_add_eq_append [of k k' "k'' - k'"] by (simp add: bytes_of_def)

lemma bytes_of_self [simp]: "bytes_of D k k = []"
  by (simp add: bytes_of_def)

lemma payload_content: "map content segs = map D [k..<k'] \<Longrightarrow> payload segs = bytes_of D k k'"
proof -
  assume "map content segs = map D [k..<k']"
  then have "map snd (map content segs) = map snd (map D [k..<k'])" by simp
  then show ?thesis by (simp add: payload_def bytes_of_def content_def o_def)
qed

definition same_recv :: "KcpEngine \<Rightarrow> KcpEngine \<Rightarrow> bool" where
  "same_recv e e' \<longleftrightarrow> e_rcv_nxt e' = e_rcv_nxt e \<and> e_rcv_queue e' = e_rcv_queue e \<and> e_rcv_buf e' = e_rcv_buf e
     \<and> w_rcv (e_wnd e') = w_rcv (e_wnd e)"

lemma same_recv_refl [simp]: "same_recv e e"
  by (simp add: same_recv_def)

lemma same_recv_trans: "same_recv e e1 \<Longrightarrow> same_recv e1 e2 \<Longrightarrow> same_recv e e2"
  by (simp add: same_recv_def)

lemma rcv_rel_cong: "same_recv e e' \<Longrightarrow> rcv_rel D n k e' = rcv_rel D n k e"
  using tracks_cong [of e' e D n] by (simp add: rcv_rel_def same_recv_def)

lemma same_recv_send: "same_recv e (fst (send clk data e))"
  using send_frame [of e clk data] unfolding same_but_queue_def by (force simp: same_recv_def)

lemma same_recv_flush: "send_inv e \<Longrightarrow> same_recv e (fst (flush B clk e))"
  using flush_effects(6,10-12,14) [where B = B and clk = clk and e = e] by (simp add: same_recv_def)

lemma same_recv_drain: "same_recv e (snd (drain_output e))"
  by (simp add: same_recv_def drain_output_def)

lemma same_recv_set_conv: "same_recv e (set_conv conv e)"
  by (simp add: same_recv_def set_conv_def)

lemma send_inv_cong:
  "e_snd_una e' = e_snd_una e \<Longrightarrow> e_snd_nxt e' = e_snd_nxt e \<Longrightarrow> e_snd_buf e' = e_snd_buf e \<Longrightarrow>
   w_snd (e_wnd e') = w_snd (e_wnd e) \<Longrightarrow> send_inv e' = send_inv e"
  by (simp add: send_inv_def in_flight_def)

lemma same_recv_keep_alive: "send_inv e \<Longrightarrow> same_recv e (fst (keep_alive_probe B clk e))"
proof -
  let ?e = "e\<lparr>e_probe := (e_probe e)\<lparr>p_flags := p_flags (e_probe e) OR IKCP_ASK_SEND\<rparr>\<rparr>"
  assume "send_inv e"
  then have "send_inv ?e" by (simp add: send_inv_def in_flight_def)
  from same_recv_flush [OF this, of B clk] show ?thesis
    by (simp add: keep_alive_probe_def same_recv_def)
qed

text \<open>The bytes a result of \<open>recv\<close> carries.\<close>

definition got :: "KcpCoreError + bytes option \<Rightarrow> bytes" where
  "got r = (case r of Inr (Some msg) \<Rightarrow> msg | _ \<Rightarrow> [])"

lemma rcv_rel_recv:
  assumes "rcv_rel D n k e" "recv_inv e"
  shows "\<exists>m k'. n \<le> m \<and> k \<le> k' \<and> rcv_rel D m k' (fst (recv e)) \<and> got (snd (recv e)) = bytes_of D k k'"
proof -
  have q: "map content (e_rcv_queue e) = map D [k..<n]" and kn: "k \<le> n" and tr: "tracks D n e"
    using assms(1) by (simp_all add: rcv_rel_def)
  have "take j [k..<n] = [k..<min (k + j) n]" for j
    using kn by (cases "k + j \<le> n") (simp_all add: take_all min_def)
  then have taken: "payload (take j (e_rcv_queue e)) = bytes_of D k (min (k + j) n)" for j
    using q by (intro payload_content) (simp add: take_map [symmetric], simp add: take_map)
  have left: "map content (drop j (e_rcv_queue e)) = map D [min (k + j) n..<n]" for j
    using q by (simp add: drop_map [symmetric], simp add: drop_map min_def)
  show ?thesis
  proof (cases rule: recv_takes [of e])
    case (none j)
    have "rcv_rel D n (min (k + j) n) (fst (recv e))"
      using tr left [of j] none(2) by (simp add: rcv_rel_def tracks_def)
    moreover have "got (snd (recv e)) = bytes_of D k (min (k + j) n)"
      using none taken [of j] by (simp add: got_def)
    ultimately show ?thesis using kn by (intro exI [of _ n] exI [of _ "min (k + j) n"]) simp
  next
    case (some j)
    let ?m = "payload (take j (e_rcv_queue e))"
    let ?e = "e\<lparr>e_rcv_queue := drop j (e_rcv_queue e), e_stats := (e_stats e)\<lparr>st_bytes_received :=
                   st_bytes_received (e_stats e) + word_of_nat (length ?m)\<rparr>\<rparr>"
    have "recv_inv ?e" "tracks D n ?e"
      using recv_inv_shorter(1) [OF assms(2)] tr by (simp_all add: tracks_def)
    from move_delivers [OF this] obtain m where m: "n \<le> m" "tracks D m (move_to_recv_queue ?e)"
      "map content (e_rcv_queue (move_to_recv_queue ?e)) = map content (e_rcv_queue ?e) @ map D [n..<m]"
      by blast
    have "[min (k + j) n..<m] = [min (k + j) n..<n] @ [n..<m]"
      using upt_add_eq_append [of "min (k + j) n" n "m - n"] m(1) by simp
    then have "map content (e_rcv_queue (move_to_recv_queue ?e)) = map D [min (k + j) n..<m]"
      using m(3) left [of j] by (simp only: map_append) simp
    then have "rcv_rel D m (min (k + j) n) (move_to_recv_queue ?e)"
      using m(1,2) by (simp add: rcv_rel_def)
    then have "rcv_rel D m (min (k + j) n) (fst (recv e))"
      unfolding some(2) after_recv_def Let_def fst_conv rcv_rel_def by (simp split: if_split)
    moreover have "got (snd (recv e)) = bytes_of D k (min (k + j) n)"
      using some(2) taken [of j] by (simp add: got_def)
    ultimately show ?thesis using kn m(1) by (intro exI [of _ m] exI [of _ "min (k + j) n"]) simp
  qed
qed

lemma rcv_rel_input:
  assumes "rcv_rel D n k e" "proto_inv e" "unat (w_rcv (e_wnd e)) \<le> 1073741824"
    and "\<forall>seg\<in>set (packet_segments B data). from_peer D n (e_conv e) seg"
  shows "\<exists>m\<ge>n. rcv_rel D m k (fst (input B ring clk data e))"
proof (cases "24 \<le> length data")
  case True
  have r: "k \<le> n" "tracks D n e" "map content (e_rcv_queue e) = map D [k..<n]"
    using assms(1) by (simp_all add: rcv_rel_def)
  obtain m where m: "n \<le> m" "tracks D m (fst (input B ring clk data e))"
    "map content (e_rcv_queue (fst (input B ring clk data e))) = map content (e_rcv_queue e) @ map D [n..<m]"
    using input_delivers [OF assms(2) r(2) assms(3) True assms(4)] by blast
  have "[k..<m] = [k..<n] @ [n..<m]" using upt_add_eq_append [of k n "m - n"] r(1) m(1) by simp
  then show ?thesis using m r by (intro exI [of _ m]) (simp add: rcv_rel_def)
next
  case False
  then show ?thesis
    using assms(1) rcv_rel_cong [of e "e\<lparr>e_last_activity := clk 0\<rparr>" D n k]
    by (intro exI [of _ n]) (simp add: input_eq same_recv_def)
qed

section \<open>The event loop as a receiver\<close>

lemma concat_message_of [simp]: "concat (message_of r) = got r"
  by (simp add: message_of_def got_def split: sum.split option.split)

lemma same_recv_update:
  assumes "engine_ok B c e" shows "same_recv e (fst (update B clk e))"
proof -
  have "send_inv (e\<lparr>e_last_update := t\<rparr>)" for t using engine_okD(6) [OF assms] by simp
  note flush = same_recv_flush [where B = B, OF this]
  show ?thesis using flush by (cases rule: update_cases [of B clk e]) (simp_all add: same_recv_def)
qed

text \<open>
  What the event loop promises about reception follows from what the engine promises: a relation between
  the engine and the messages delivered so far that depends on the receive fields only, is kept when
  \<open>recv\<close> takes out a message, and is kept when a packet that may arrive is put in.
\<close>

locale receive_side = buf_codec B for B +
  fixes c :: KcpCoreConfig
    and R :: "KcpEngine \<Rightarrow> bytes list \<Rightarrow> bool"
    and arrives :: "KcpEngine \<Rightarrow> bytes \<Rightarrow> bool"
  assumes unchanged: "same_recv e e' \<Longrightarrow> R e ds \<Longrightarrow> R e' ds"
    and taken_out: "engine_ok B c e \<Longrightarrow> R e ds \<Longrightarrow> R (fst (recv e)) (ds @ message_of (snd (recv e)))"
    and put_in: "engine_ok B c e \<Longrightarrow> R e ds \<Longrightarrow> arrives e data \<Longrightarrow> R (fst (input B ring clk data e)) ds"
begin

lemma step_keeps:
  assumes ok: "engine_ok B c (p_engine p)" and R: "R (p_engine p) (p_delivered p)" and step: "peer_step B arrives p p'"
  shows "R (p_engine p') (p_delivered p')"
proof -
  note send = engine_okD(6) [OF ok]
  from step show ?thesis
    by (rule peer_stepE)
      (simp_all add: taken_out [OF ok R] put_in [OF ok R] unchanged [OF same_recv_send R] unchanged [OF same_recv_flush [OF send] R]
        unchanged [OF same_recv_update [OF ok] R] unchanged [OF same_recv_keep_alive [OF send] R]
        unchanged [OF same_recv_set_conv R] unchanged [OF same_recv_drain R])
qed

lemma steps_keep:
  assumes "peer_steps B arrives p p'" "engine_ok B c (p_engine p)" "R (p_engine p) (p_delivered p)"
  shows "R (p_engine p') (p_delivered p')"
  by (rule peer_steps_keep [where I = "\<lambda>p. R (p_engine p) (p_delivered p)", OF step_keeps assms])

text \<open>So a turn of the loop keeps the relation, and a whole run establishes it from the start.\<close>

lemma turn_keeps:
  assumes "engine_ok B c (a_engine a)" "R (a_engine a) (a_delivered a)"
    and "\<forall>data. v_packet v = Some (Some data) \<longrightarrow> arrives (a_engine a) data"
  shows "R (a_engine (fst (turn B g v a))) (a_delivered (fst (turn B g v a)))"
  using steps_keep [OF turn_steps [where A = arrives and M = "[]", OF assms(3)]] assms(1,2) by simp

lemma start_keeps:
  assumes "engine_ok B c e" "R e []"
  shows "R (a_engine (actor_start B g v e)) (a_delivered (actor_start B g v e))"
  using steps_keep [OF start_steps] assms by simp

lemma run_keeps:
  assumes "engine_ok B c e" "R e []" "\<forall>v\<in>set vs. \<forall>data. v_packet v = Some (Some data) \<longrightarrow> (\<forall>e. arrives e data)"
  shows "R (a_engine (fst (run_engine_actor B g v0 vs e))) (a_delivered (fst (run_engine_actor B g v0 vs e)))"
  using steps_keep [OF actor_run_steps [where A = arrives, OF assms(3)]] assms(1,2) by (simp add: start_peer_def)

end

text \<open>Everything up to segment \<open>k\<close>, and nothing else, has been put into the data channel.\<close>

definition delivers :: "(nat \<Rightarrow> u8 \<times> bytes) \<Rightarrow> nat \<Rightarrow> actor \<Rightarrow> bool" where
  "delivers D k a \<longleftrightarrow> (\<exists>n. rcv_rel D n k (a_engine a)) \<and> concat (a_delivered a) = bytes_of D 0 k"

text \<open>A packet that arrives comes from the peer that numbers the sequence \<open>D\<close>.\<close>

definition packet_from_peer :: "buf_api \<Rightarrow> (nat \<Rightarrow> u8 \<times> bytes) \<Rightarrow> KcpEngine \<Rightarrow> bytes \<Rightarrow> bool" where
  "packet_from_peer B D e data \<longleftrightarrow>
     (\<forall>n. tracks D n e \<longrightarrow> (\<forall>seg\<in>set (packet_segments B data). from_peer D n (e_conv e) seg))"

definition event_from_peer :: "buf_api \<Rightarrow> (nat \<Rightarrow> u8 \<times> bytes) \<Rightarrow> actor \<Rightarrow> event \<Rightarrow> bool" where
  "event_from_peer B D a v \<longleftrightarrow>
     (\<forall>data. v_packet v = Some (Some data) \<longrightarrow> packet_from_peer B D (a_engine a) data)"

definition byte_rel :: "KcpCoreConfig \<Rightarrow> (nat \<Rightarrow> u8 \<times> bytes) \<Rightarrow> nat \<Rightarrow> KcpEngine \<Rightarrow> bytes list \<Rightarrow> bool" where
  "byte_rel c D k0 e ds \<longleftrightarrow> core_config_ok c \<and>
     (\<exists>k\<ge>k0. (\<exists>n. rcv_rel D n k e) \<and> concat ds = bytes_of D 0 k)"

interpretation byt: receive_side le_buf_api c "byte_rel c D k0" "packet_from_peer le_buf_api D" for c D k0
proof
  fix e e' ds assume "same_recv e e'" "byte_rel c D k0 e ds"
  then show "byte_rel c D k0 e' ds" by (simp add: byte_rel_def rcv_rel_cong)
next
  fix e ds assume ok: "engine_ok le_buf_api c e" and R: "byte_rel c D k0 e ds"
  obtain k n where k: "k0 \<le> k" "rcv_rel D n k e" "concat ds = bytes_of D 0 k" "core_config_ok c"
    using R by (auto simp: byte_rel_def)
  obtain m k' where "k \<le> k'" "rcv_rel D m k' (fst (recv e))" "got (snd (recv e)) = bytes_of D k k'"
    using rcv_rel_recv [OF k(2) engine_okD(7) [OF ok]] by blast
  then have "k0 \<le> k'" "rcv_rel D m k' (fst (recv e))" "concat (ds @ message_of (snd (recv e))) = bytes_of D 0 k'"
    using k bytes_of_append [of 0 k k' D] by simp_all
  then show "byte_rel c D k0 (fst (recv e)) (ds @ message_of (snd (recv e)))"
    using k(4) unfolding byte_rel_def by blast
next
  fix e ds data ring clk
  assume ok: "engine_ok le_buf_api c e" and R: "byte_rel c D k0 e ds" and p: "packet_from_peer le_buf_api D e data"
  obtain k n where k: "k0 \<le> k" "rcv_rel D n k e" "concat ds = bytes_of D 0 k" "core_config_ok c"
    using R by (auto simp: byte_rel_def)
  have "unat (w_rcv (e_wnd e)) \<le> 1073741824"
    using k(4) unfolding engine_okD(9) [OF ok] by (simp add: core_config_ok_def word_le_nat_alt)
  moreover have "\<forall>seg\<in>set (packet_segments le_buf_api data). from_peer D n (e_conv e) seg"
    using p k(2) by (auto simp: packet_from_peer_def rcv_rel_def)
  ultimately obtain m where "rcv_rel D m k (fst (input le_buf_api ring clk data e))"
    using rcv_rel_input [OF k(2) engine_okD(3) [OF ok]] by blast
  then show "byte_rel c D k0 (fst (input le_buf_api ring clk data e)) ds"
    using k unfolding byte_rel_def by blast
qed

lemma byte_rel_delivers:
  "byte_rel c D k0 (a_engine a) (a_delivered a) \<longleftrightarrow> core_config_ok c \<and> (\<exists>k\<ge>k0. delivers D k a)"
  by (auto simp: byte_rel_def delivers_def)

lemma delivers_turn:
  assumes "actor_ok le_buf_api c a" "delivers D k a" "core_config_ok c" "event_from_peer le_buf_api D a v"
  shows "\<exists>k'\<ge>k. delivers D k' (fst (turn le_buf_api g v a))"
proof -
  have "byte_rel c D k (a_engine a) (a_delivered a)" using assms(2,3) by (auto simp: byte_rel_delivers)
  from byt.turn_keeps [OF actor_okD [OF assms(1)] this, of v g] assms(4) show ?thesis
    by (simp add: event_from_peer_def byte_rel_delivers)
qed

lemma delivers_start:
  assumes "engine_ok le_buf_api c e" "rcv_rel D n 0 e" "core_config_ok c"
  shows "\<exists>k. delivers D k (actor_start le_buf_api g v e)"
proof -
  have "byte_rel c D 0 e []" using assms(2,3) by (auto simp: byte_rel_def)
  from byt.start_keeps [OF assms(1) this] show ?thesis using byte_rel_delivers by blast
qed

section \<open>Refinement of a FIFO\<close>

text \<open>
  The abstract receiver: how many segments of the sequence were handed out, and the bytes so far. Its
  only step hands out the next segment.
\<close>

inductive fifo_step :: "(nat \<Rightarrow> u8 \<times> bytes) \<Rightarrow> nat \<times> bytes \<Rightarrow> nat \<times> bytes \<Rightarrow> bool" for D where
  next_segment_out: "fifo_step D (k, out) (Suc k, out @ snd (D k))"

inductive_cases fifo_stepE: "fifo_step D s s'"

inductive actor_step :: "buf_api \<Rightarrow> actor_args \<Rightarrow> (nat \<Rightarrow> u8 \<times> bytes) \<Rightarrow> actor \<Rightarrow> actor \<Rightarrow> bool" for B g D where
  actor_turn: "event_from_peer B D a v \<Longrightarrow> actor_step B g D a (fst (turn B g v a))"

inductive_simps actor_step_iff: "actor_step B g D a a'"

definition fifo_rel :: "buf_api \<Rightarrow> KcpCoreConfig \<Rightarrow> (nat \<Rightarrow> u8 \<times> bytes) \<Rightarrow> actor \<Rightarrow> nat \<times> bytes \<Rightarrow> bool" where
  "fifo_rel B c D a s \<longleftrightarrow> actor_ok B c a \<and> core_config_ok c \<and> delivers D (fst s) a \<and> snd s = concat (a_delivered a)"

lemma fifo_steps: "k \<le> k' \<Longrightarrow> (fifo_step D)\<^sup>*\<^sup>* (k, bytes_of D 0 k) (k', bytes_of D 0 k')"
proof (induction rule: dec_induct)
  case (step n)
  have "bytes_of D 0 (Suc n) = bytes_of D 0 n @ snd (D n)" by (simp add: bytes_of_def)
  then show ?case using step.IH next_segment_out [of D n "bytes_of D 0 n"] by simp
qed simp

lemma fifo_reachable:
  "(fifo_step D)\<^sup>*\<^sup>* s s' \<Longrightarrow> snd s = bytes_of D 0 (fst s) \<Longrightarrow> fst s \<le> fst s' \<and> snd s' = bytes_of D 0 (fst s')"
proof (induction rule: rtranclp_induct)
  case (step s1 s2)
  then show ?case by (auto elim!: fifo_stepE simp: bytes_of_def)
qed simp

interpretation fifo: forward_simulation "actor_step le_buf_api g D" "fifo_step D" "fifo_rel le_buf_api c D" for g D c
proof
  fix a s a' assume R: "fifo_rel le_buf_api c D a s" and "actor_step le_buf_api g D a a'"
  then obtain v where v: "event_from_peer le_buf_api D a v" "a' = fst (turn le_buf_api g v a)"
    by (auto simp: actor_step_iff)
  have ok: "actor_ok le_buf_api c a" "core_config_ok c" "delivers D (fst s) a" "snd s = concat (a_delivered a)"
    using R by (simp_all add: fifo_rel_def)
  obtain k' where k': "fst s \<le> k'" "delivers D k' a'"
    using delivers_turn [OF ok(1,3,2) v(1)] v(2) by blast
  have "fifo_rel le_buf_api c D a' (k', bytes_of D 0 k')"
    using k'(2) ok(2) le.turn_ok(1) [OF ok(1)] v(2) by (simp add: fifo_rel_def delivers_def)
  moreover have "s = (fst s, bytes_of D 0 (fst s))"
    using ok(3,4) by (simp add: delivers_def prod_eq_iff)
  ultimately show "\<exists>s'. (fifo_step D)\<^sup>*\<^sup>* s s' \<and> fifo_rel le_buf_api c D a' s'"
    using fifo_steps [OF k'(1), of D] by metis
qed

section \<open>The send queue\<close>

lemma process_segments_snd_queue:
  "e_snd_queue (fst (process_segments ring current i segs st)) = e_snd_queue (fst st)"
proof (induction segs arbitrary: i st)
  case (Cons seg segs)
  have "e_snd_queue (parse_ack k sn e) = e_snd_queue e" for k sn e
    by (auto simp: parse_ack_def split: sum.split)
  then show ?case
    using Cons by (simp add: process_segment_def input_ack_def input_push_def parse_una_def ack_push_def Let_def)
qed simp

lemma input_snd_queue: "e_snd_queue (fst (input B ring clk data e)) = e_snd_queue e"
  by (simp add: input_eq count_packet_def finish_input_def Let_def process_segments_snd_queue)

lemma drain_loop_snd_queue: "e_snd_queue (fst (drain_loop n e)) = e_snd_queue e"
  by (induction n arbitrary: e) (auto simp: drain_loop_step recv_other_fields split: sum.split option.split)

definition backlog :: "actor \<Rightarrow> nat" where
  "backlog a = send_queue_len (a_engine a)"

lemma backlog_updates [simp]:
  "backlog (flush_output g bits a) = backlog a" "backlog (drain_recv n a) = backlog a" "backlog (reply r a) = backlog a"
  "backlog (a\<lparr>a_send_closed := x\<rparr>) = backlog a" "backlog (a\<lparr>a_engine := e\<rparr>) = length (e_snd_queue e)"
  using drain_loop_snd_queue [of n "a_engine a"]
  by (auto simp: backlog_def send_queue_len_def flush_output_def drain_output_def drain_recv_def reply_def split: prod.split)

lemma engine_backlog: "length (e_snd_queue (a_engine a)) = backlog a"
  by (simp add: backlog_def send_queue_len_def)

lemma closing_updates [simp]:
  "a_closing (flush_output g bits a) = a_closing a" "a_closing (drain_recv n a) = a_closing a"
  "a_closing (reply r a) = a_closing a" "a_closing (fst (keep_alive_step B ka v a)) = a_closing a"
  by (auto simp: flush_output_def drain_output_def drain_recv_def reply_def keep_alive_step_def split: prod.split)

text \<open>The bound: one message's fragments on top of the high-water mark.\<close>

definition queue_bounded :: "actor_args \<Rightarrow> actor \<Rightarrow> bool" where
  "queue_bounded g a \<longleftrightarrow> a_closing a \<or> backlog a \<le> g_send_high_water g + 127"

lemma send_backlog:
  assumes "engine_ok B c e" "send_queue_len e < limit"
  shows "length (e_snd_queue (fst (send clk data e))) \<le> limit + 127"
  using send_growth [OF engine_okD(8) [OF assms(1)], of clk data] max_frags_le [of e] assms(2)
  by (simp add: send_queue_len_def)

lemma absorb_some_backlog:
  assumes "engine_ok B c e" "length (e_snd_queue e) \<le> limit + 127"
  shows "length (e_snd_queue (absorb_some limit clk i msgs e)) \<le> limit + 127"
  using assms
proof (induction msgs arbitrary: i e)
  case (Cons data msgs)
  then show ?case
    using Cons.IH [OF engine_ok_send [OF Cons.prems(1)] send_backlog [OF Cons.prems(1)]] by simp
qed simp

context buf_codec
begin

lemma flush_backlog: "engine_ok B c e \<Longrightarrow> length (e_snd_queue (fst (flush B clk e))) \<le> length (e_snd_queue e)"
  by (rule flush_queue_shorter) (rule engine_okD(6))

lemma keep_alive_backlog:
  assumes "actor_ok B c a" shows "backlog (fst (keep_alive_step B ka v a)) \<le> backlog a"
proof -
  have "send_inv (a_engine a)" by (rule engine_okD(6) [OF actor_okD [OF assms]])
  then have "length (e_snd_queue (fst (keep_alive_probe B clk (a_engine a)))) \<le> length (e_snd_queue (a_engine a))" for clk
    using flush_queue_shorter [of "(a_engine a)\<lparr>e_probe := f\<rparr>" B clk for f]
    by (simp add: keep_alive_probe_def send_inv_def in_flight_def)
  then show ?thesis by (simp add: keep_alive_step_def split_def Let_def backlog_def send_queue_len_def)
qed

lemma on_timer_bounded:
  assumes "actor_ok B c a" "queue_bounded g a" shows "queue_bounded g (fst (on_timer B g v a))"
proof -
  let ?a1 = "a\<lparr>a_engine := fst (flush B (v_clk v 0) (a_engine a))\<rparr>"
  have ok1: "actor_ok B c ?a1" by (rule flush_ok [OF assms(1)])
  have le: "backlog ?a1 \<le> backlog a"
    using flush_backlog [OF actor_okD [OF assms(1)], of "v_clk v 0"] by (simp add: backlog_def send_queue_len_def)
  moreover have "backlog (fst (keep_alive_step B ka v ?a1)) \<le> backlog a" for ka
    using keep_alive_backlog [OF ok1, of ka v] le by simp
  ultimately have "queue_bounded g ?a1" "queue_bounded g (fst (keep_alive_step B ka v ?a1))" for ka
    using assms(2) unfolding queue_bounded_def by (auto intro: order_trans)
  then show ?thesis
    by (auto simp: on_timer_def split_def Let_def queue_bounded_def split: option.split)
qed

lemma on_close_closing: "a_closing (fst (on_close B g v a))"
  by (simp add: on_close_def Let_def)

lemma on_cmd_bounded:
  assumes "actor_ok B c a" "queue_bounded g a" shows "queue_bounded g (fst (on_cmd B g v cmd a))"
proof (cases cmd)
  case None
  then show ?thesis by (simp add: queue_bounded_def on_close_closing)
next
  case (Some x)
  then show ?thesis
    using assms flush_backlog [OF actor_okD [OF assms(1)], of "v_clk v 0"]
    by (cases x) (auto simp: split_def Let_def queue_bounded_def on_close_closing engine_backlog)
qed

lemma on_packet_bounded:
  assumes "actor_ok B c a" "queue_bounded g a" shows "queue_bounded g (fst (on_packet B g v p a))"
proof (cases p)
  case (Some data)
  let ?e1 = "fst (input B (v_ring v) (v_clk v 0) data (a_engine a))"
  have "length (e_snd_queue (fst (flush B (v_clk v 1) ?e1))) \<le> length (e_snd_queue (a_engine a))"
    using flush_backlog [OF engine_ok_input [OF actor_okD [OF assms(1)]], of "v_clk v 1"] by (simp add: input_snd_queue)
  then show ?thesis
    using assms(2) by (auto simp: Some split_def Let_def queue_bounded_def engine_backlog)
qed (use assms in simp)

lemma on_data_bounded:
  assumes "actor_ok B c a" "queue_bounded g a" "send_queue_len (a_engine a) < g_send_high_water g"
  shows "queue_bounded g (fst (on_data B g v d a))"
proof (cases d)
  case None
  then show ?thesis using assms(2) by (simp add: queue_bounded_def)
next
  case (Some data)
  let ?e0 = "fst (send (v_send_clk v 0) data (a_engine a))"
  let ?e1 = "absorb_some (g_send_high_water g) (v_send_clk v) 1 (v_more v) ?e0"
  have ok: "engine_ok B c (a_engine a)" by (rule actor_okD [OF assms(1)])
  have "length (e_snd_queue ?e1) \<le> g_send_high_water g + 127"
    by (rule absorb_some_backlog [OF engine_ok_send [OF ok] send_backlog [OF ok assms(3)]])
  then have "length (e_snd_queue (fst (flush B (v_clk v 0) ?e1))) \<le> g_send_high_water g + 127"
    using flush_backlog [OF engine_ok_absorb_some [OF engine_ok_send [OF ok]], of "v_clk v 0"] order_trans by blast
  then show ?thesis by (simp add: Some split_def Let_def queue_bounded_def)
qed

lemma select_data:
  "select_branch g v a = Data d \<Longrightarrow> \<not> a_send_closed a \<and> send_queue_len (a_engine a) < g_send_high_water g"
  by (auto simp: select_branch_def split: if_splits option.splits)

lemma turn_bounded:
  assumes "actor_ok B c a" "queue_bounded g a" shows "queue_bounded g (fst (turn B g v a))"
proof -
  let ?r = "run_branch B g v (select_branch g v a) a"
  have "queue_bounded g (fst ?r)"
  proof (cases "select_branch g v a")
    case (Data d)
    then show ?thesis using on_data_bounded [OF assms] select_data by (simp add: run_branch_def)
  qed (use assms on_timer_bounded on_cmd_bounded on_packet_bounded in \<open>simp_all add: run_branch_def\<close>)
  then show ?thesis
    by (auto simp: turn_def split_def Let_def after_select_def queue_bounded_def)
qed

lemma run_loop_bounded:
  assumes "actor_ok B c a" "queue_bounded g a" shows "queue_bounded g (fst (run_loop B g vs a))"
  using assms
proof (induction vs arbitrary: a)
  case (Cons v vs)
  then show ?case
    using turn_ok(1) [OF Cons.prems(1), of g v] turn_bounded [OF Cons.prems, of v]
    by (simp add: run_loop_step del: run_loop.simps)
qed simp

end

section \<open>Writes that were accepted\<close>

text \<open>The bytes handed to the engine that the peer has not acknowledged yet, in order.\<close>

definition unacked_bytes :: "KcpEngine \<Rightarrow> bytes" where
  "unacked_bytes e = concat (map s_data (e_snd_buf e @ e_snd_queue e))"

lemma flush_unacked: "send_inv e \<Longrightarrow> unacked_bytes (fst (flush B clk e)) = unacked_bytes e"
  using flush_keeps_data [of e B clk] by (simp add: unacked_bytes_def del: map_append)

lemma send_unacked:
  assumes "engine_ok B c e" "snd (send clk data e) = Ok ()"
  shows "unacked_bytes (fst (send clk data e)) = unacked_bytes e @ data"
proof -
  have "queue_bytes (fst (send clk data e)) = queue_bytes e @ data"
    using send_appends [of e clk data] engine_okD(8) [OF assms(1)] proto_invD(8) [OF engine_okD(3) [OF assms(1)]] assms(2)
    by blast
  moreover have "e_snd_buf (fst (send clk data e)) = e_snd_buf e"
    using send_frame [of e clk data] unfolding same_but_queue_def by force
  ultimately show ?thesis by (simp add: unacked_bytes_def queue_bytes_def)
qed

text \<open>The largest message a connection with this configuration accepts.\<close>

definition message_limit :: "KcpCoreConfig \<Rightarrow> nat" where
  "message_limit c = (unat (c_mtu c) - 24) * unat (min (c_rcv_wnd c) 128)"

lemma send_within_limit:
  assumes "engine_ok B c e" "length data \<le> message_limit c"
  shows "snd (send clk data e) = Ok ()"
  using send_accepts [OF engine_okD(8) [OF assms(1)], of data clk] assms(2) unat_mss [OF engine_okD(8) [OF assms(1)]]
    engine_okD(2) [OF assms(1)]
  by (simp add: message_limit_def max_frags_def)

lemma absorb_all_unacked:
  assumes "engine_ok B c e" "\<forall>msg\<in>set msgs. length msg \<le> message_limit c"
  shows "unacked_bytes (absorb_all clk i msgs e) = unacked_bytes e @ concat msgs"
  using assms
proof (induction msgs arbitrary: i e)
  case (Cons data msgs)
  have "unacked_bytes (fst (send (clk i) data e)) = unacked_bytes e @ data"
    using send_unacked [OF Cons.prems(1) send_within_limit [OF Cons.prems(1)]] Cons.prems(2) by simp
  then show ?case using Cons.IH [OF engine_ok_send [OF Cons.prems(1)]] Cons.prems(2) by simp
qed simp

lemma unacked_flush_output [simp]: "unacked_bytes (a_engine (flush_output g bits a)) = unacked_bytes (a_engine a)"
  by (simp add: unacked_bytes_def flush_output_def drain_output_def)

lemma unacked_empty: "engine_ok B c e \<Longrightarrow> unacked_bytes e = [] \<longleftrightarrow> \<not> has_unsent_data e"
  using proto_invD(8,9) [OF engine_okD(3)]
  by (auto simp: unacked_bytes_def has_unsent_data_def snd_queue_ok_def snd_buf_ok_def data_seg_ok_def)

section \<open>The end of a graceful close\<close>

lemma deadline_updates [simp]:
  "a_close_deadline (flush_output g bits a) = a_close_deadline a" "a_close_deadline (drain_recv n a) = a_close_deadline a"
  "a_close_deadline (reply r a) = a_close_deadline a"
  "a_close_deadline (fst (keep_alive_step B ka v a)) = a_close_deadline a"
  by (auto simp: flush_output_def drain_output_def drain_recv_def reply_def keep_alive_step_def split: prod.split)

lemma run_branch_closing:
  assumes "a_closing a"
  shows "a_closing (fst (run_branch B g v (select_branch g v a) a))
    \<and> a_close_deadline (fst (run_branch B g v (select_branch g v a) a)) = a_close_deadline a"
proof (cases "select_branch g v a")
  case (Cmd cmd)
  then show ?thesis using assms by (auto simp: select_branch_def split: if_splits option.splits)
next
  case Timer
  then show ?thesis
    using assms by (auto simp: run_branch_def on_timer_def split_def Let_def split: option.split)
next
  case (Packet p)
  then show ?thesis using assms by (cases p) (auto simp: run_branch_def split_def Let_def)
next
  case (Data d)
  then show ?thesis using assms by (cases d) (auto simp: run_branch_def split_def Let_def)
qed (use assms in \<open>simp add: run_branch_def\<close>)

lemma closing_turn:
  assumes "a_closing a" "a_close_deadline a = Some d"
  shows "snd (turn B g v a) = Continue \<Longrightarrow> a_closing (fst (turn B g v a)) \<and> a_close_deadline (fst (turn B g v a)) = Some d"
    and "select_branch g v a \<noteq> Pending \<Longrightarrow> snd (turn B g v a) = Continue \<Longrightarrow>
      has_unsent_data (a_engine (fst (turn B g v a))) \<and> v_now v 2 < d"
  using run_branch_closing [OF assms(1), of B g v] assms(2)
  by (auto simp: turn_def split_def Let_def after_select_def split: if_splits)

lemma closing_run:
  assumes "a_closing a" "a_close_deadline a = Some d" "v \<in> set vs" "v_timer v" "d \<le> v_now v 2"
  shows "snd (run_loop B g vs a) = Break"
  using assms
proof (induction vs arbitrary: a)
  case (Cons w vs)
  show ?case
  proof (cases "snd (turn B g w a)")
    case Break
    then show ?thesis by (cases "turn B g w a") simp
  next
    case Continue
    have "v \<noteq> w"
    proof
      assume "v = w"
      then have "select_branch g w a \<noteq> Pending" using Cons.prems(4) by (simp add: select_branch_def)
      then show False using closing_turn(2) [OF Cons.prems(1,2) _ Continue] Cons.prems(5) \<open>v = w\<close> by simp
    qed
    then have "snd (run_loop B g vs (fst (turn B g w a))) = Break"
      using Cons.IH [of "fst (turn B g w a)"] closing_turn(1) [OF Cons.prems(1,2) Continue] Cons.prems(3-5) by simp
    then show ?thesis using Continue by (cases "turn B g w a") simp
  qed
qed simp

section \<open>Facts about a silent peer\<close>

lemma flush_last_activity:
  assumes "send_inv e" shows "e_last_activity (fst (flush B clk e)) = e_last_activity e"
proof -
  define d where "d = before_data B clk e"
  obtain st where F: "flush B clk e =
      (let e2 = output_segments B (upto_dead (e_dead_link d) (pass_selected (clk 0) d))
                  (d\<lparr>e_snd_buf := marked d (clk 0) (resend_limit d) (rto_slack d) (e_snd_buf d), e_stats := st\<rparr>)
       in if pass_dead (clk 0) d then (e2, Err core_connection_lost)
          else (update_congestion_control (flush_out_buf (update_congestion_on_loss (pass_lost (clk 0) d)
                  (pass_change (clk 0) d) (resend_limit d) e2)), Ok ()))"
    unfolding d_def using flush_form by blast
  have "same_core (move_to_send_buf (clk 0) e) d" unfolding d_def by (rule before_data_core [OF assms])
  then have "e_last_activity d = e_last_activity e"
    by (simp add: same_core_def move_to_send_buf_eq [OF assms])
  then show ?thesis by (simp add: F Let_def flush_out_buf_def)
qed

lemma recv_result_cong: "e_rcv_queue e' = e_rcv_queue e \<Longrightarrow> snd (recv e') = snd (recv e)"
proof -
  assume q: "e_rcv_queue e' = e_rcv_queue e"
  have "peek_size e' = peek_size e" unfolding peek_size_def q by (rule refl)
  then show ?thesis using q by (simp add: recv_def Let_def split: prod.split)
qed

section \<open>Properties\<close>

text \<open>
  C10. The receiving loop refines a FIFO. Let the data segments that arrive be those of a peer that
  numbers the sequence \<open>D\<close>: in any order, repeated, any of them missing so far, mixed with any other
  traffic, any commands, writes and timer events, any lack of room in the data channel. Then the
  bytes delivered to the application are at every moment exactly those of the first \<open>k\<close> segments
  of the sequence for some \<open>k\<close>, and the run is a run of the FIFO that hands out one segment after the other.
\<close>

theorem delivered_bytes_refine_fifo:
  assumes "core_config_ok c" "engine_ok le_buf_api c e" "rcv_rel D n 0 e"
    and "(actor_step le_buf_api g D)\<^sup>*\<^sup>* (actor_start le_buf_api g v e) a"
  shows "\<exists>k. (fifo_step D)\<^sup>*\<^sup>* (0, []) (k, concat (a_delivered a))
    \<and> concat (a_delivered a) = concat (map (\<lambda>i. snd (D i)) [0..<k])"
proof -
  let ?a0 = "actor_start le_buf_api g v e"
  obtain k0 where k0: "delivers D k0 ?a0" using delivers_start [OF assms(2,3,1)] by blast
  have "fifo_rel le_buf_api c D ?a0 (k0, bytes_of D 0 k0)"
    using k0 assms(1) le.actor_start_ok(1) [OF assms(2)] by (simp add: fifo_rel_def delivers_def)
  from fifo.simulates_steps [OF assms(4) this] obtain s
    where s: "(fifo_step D)\<^sup>*\<^sup>* (k0, bytes_of D 0 k0) s" "fifo_rel le_buf_api c D a s" by blast
  have "s = (fst s, concat (a_delivered a))" "concat (a_delivered a) = bytes_of D 0 (fst s)"
    using s(2) by (simp_all add: fifo_rel_def delivers_def prod_eq_iff)
  moreover have "(fifo_step D)\<^sup>*\<^sup>* (0, []) (k0, bytes_of D 0 k0)"
    using fifo_steps [of 0 k0 D] by simp
  ultimately show ?thesis
    using s(1) rtranclp_trans [of "fifo_step D" "(0, [])" "(k0, bytes_of D 0 k0)" s]
    by (intro exI [of _ "fst s"]) (simp add: bytes_of_def o_def)
qed

lemma fresh_rcv_rel: "rcv_rel D 0 0 fresh_engine"
  by (simp add: rcv_rel_def tracks_def fresh_engine_def KcpEngine_new_def Let_def bt_empty_def)

theorem delivered_bytes_refine_fifo_witness:
  "\<exists>k. concat (a_delivered (fst (turn le_buf_api some_args
       (quiet\<lparr>v_packet := Some (Some (KcpSegment_encode le_buf_api (KcpSegment_push 0 7 0 [1, 2, 3]) []))\<rparr>)
       (actor_start le_buf_api some_args quiet fresh_engine))))
     = concat (map (\<lambda>i. snd ((\<lambda>_. (0 :: u8, [1, 2, 3])) i)) [0..<k :: nat])"
proof -
  let ?seg = "KcpSegment_push 0 7 0 [1, 2, 3]"
  let ?v = "quiet\<lparr>v_packet := Some (Some (KcpSegment_encode le_buf_api ?seg []))\<rparr>"
  let ?a = "actor_start le_buf_api some_args quiet fresh_engine"
  have "packet_segments le_buf_api (concat (map (\<lambda>s. KcpSegment_encode le_buf_api s []) [?seg])) = map received [?seg]"
    by (rule le.packet_segments_concat) (simp add: KcpSegment_push_def KcpSegment_new_def KcpHeader_new_def)
  then have segs: "packet_segments le_buf_api (KcpSegment_encode le_buf_api ?seg []) = [received ?seg]" by simp
  obtain k where "delivers (\<lambda>_. (0, [1, 2, 3])) k ?a"
    using delivers_start [OF fresh_engine_ok fresh_rcv_rel default_config_ok] by blast
  have nxt: "e_rcv_nxt (a_engine ?a) = 0"
  proof -
    note u = same_recv_update [OF fresh_engine_ok]
    have q: "e_rcv_queue fresh_engine = []" "e_rcv_nxt fresh_engine = 0"
      by (simp_all add: fresh_engine_def KcpEngine_new_def Let_def)
    show ?thesis
      using u [of "v_clk quiet 0"] q
      by (simp add: actor_start_def flush_output_def drain_output_def drain_recv_def quiet_def same_recv_def
          drain_loop_step recv_def)
  qed
  have "from_peer (\<lambda>_. (0, [1, 2, 3])) n conv (received ?seg)" if "tracks (\<lambda>_. (0, [1, 2, 3])) n (a_engine ?a)" for n conv
    using nxt that by (auto simp: from_peer_def tracks_def received_def content_def
        KcpSegment_push_def KcpSegment_new_def KcpHeader_new_def intro!: exI [of _ n])
  then have "event_from_peer le_buf_api (\<lambda>_. (0, [1, 2, 3])) ?a ?v"
    unfolding event_from_peer_def packet_from_peer_def by (simp add: segs)
  then have "(actor_step le_buf_api some_args (\<lambda>_. (0, [1, 2, 3])))\<^sup>*\<^sup>* ?a (fst (turn le_buf_api some_args ?v ?a))"
    by (intro r_into_rtranclp actor_turn)
  from delivered_bytes_refine_fifo [OF default_config_ok fresh_engine_ok fresh_rcv_rel this] show ?thesis by blast
qed

text \<open>
  C18. Back-pressure bounds memory. From a start with a bounded queue, as long as no graceful close has
  begun, the send queue of the engine never holds more than the high-water mark plus 127 segments
  (the last message accepted below the mark may add up to 128), whatever the application writes
  and however slow the network is.
\<close>

theorem backpressure_bounds_send_queue:
  assumes "buf_codec B" "engine_ok B c e" "send_queue_len e \<le> g_send_high_water g"
    and "run_engine_actor B g v0 vs e = (a, f)" "\<not> a_closing a"
  shows "send_queue_len (a_engine a) \<le> g_send_high_water g + 127"
proof -
  let ?u = "fst (update B (v_clk v0 0) e)"
  have "length (e_snd_queue ?u) \<le> length (e_snd_queue e)"
    by (rule update_queue_shorter [OF engine_okD(6) [OF assms(2)]])
  then have "queue_bounded g (actor_start B g v0 e)"
    using assms(3) by (simp add: queue_bounded_def actor_start_def) (simp add: backlog_def send_queue_len_def)
  then have "queue_bounded g (fst (run_loop B g vs (actor_start B g v0 e)))"
    by (rule buf_codec.run_loop_bounded [OF assms(1) buf_codec.actor_start_ok(1) [OF assms(1,2)]])
  then show ?thesis
    using assms(4,5) by (simp add: run_engine_actor_def queue_bounded_def backlog_def)
qed

theorem backpressure_bounds_send_queue_witness:
  "send_queue_len (a_engine (fst (run_engine_actor le_buf_api some_args quiet [] fresh_engine))) \<le> 128 + 127"
proof -
  let ?r = "run_engine_actor le_buf_api some_args quiet [] fresh_engine"
  have run: "?r = (fst ?r, snd ?r)" by simp
  have q: "send_queue_len fresh_engine \<le> g_send_high_water some_args"
    by (simp add: send_queue_len_def fresh_engine_def KcpEngine_new_def Let_def)
  have "\<not> a_closing (fst ?r)" by (simp add: run_engine_actor_def actor_start_def)
  from backpressure_bounds_send_queue [OF le.buf_codec_axioms fresh_engine_ok q run this]
  show ?thesis by (simp add: some_args_def)
qed

text \<open>
  C23. A graceful close loses no write that the application was told was accepted: \<open>Close\<close>, or the loss
  of all handles, moves every message that is still in the send channel into the engine, in order,
  behind the bytes that already wait there or are in flight, and closes the write side; from then on the
  loop takes no command and no message.
\<close>

theorem close_absorbs_accepted_writes:
  assumes "buf_codec B" "actor_ok B c a" "\<forall>msg \<in> set (v_more v). length msg \<le> message_limit c"
    and "cmd = Some Cmd_Close \<or> cmd = None"
  shows "let a' = fst (on_cmd B g v cmd a) in
      unacked_bytes (a_engine a') = unacked_bytes (a_engine a) @ concat (v_more v)
    \<and> a_close_deadline a' = Some (v_now v 0 + 10000000000)
    \<and> (\<forall>g v' b. select_branch g v' a' = b \<longrightarrow> (\<forall>x. b \<noteq> Cmd x) \<and> (\<forall>d. b \<noteq> Data d))"
proof -
  let ?e1 = "absorb_all (v_send_clk v) 0 (v_more v) (a_engine a)"
  have "engine_ok B c ?e1" by (rule engine_ok_absorb_all [OF actor_okD [OF assms(2)]])
  then have "unacked_bytes (fst (flush B (v_clk v 0) ?e1)) = unacked_bytes (a_engine a) @ concat (v_more v)"
    using flush_unacked [OF engine_okD(6)] absorb_all_unacked [OF actor_okD [OF assms(2)] assms(3)] by simp
  moreover have "on_cmd B g v cmd a = on_close B g v a" using assms(4) by auto
  moreover have "a_closing (fst (on_close B g v a))" "a_send_closed (fst (on_close B g v a))"
    by (simp_all add: on_close_def Let_def) (simp add: flush_output_def drain_output_def)
  ultimately show ?thesis
    by (auto simp: Let_def on_close_def from_secs_def select_branch_def split: if_splits option.splits)
qed

lemma fresh_actor_ok: "actor_ok le_buf_api KcpCoreConfig_default (actor_start le_buf_api g v fresh_engine)"
  by (rule le.actor_start_ok(1) [OF fresh_engine_ok])

theorem close_absorbs_accepted_writes_witness:
  "unacked_bytes (a_engine (fst (on_cmd le_buf_api some_args (quiet\<lparr>v_more := [[1, 2], [3]]\<rparr>) (Some Cmd_Close)
      (actor_start le_buf_api some_args quiet fresh_engine)))) =
   unacked_bytes (a_engine (actor_start le_buf_api some_args quiet fresh_engine)) @ [1, 2, 3]"
proof -
  have "\<forall>msg \<in> set (v_more (quiet\<lparr>v_more := [[1, 2], [3]]\<rparr>)). length msg \<le> message_limit KcpCoreConfig_default"
    by (simp add: message_limit_def KcpCoreConfig_default_def)
  from close_absorbs_accepted_writes [OF le.buf_codec_axioms fresh_actor_ok this, of "Some Cmd_Close" some_args]
  show ?thesis by (simp add: Let_def)
qed

text \<open>
  C24. A graceful close ends. Once closing, the loop goes on only while data is unacknowledged and the
  linger deadline has not passed: a turn that completes with nothing left to send, or after the
  deadline, ends it; so every run in which the timer fires once after the deadline has stopped,
  whatever else happens in it.
\<close>

theorem graceful_close_terminates:
  assumes "a_closing a" "a_close_deadline a = Some d"
  shows "((\<exists>v \<in> set vs. v_timer v \<and> d \<le> v_now v 2) \<longrightarrow> snd (run_loop B g vs a) = Break)
    \<and> (select_branch g v a \<noteq> Pending \<and> snd (turn B g v a) = Continue \<longrightarrow>
      has_unsent_data (a_engine (fst (turn B g v a))) \<and> v_now v 2 < d)"
  using closing_run [OF assms] closing_turn(2) [OF assms] by blast

theorem graceful_close_terminates_witness:
  "snd (run_loop le_buf_api some_args [quiet\<lparr>v_timer := True, v_now := \<lambda>_. 10000000000\<rparr>]
     (fst (on_cmd le_buf_api some_args quiet (Some Cmd_Close) (actor_start le_buf_api some_args quiet fresh_engine))))
   = Break"
proof -
  let ?a = "fst (on_cmd le_buf_api some_args quiet (Some Cmd_Close) (actor_start le_buf_api some_args quiet fresh_engine))"
  have "a_closing ?a" "a_close_deadline ?a = Some 10000000000"
    by (simp_all add: on_close_def Let_def quiet_def from_secs_def)
  from graceful_close_terminates [OF this, of "[quiet\<lparr>v_timer := True, v_now := \<lambda>_. 10000000000\<rparr>]"]
  show ?thesis by simp
qed

text \<open>
  C38. Received data can be lost when the loop gives up on a peer. When the peer has been silent for three
  keep-alive windows, the timer branch stops the loop without draining: a complete message that the
  engine holds (received, acknowledged, and kept back only because the data channel was full before) is
  not put into the data channel even if there is room for it now, and what the flush
  has queued for the transport is not sent.
\<close>

theorem dead_peer_stop_drops_received_messages:
  assumes "send_inv (a_engine a)" "snd (flush B (v_clk v 0) (a_engine a)) = Ok ()"
    and "g_keep_alive_ms g = Some ka" "saturating_mul ka 3 \<le> ucast (idle_ms (v_clk v 1 0) (a_engine a))"
    and "snd (recv (a_engine a)) = Ok (Some msg)"
  shows "snd (on_timer B g v a) = Break
    \<and> a_delivered (fst (on_timer B g v a)) = a_delivered a \<and> a_wire (fst (on_timer B g v a)) = a_wire a
    \<and> snd (recv (a_engine (fst (on_timer B g v a)))) = Ok (Some msg)"
proof -
  let ?e = "fst (flush B (v_clk v 0) (a_engine a))"
  have idle: "saturating_mul ka 3 \<le> ucast (idle_ms (v_clk v 1 0) ?e)"
    using assms(4) flush_last_activity [OF assms(1), of B "v_clk v 0"] by (simp add: idle_ms_def)
  have "on_timer B g v a = (a\<lparr>a_engine := ?e\<rparr>, Break)"
    using assms(2,3) idle by (simp add: on_timer_def split_def Let_def fatal_def keep_alive_step_def)
  moreover have "snd (recv ?e) = Ok (Some msg)"
    using assms(5) recv_result_cong [of ?e "a_engine a"] flush_effects(11) [where B = B and clk = "v_clk v 0", OF assms(1)]
    by simp
  ultimately show ?thesis by simp
qed

theorem dead_peer_stop_drops_received_messages_witness:
  "let a = (actor_start le_buf_api some_args quiet fresh_engine)
         \<lparr>a_engine := fresh_engine\<lparr>e_rcv_queue := [KcpSegment_push 0 7 0 [1, 2, 3]]\<rparr>\<rparr>;
       r = on_timer le_buf_api some_args (quiet\<lparr>v_timer := True, v_clk := \<lambda>_ _. 90000, v_permits := 5\<rparr>) a
   in snd r = Break \<and> a_delivered (fst r) = a_delivered a
    \<and> snd (recv (a_engine (fst r))) = Ok (Some [1, 2, 3])"
proof -
  let ?e = "fresh_engine\<lparr>e_rcv_queue := [KcpSegment_push 0 7 0 [1, 2, 3]]\<rparr>"
  let ?a = "(actor_start le_buf_api some_args quiet fresh_engine)\<lparr>a_engine := ?e\<rparr>"
  let ?v = "quiet\<lparr>v_timer := True, v_clk := \<lambda>_ _. 90000, v_permits := 5\<rparr>"
  have inv: "send_inv ?e"
    using engine_okD(6) [OF fresh_engine_ok] by (simp add: send_inv_def in_flight_def)
  have empty: "e_snd_buf ?e = []" "e_snd_queue ?e = []"
    by (simp_all add: fresh_engine_def KcpEngine_new_def Let_def)
  then have "move_count ?e = 0" by (simp add: move_count_def)
  then have "e_snd_buf (move_to_send_buf 90000 ?e) = []"
    using empty by (simp add: move_to_send_buf_eq [OF inv])
  then have "\<not> pass_dead 90000 (move_to_send_buf 90000 ?e)"
    by (simp add: pass_dead_def pass_selected_def selected_def)
  then have ok: "snd (flush le_buf_api (v_clk ?v 0) (a_engine ?a)) = Ok ()"
    using flush_effects(1) [where B = le_buf_api and clk = "\<lambda>_. 90000", OF inv] by simp
  have "e_last_activity ?e = 0" by (simp add: fresh_engine_def KcpEngine_new_def Let_def)
  then have idle: "saturating_mul 30000 3 \<le> ucast (idle_ms (v_clk ?v 1 0) (a_engine ?a))"
    by (simp add: idle_ms_def saturating_sub_def saturating_mul_def)
  have msg: "snd (recv (a_engine ?a)) = Ok (Some [1, 2, 3])"
    by (simp add: recv_def peek_size_def KcpSegment_push_def KcpSegment_new_def KcpHeader_new_def usize_as_i32_small Let_def)
  have "send_inv (a_engine ?a)" "g_keep_alive_ms some_args = Some 30000" using inv by (simp_all add: some_args_def)
  from dead_peer_stop_drops_received_messages [OF this(1) ok this(2) idle msg] show ?thesis
    by (simp add: Let_def)
qed

end
