(* ===== verification/Kcp_Stream.thy ===== *)
theory Kcp_Stream
  imports Kcp_Actor_Delivery
begin

text \<open>
  The application handle of a connection: \<open>kcp/stream.rs\<close>, with the command handle of \<open>kcp/actor.rs\<close>.

  A stream talks to its event loop over bounded channels of another crate. What a channel call returns
  is an argument of the operation that makes it; what the stream puts into the channels is recorded
  in the state in order (\<open>t_sent\<close> for data, \<open>t_cmds\<close> for \<open>Close\<close> commands). A boxed future that an earlier
  poll left behind is kept as the values it holds, and what polling it returns is again an argument.
  Of an \<open>io::Error\<close> only the kind is kept. Addresses are any type.
\<close>

unbundle bit_operations_syntax

section \<open>The command handle\<close>

text \<open>
  \<open>sent\<close>: the command went into the channel; \<open>answer\<close>: what the reply channel yields, \<open>None\<close> when the
  loop has exited without a reply.
\<close>

definition request :: "bool \<Rightarrow> 'a option \<Rightarrow> 'a KcpResult" where
  "request sent answer =
     (if \<not> sent then Err (Connection Closed)
      else case answer of Some x \<Rightarrow> Ok x | None \<Rightarrow> Err (Connection Closed))"

definition handle_flush :: "bool \<Rightarrow> unit KcpResult option \<Rightarrow> unit KcpResult" where
  "handle_flush sent answer = (case request sent answer of Inl e \<Rightarrow> Inl e | Inr r \<Rightarrow> r)"

definition handle_stats :: "bool \<Rightarrow> KcpStats option \<Rightarrow> KcpStats KcpResult" where
  "handle_stats sent answer = request sent answer"

definition handle_is_alive :: "bool \<Rightarrow> bool option \<Rightarrow> bool" where
  "handle_is_alive sent answer = (case request sent answer of Inl _ \<Rightarrow> False | Inr b \<Rightarrow> b)"

section \<open>State and construction\<close>

record stream =
  t_mss :: usize
  t_max_msg :: usize
  t_read_buf :: bytes
  t_pending_write :: "(bytes \<times> usize) option"
  t_pending_flush :: bool
  t_pending_shutdown :: bool
  t_actor_task :: bool
  t_recv_task :: bool
  t_connected :: bool
  t_closed :: bool
  t_sent :: "bytes list"
  t_cmds :: "EngineCmd list"

definition SEND_CHANNEL_CAPACITY :: usize where
  "SEND_CHANNEL_CAPACITY = 16"

definition send_high_water :: "KcpConfig \<Rightarrow> usize" where
  "send_high_water config = max (unat (k_snd_wnd config) * 4) 64"

definition stream_mss :: "KcpConfig \<Rightarrow> usize" where
  "stream_mss config = unat (max (saturating_sub (k_mtu config) IKCP_OVERHEAD) 1)"

definition stream_max_msg :: "KcpConfig \<Rightarrow> usize" where
  "stream_max_msg config = stream_mss config * unat (min (k_rcv_wnd config) IKCP_WND_RCV)"

definition stream_args :: "KcpConfig \<Rightarrow> actor_args" where
  "stream_args config =
     \<lparr>g_update_interval_ms = ucast (n_interval (k_nodelay config)),
      g_keep_alive_ms = map_option (\<lambda>d. word_of_nat (as_millis d)) (k_keep_alive config),
      g_simulate_loss = k_simulate_packet_loss config,
      g_send_high_water = send_high_water config\<rparr>"

text \<open>The stream value; a client also runs a receive task.\<close>

definition stream_value :: "bool \<Rightarrow> KcpConfig \<Rightarrow> stream" where
  "stream_value recv_task config =
     \<lparr>t_mss = stream_mss config, t_max_msg = stream_max_msg config, t_read_buf = [], t_pending_write = None,
      t_pending_flush = False, t_pending_shutdown = False, t_actor_task = True, t_recv_task = recv_task,
      t_connected = True, t_closed = False, t_sent = [], t_cmds = []\<rparr>"

text \<open>The engine and the parameters with which the event loop is spawned, and the stream.\<close>

definition new_with_conv :: "clock \<Rightarrow> ConvId \<Rightarrow> KcpConfig \<Rightarrow> (KcpEngine \<times> actor_args \<times> stream) KcpResult" where
  "new_with_conv clk conv config =
     (case validate config of
        Inl e \<Rightarrow> Inl e
      | Inr _ \<Rightarrow>
          (case start (KcpEngine_new clk conv (KcpCoreConfig_from config)) of
             (_, Inl err) \<Rightarrow> Inl (KcpError_from err)
           | (engine, Inr _) \<Rightarrow> Inr (engine, stream_args config, stream_value True config)))"

text \<open>\<open>rnd\<close> are the hash values for the random id; the outer option is its search loop.\<close>

definition new_with_transport ::
    "(nat \<Rightarrow> u64) \<Rightarrow> clock \<Rightarrow> KcpConfig \<Rightarrow> bool \<Rightarrow> (KcpEngine \<times> actor_args \<times> stream) KcpResult option" where
  "new_with_transport rnd clk config is_client =
     (if is_client then map_option (\<lambda>conv. new_with_conv clk conv config) (random_conv_id rnd 0)
      else Some (new_with_conv clk 0 config))"

definition connect_with_transport ::
    "(nat \<Rightarrow> u64) \<Rightarrow> clock \<Rightarrow> KcpConfig \<Rightarrow> (KcpEngine \<times> actor_args \<times> stream) KcpResult option" where
  "connect_with_transport rnd clk config = new_with_transport rnd clk config True"

text \<open>
  Connecting over UDP: \<open>bind\<close> opens the socket and \<open>local_addr\<close> reads its address; the socket has the address
  family of the peer.
\<close>

definition bind_addr :: "bool \<Rightarrow> string" where
  "bind_addr is_ipv6 = (if is_ipv6 then ''[::]:0'' else ''0.0.0.0:0'')"

definition KcpStream_connect :: "(string \<Rightarrow> io_error_kind + 'socket) \<Rightarrow> ('socket \<Rightarrow> io_error_kind + 'addr) \<Rightarrow>
    (nat \<Rightarrow> u64) \<Rightarrow> clock \<Rightarrow> bool \<Rightarrow> KcpConfig \<Rightarrow> (KcpEngine \<times> actor_args \<times> stream) KcpResult option" where
  "KcpStream_connect bind local_addr rnd clk is_ipv6 config =
     (case bind (bind_addr is_ipv6) of
        Inl e \<Rightarrow> Some (Inl (Io e))
      | Inr socket \<Rightarrow>
          (case local_addr socket of
             Inl e \<Rightarrow> Some (Inl (Io e))
           | Inr _ \<Rightarrow> connect_with_transport rnd clk config))"

definition KcpConfig_connect :: "(string \<Rightarrow> io_error_kind + 'socket) \<Rightarrow> ('socket \<Rightarrow> io_error_kind + 'addr) \<Rightarrow>
    (nat \<Rightarrow> u64) \<Rightarrow> clock \<Rightarrow> bool \<Rightarrow> KcpConfig \<Rightarrow> (KcpEngine \<times> actor_args \<times> stream) KcpResult option" where
  "KcpConfig_connect bind local_addr rnd clk is_ipv6 config =
     (case validate config of
        Inl e \<Rightarrow> Some (Inl e)
      | Inr _ \<Rightarrow> KcpStream_connect bind local_addr rnd clk is_ipv6 config)"

lemma connect_Ok:
  assumes "KcpConfig_connect bind local_addr rnd clk is_ipv6 config = Some (Ok (e, args, s))"
  shows "validate config = Ok ()" "connect_with_transport rnd clk config = Some (Ok (e, args, s))"
  using assms by (auto simp: KcpConfig_connect_def KcpStream_connect_def split: sum.splits)

text \<open>The engine calls of \<open>new_server_stream\<close>; \<open>clk k\<close> is the clock of the \<open>k\<close>-th of them.\<close>

definition server_engine :: "buf_api \<Rightarrow> (nat \<Rightarrow> usize) \<Rightarrow> (nat \<Rightarrow> clock) \<Rightarrow> ConvId \<Rightarrow> ConvId \<Rightarrow> KcpConfig \<Rightarrow> bytes \<Rightarrow>
    unit engine_result" where
  "server_engine B ring clk client_conv server_conv config initial_packet =
     and_then (start (KcpEngine_new (clk 0) client_conv (KcpCoreConfig_from config))) (\<lambda>e.
     and_then (input B ring (clk 1) initial_packet e) (\<lambda>e.
     (let e = (if client_conv \<noteq> server_conv then set_conv server_conv e else e) in
      and_then (update B (clk 2) e) (\<lambda>e. flush B (clk 3) e))))"

definition new_server_stream :: "buf_api \<Rightarrow> (nat \<Rightarrow> usize) \<Rightarrow> (nat \<Rightarrow> clock) \<Rightarrow> ConvId \<Rightarrow> ConvId \<Rightarrow> KcpConfig \<Rightarrow> bytes \<Rightarrow>
    (KcpEngine \<times> actor_args \<times> stream) KcpResult" where
  "new_server_stream B ring clk client_conv server_conv config initial_packet =
     (case validate config of
        Inl e \<Rightarrow> Inl e
      | Inr _ \<Rightarrow>
          (case server_engine B ring clk client_conv server_conv config initial_packet of
             (_, Inl err) \<Rightarrow> Inl (KcpError_from err)
           | (engine, Inr _) \<Rightarrow> Inr (engine, stream_args config, stream_value False config)))"

section \<open>Message interface\<close>

text \<open>\<open>chan_open\<close>: the bounded send channel takes the message in the end (it may wait for room).\<close>

definition stream_send :: "bool \<Rightarrow> bytes \<Rightarrow> stream \<Rightarrow> stream \<times> unit KcpResult" where
  "stream_send chan_open data s =
     (if t_closed s then (s, Err (Connection Closed))
      else if length data > t_max_msg s
      then (s, Err (Buffer (''message of '' @ show_usize (length data) @ '' bytes exceeds max '' @
              show_usize (t_max_msg s) @ '' for one send; use AsyncWrite for streaming'')))
      else if chan_open then (s\<lparr>t_sent := t_sent s @ [data]\<rparr>, Ok ())
      else (s, Err (Connection Closed)))"

definition stream_recv :: "bytes option \<Rightarrow> stream \<Rightarrow> bytes option KcpResult" where
  "stream_recv msg s = (if t_closed s then Ok None else Ok msg)"

definition stream_stats :: "bool \<Rightarrow> KcpStats option \<Rightarrow> KcpStats" where
  "stream_stats sent answer = (case handle_stats sent answer of Inl _ \<Rightarrow> KcpStats_default | Inr st \<Rightarrow> st)"

definition stream_is_connected :: "bool \<Rightarrow> bool option \<Rightarrow> stream \<Rightarrow> bool" where
  "stream_is_connected sent answer s \<longleftrightarrow> t_connected s \<and> \<not> t_closed s \<and> handle_is_alive sent answer"

definition send_close :: "bool \<Rightarrow> stream \<Rightarrow> stream" where
  "send_close sent s = (if sent then s\<lparr>t_cmds := t_cmds s @ [Cmd_Close]\<rparr> else s)"

definition abort_tasks :: "stream \<Rightarrow> stream" where
  "abort_tasks s = s\<lparr>t_actor_task := False, t_recv_task := False\<rparr>"

definition stream_close :: "bool \<Rightarrow> stream \<Rightarrow> stream \<times> unit KcpResult" where
  "stream_close sent s =
     (if t_closed s then (s, Ok ())
      else
        (let s1 = send_close sent (s\<lparr>t_closed := True\<rparr>);
             s2 = s1\<lparr>t_actor_task := False\<rparr>
         in (abort_tasks s2, Ok ())))"

definition stream_drop :: "bool \<Rightarrow> stream \<Rightarrow> stream" where
  "stream_drop sent s = send_close sent s"

section \<open>The receive task of a client\<close>

datatype 'addr received_from = Datagram bytes 'addr | Input_closed | Recv_failed

text \<open>One turn: the datagram that is forwarded, and whether the task goes on.\<close>

fun recv_task_turn :: "'addr \<Rightarrow> bool \<Rightarrow> 'addr received_from \<Rightarrow> bytes option \<times> flow" where
  "recv_task_turn peer_addr chan_open (Datagram data src_addr) =
     (if src_addr \<noteq> peer_addr then (None, Continue)
      else if chan_open then (Some data, Continue) else (None, Break))"
| "recv_task_turn peer_addr chan_open Input_closed = (None, Break)"
| "recv_task_turn peer_addr chan_open Recv_failed = (None, Break)"

section \<open>Byte-stream interface\<close>

datatype 'a poll = Ready 'a | NotReady

type_synonym 'a io_result = "io_error_kind + 'a"

datatype try_send = Sent | Chan_full | Chan_closed

text \<open>\<open>room\<close> is the free space of the caller's buffer; the second component is what is put there.\<close>

definition take_buffered :: "usize \<Rightarrow> stream \<Rightarrow> stream \<times> bytes" where
  "take_buffered room s =
     (let to_copy = min room (length (t_read_buf s))
      in (s\<lparr>t_read_buf := drop to_copy (t_read_buf s)\<rparr>, take to_copy (t_read_buf s)))"

definition poll_read :: "usize \<Rightarrow> bytes option poll \<Rightarrow> stream \<Rightarrow> stream \<times> bytes \<times> unit io_result poll" where
  "poll_read room polled s =
     (if t_read_buf s \<noteq> [] then
        (let (s1, out) = take_buffered room s in (s1, out, Ready (Ok ())))
      else if t_closed s then (s, [], Ready (Ok ()))
      else
        (case polled of
           Ready (Some data) \<Rightarrow>
             (let (s1, out) = take_buffered room (s\<lparr>t_read_buf := t_read_buf s @ data\<rparr>)
              in (s1, out, Ready (Ok ())))
         | Ready None \<Rightarrow> (s, [], Ready (Ok ()))
         | NotReady \<Rightarrow> (s, [], NotReady)))"

text \<open>Polling the future a write left behind: \<open>Ready True\<close> when the channel took the chunk.\<close>

definition poll_pending_write :: "bool poll \<Rightarrow> stream \<Rightarrow> stream \<times> usize io_result poll" where
  "poll_pending_write fut s =
     (case (t_pending_write s, fut) of
        (Some (data, len), Ready True) \<Rightarrow>
          (s\<lparr>t_pending_write := None, t_sent := t_sent s @ [data]\<rparr>, Ready (Ok len))
      | (Some (data, len), Ready False) \<Rightarrow> (s\<lparr>t_pending_write := None\<rparr>, Ready (Err (OtherKind ''Other'')))
      | _ \<Rightarrow> (s, NotReady))"

definition poll_write :: "try_send \<Rightarrow> bool poll \<Rightarrow> bytes \<Rightarrow> stream \<Rightarrow> stream \<times> usize io_result poll" where
  "poll_write tried fut buf s =
     (if t_closed s then (s, Ready (Err BrokenPipe))
      else if t_pending_write s = None then
        (let len = min (length buf) (t_mss s);
             data = take len buf
         in case tried of
              Sent \<Rightarrow> (s\<lparr>t_sent := t_sent s @ [data]\<rparr>, Ready (Ok len))
            | Chan_closed \<Rightarrow> (s, Ready (Err BrokenPipe))
            | Chan_full \<Rightarrow> poll_pending_write fut (s\<lparr>t_pending_write := Some (data, len)\<rparr>))
      else poll_pending_write fut s)"

definition poll_flush :: "unit KcpResult poll \<Rightarrow> stream \<Rightarrow> stream \<times> unit io_result poll" where
  "poll_flush fut s =
     (if t_closed s then (s, Ready (Ok ()))
      else
        (case fut of
           Ready r \<Rightarrow> (s\<lparr>t_pending_flush := False\<rparr>, Ready (map_err (\<lambda>_. OtherKind ''Other'') r))
         | NotReady \<Rightarrow> (s\<lparr>t_pending_flush := True\<rparr>, NotReady)))"

text \<open>The future sends \<open>Close\<close> (\<open>sent\<close>: in this poll the channel took it) and waits for the loop to exit.\<close>

definition poll_shutdown :: "bool \<Rightarrow> unit poll \<Rightarrow> stream \<Rightarrow> stream \<times> unit io_result poll" where
  "poll_shutdown sent fut s =
     (if t_closed s then (s, Ready (Ok ()))
      else
        (let s1 = (if \<not> t_pending_shutdown s then s\<lparr>t_actor_task := False, t_pending_shutdown := True\<rparr> else s);
             s2 = send_close sent s1
         in case fut of
              Ready _ \<Rightarrow> (s2\<lparr>t_pending_shutdown := False, t_closed := True\<rparr>, Ready (Ok ()))
            | NotReady \<Rightarrow> (s2, NotReady)))"

section \<open>Reading\<close>

text \<open>The message a poll takes from the data channel.\<close>

definition polled_message :: "bytes option poll \<Rightarrow> stream \<Rightarrow> bytes list" where
  "polled_message polled s =
     (if t_read_buf s = [] \<and> \<not> t_closed s
      then (case polled of Ready (Some data) \<Rightarrow> [data] | _ \<Rightarrow> []) else [])"

text \<open>A sequence of polls: the stream, the bytes read, the messages taken from the channel.\<close>

fun read_run :: "(usize \<times> bytes option poll) list \<Rightarrow> stream \<Rightarrow> stream \<times> bytes \<times> bytes list" where
  "read_run [] s = (s, [], [])"
| "read_run ((room, polled) # ps) s =
     (let (s1, out, _) = poll_read room polled s;
          (s2, outs, msgs) = read_run ps s1
      in (s2, out @ outs, polled_message polled s @ msgs))"

lemma poll_read_bytes:
  "fst (snd (poll_read room polled s)) @ t_read_buf (fst (poll_read room polled s)) =
     t_read_buf s @ concat (polled_message polled s)"
  by (auto simp: poll_read_def polled_message_def take_buffered_def Let_def split: poll.split option.split)

lemma read_run_bytes:
  "fst (snd (read_run ps s)) @ t_read_buf (fst (read_run ps s)) = t_read_buf s @ concat (snd (snd (read_run ps s)))"
proof (induction ps s rule: read_run.induct)
  case (2 room polled ps s)
  have "fst (snd (read_run ps s1)) @ t_read_buf (fst (read_run ps s1)) =
      t_read_buf s1 @ concat (snd (snd (read_run ps s1)))" if "s1 = fst (poll_read room polled s)" for s1
    using 2 that by (metis prod.collapse)
  then show ?case
    using poll_read_bytes [of room polled s] by (auto simp: split_def Let_def)
qed simp

section \<open>What reaches the event loop\<close>

text \<open>Every message in the send channel, or parked for it, is within the limit of the engine.\<close>

definition stream_ok :: "KcpCoreConfig \<Rightarrow> stream \<Rightarrow> bool" where
  "stream_ok c s \<longleftrightarrow> t_mss s \<le> message_limit c \<and> t_max_msg s \<le> message_limit c
     \<and> (\<forall>msg \<in> set (t_sent s). length msg \<le> message_limit c)
     \<and> (case t_pending_write s of Some (data, len) \<Rightarrow> length data = len \<and> len \<le> message_limit c | None \<Rightarrow> True)"

inductive stream_step :: "stream \<Rightarrow> stream \<Rightarrow> bool" where
  step_stream_send: "stream_step s (fst (stream_send chan_open data s))"
| step_stream_close: "stream_step s (fst (stream_close sent s))"
| step_poll_read: "stream_step s (fst (poll_read room polled s))"
| step_poll_write: "stream_step s (fst (poll_write tried fut buf s))"
| step_poll_flush: "stream_step s (fst (poll_flush answer s))"
| step_poll_shutdown: "stream_step s (fst (poll_shutdown sent exited s))"
| step_stream_drop: "stream_step s (stream_drop sent s)"

lemma poll_pending_write_ok: "stream_ok c s \<Longrightarrow> stream_ok c (fst (poll_pending_write fut s))"
  by (auto simp: poll_pending_write_def stream_ok_def split: option.split poll.split bool.split)

lemma poll_read_state: "\<exists>x. fst (poll_read room polled s) = s\<lparr>t_read_buf := x\<rparr>"
proof -
  have "\<exists>x. s = s\<lparr>t_read_buf := x\<rparr>" by (rule exI [of _ "t_read_buf s"]) simp
  then show ?thesis
    by (auto simp: poll_read_def take_buffered_def Let_def split: poll.split option.split)
qed

lemma stream_step_ok:
  assumes ok: "stream_ok c s" and step: "stream_step s s'" shows "stream_ok c s'"
  using step
proof (cases rule: stream_step.cases)
  case (step_poll_write tried fut buf)
  have "stream_ok c (s\<lparr>t_pending_write := Some (take (min (length buf) (t_mss s)) buf, min (length buf) (t_mss s))\<rparr>)"
    using ok by (auto simp: stream_ok_def)
  moreover have "stream_ok c (s\<lparr>t_sent := t_sent s @ [take (min (length buf) (t_mss s)) buf]\<rparr>)"
    using ok by (auto simp: stream_ok_def)
  ultimately show ?thesis
    using ok poll_pending_write_ok unfolding step_poll_write
    by (simp add: poll_write_def Let_def split: try_send.split)
next
  case (step_stream_send chan_open data)
  then show ?thesis using ok by (auto simp: stream_send_def stream_ok_def)
next
  case (step_poll_read room polled)
  obtain x where "fst (poll_read room polled s) = s\<lparr>t_read_buf := x\<rparr>" using poll_read_state by blast
  then show ?thesis using ok step_poll_read by (simp add: stream_ok_def)
qed (use ok in \<open>simp_all add: stream_close_def poll_flush_def poll_shutdown_def stream_drop_def
      send_close_def abort_tasks_def stream_ok_def Let_def split: poll.split\<close>)

lemma stream_limits:
  assumes "validate config = Ok ()"
  shows "stream_mss config = unat (k_mtu config) - 24" "stream_max_msg config = message_limit (KcpCoreConfig_from config)"
    "stream_mss config \<le> message_limit (KcpCoreConfig_from config)"
proof -
  have mtu: "64 \<le> unat (k_mtu config)" and rcv: "0 < unat (k_rcv_wnd config)"
    using assms by (simp_all add: validate_Ok_iff word_le_nat_alt word_less_nat_alt)
  have sub: "unat (k_mtu config - 24) = unat (k_mtu config) - 24"
    using mtu by (subst unat_sub) (simp_all add: word_le_nat_alt)
  then have "1 \<le> k_mtu config - 24" using mtu by (simp add: word_le_nat_alt)
  moreover have "\<not> k_mtu config < 24" using mtu by (simp add: word_less_nat_alt)
  ultimately show mss: "stream_mss config = unat (k_mtu config) - 24"
    using sub by (simp add: stream_mss_def saturating_sub_def max_def)
  then show "stream_max_msg config = message_limit (KcpCoreConfig_from config)"
    by (simp add: stream_max_msg_def message_limit_def KcpCoreConfig_from_def)
  have "1 \<le> unat (min (k_rcv_wnd config) 128)" using rcv by (simp add: min_def)
  then show "stream_mss config \<le> message_limit (KcpCoreConfig_from config)"
    unfolding mss by (simp add: message_limit_def KcpCoreConfig_from_def)
qed

interpretation str: safe_system "\<lambda>s. validate config = Ok () \<and> (\<exists>task. s = stream_value task config)" stream_step
  "stream_ok (KcpCoreConfig_from config)" for config
proof unfold_locales
  fix s assume "validate config = Ok () \<and> (\<exists>task. s = stream_value task config)"
  then show "stream_ok (KcpCoreConfig_from config) s"
    using stream_limits [of config] by (auto simp: stream_ok_def stream_value_def)
qed (rule stream_step_ok)

section \<open>Engines of new streams\<close>

lemma new_engine_ok:
  assumes "validate config = Ok ()"
  shows "engine_ok B (KcpCoreConfig_from config) (KcpEngine_new clk conv (KcpCoreConfig_from config))"
proof -
  have "64 \<le> unat (k_mtu config)" using assms by (simp add: validate_Ok_iff word_le_nat_alt)
  then have "max (k_mtu config) 25 = k_mtu config" by (simp add: max_def word_le_nat_alt)
  then have "e_config (KcpEngine_new clk conv (KcpCoreConfig_from config)) = KcpCoreConfig_from config"
    by (simp add: KcpEngine_new_def KcpCoreConfig_from_def Let_def)
  then show ?thesis
    using new_engine_inv [OF validate_core_config_ok [OF assms]] by (simp add: engine_ok_def)
qed

text \<open>An engine without data to send: a packet and a flush leave it so, and the flush cannot fail.\<close>

lemma process_segments_no_data:
  "e_snd_buf (fst st) = [] \<Longrightarrow> e_snd_buf (fst (process_segments ring current i segs st)) = []"
proof (induction segs arbitrary: i st)
  case (Cons seg segs)
  have ack: "e_snd_buf (parse_ack k sn e) = []" if "e_snd_buf e = []" for k sn e
    using that by (auto simp: parse_ack_def remove_at_def split: sum.split)
  have "e_snd_buf (fst (process_segment (ring i) current seg st)) = []"
    using Cons.prems by (auto simp: process_segment_def input_ack_def input_push_def parse_una_def ack_push_def
        ack Let_def)
  then show ?case using Cons.IH by simp
qed simp

lemma input_no_data: "\<not> has_unsent_data e \<Longrightarrow> \<not> has_unsent_data (fst (input B ring clk data e))"
  using process_segments_no_data [of "(e\<lparr>e_last_activity := clk 0\<rparr>, no_acks)" ring "clk 0" 0 "packet_segments B data"]
  by (auto simp: has_unsent_data_def input_snd_queue)
    (simp add: input_eq count_packet_def finish_input_def Let_def shrink_buf_def parse_fastack_def split: if_splits)

lemma flush_no_data:
  assumes "send_inv e" "\<not> has_unsent_data e"
  shows "snd (flush B clk e) = Ok ()" "\<not> has_unsent_data (fst (flush B clk e))"
    "pass_segments clk e = pass_acks clk e @ pass_probes clk e"
proof -
  have empty: "e_snd_buf e = []" "e_snd_queue e = []" using assms(2) by (simp_all add: has_unsent_data_def)
  then have mc: "move_count e = 0" by (simp add: move_count_def)
  have buf: "e_snd_buf (move_to_send_buf (clk 0) e) = []" "e_snd_queue (move_to_send_buf (clk 0) e) = []"
    using empty by (simp_all add: move_to_send_buf_eq [OF assms(1)] mc)
  then have sel: "pass_selected (clk 0) (move_to_send_buf (clk 0) e) = []"
    by (simp add: pass_selected_def selected_def)
  then have "\<not> pass_dead (clk 0) (move_to_send_buf (clk 0) e)" by (simp add: pass_dead_def)
  then show "snd (flush B clk e) = Ok ()"
    using flush_effects(1) [where B = B and clk = clk, OF assms(1)] by simp
  show "\<not> has_unsent_data (fst (flush B clk e))"
    using buf flush_effects(2,3) [where B = B and clk = clk, OF assms(1)] by (simp add: has_unsent_data_def)
  show "pass_segments clk e = pass_acks clk e @ pass_probes clk e" by (simp add: pass_segments_def sel)
qed

lemma process_segments_conv: "e_conv (fst (process_segments ring current i segs st)) = e_conv (fst st)"
  by (induction segs arbitrary: i st) simp_all

lemma input_conv: "e_conv (fst (input B ring clk data e)) = e_conv e"
  by (simp add: input_eq count_packet_def finish_input_def Let_def process_segments_conv)

text \<open>Everything emitted carries one conversation id.\<close>

definition emits_conv :: "buf_api \<Rightarrow> ConvId \<Rightarrow> KcpEngine \<Rightarrow> bool" where
  "emits_conv B conv e \<longleftrightarrow>
     (\<exists>segs. emitted e = concat (map (\<lambda>s. KcpSegment_encode B s []) segs) \<and> (\<forall>s\<in>set segs. h_conv (s_header s) = conv))"

lemma control_segments_conv: "\<forall>s\<in>set (pass_acks clk e @ pass_probes clk e). h_conv (s_header s) = e_conv e"
proof -
  have "\<forall>s\<in>set (ack_segs clk i c w u acks). h_conv (s_header s) = c" for i c w u acks
    by (induction acks arbitrary: i) (simp_all add: make_ack_def KcpSegment_ack_def KcpSegment_new_def KcpHeader_new_def Let_def)
  moreover have "\<forall>s\<in>set (pass_probes clk e). h_conv (s_header s) = e_conv e"
    by (auto simp: pass_probes_def create_probe_segment_def KcpSegment_new_def KcpHeader_new_def Let_def)
  ultimately show ?thesis by (auto simp: pass_acks_def)
qed

text \<open>The state in which a server stream is handed to its event loop.\<close>

definition quiet_engine :: "buf_api \<Rightarrow> KcpCoreConfig \<Rightarrow> ConvId \<Rightarrow> KcpEngine \<Rightarrow> bool" where
  "quiet_engine B c conv e \<longleftrightarrow> engine_ok B c e \<and> \<not> has_unsent_data e \<and> e_conv e = conv \<and> emits_conv B conv e"

lemma quiet_engine_update:
  assumes "quiet_engine B c conv e" shows "quiet_engine B c conv (e\<lparr>e_last_update := t\<rparr>)"
proof -
  have "engine_ok B c (e\<lparr>e_last_update := t\<rparr>)"
    using assms engine_ok_last_update by (simp add: quiet_engine_def)
  then show ?thesis using assms by (simp add: quiet_engine_def has_unsent_data_def emits_conv_def emitted_def)
qed

context buf_codec
begin

lemma quiet_engine_flush:
  assumes "quiet_engine B c conv e"
  shows "snd (flush B clk e) = Ok ()" "quiet_engine B c conv (fst (flush B clk e))"
proof -
  have e: "engine_ok B c e" "\<not> has_unsent_data e" "e_conv e = conv" "emits_conv B conv e"
    using assms by (simp_all add: quiet_engine_def)
  note inv = engine_okD(6) [OF e(1)]
  show "snd (flush B clk e) = Ok ()" by (rule flush_no_data(1) [OF inv e(2)])
  obtain segs where segs: "emitted e = concat (map (\<lambda>s. KcpSegment_encode B s []) segs)"
    "\<forall>s\<in>set segs. h_conv (s_header s) = conv"
    using e(4) by (auto simp: emits_conv_def)
  have "emitted (fst (flush B clk e)) =
      concat (map (\<lambda>s. KcpSegment_encode B s []) (segs @ pass_acks clk e @ pass_probes clk e))"
    unfolding flush_emitted [OF inv] segs(1) flush_no_data(3) [OF inv e(2)] by simp
  moreover have "\<forall>s\<in>set (segs @ pass_acks clk e @ pass_probes clk e). h_conv (s_header s) = conv"
    using segs(2) control_segments_conv [of clk e] e(3) by auto
  ultimately have "emits_conv B conv (fst (flush B clk e))" unfolding emits_conv_def by blast
  then show "quiet_engine B c conv (fst (flush B clk e))"
    using engine_ok_flush [OF e(1)] flush_no_data(2) [OF inv e(2)] flush_effects(6) [where B = B and clk = clk, OF inv] e(3)
    by (simp add: quiet_engine_def)
qed

lemma quiet_engine_tick:
  assumes "quiet_engine B c conv e"
  shows "snd (update B clk e) = Ok ()" "quiet_engine B c conv (fst (update B clk e))"
proof -
  have "and_then r (\<lambda>e. (e, Ok ())) = (fst r, Ok ())" if "snd r = Ok ()" for r :: "unit engine_result"
    using that by (cases r) simp
  then show "snd (update B clk e) = Ok ()" "quiet_engine B c conv (fst (update B clk e))"
    using quiet_engine_flush [OF quiet_engine_update [OF assms]] quiet_engine_update [OF assms] assms
    by (simp_all add: update_def Let_def)
qed

lemma server_engine_quiet:
  assumes "validate config = Ok ()" "24 \<le> length packet"
  shows "snd (server_engine B ring clk client_conv server_conv config packet) = Ok ()"
    "quiet_engine B (KcpCoreConfig_from config) server_conv
       (fst (server_engine B ring clk client_conv server_conv config packet))"
    "concat (e_output_queue (fst (server_engine B ring clk client_conv server_conv config packet))) =
       emitted (fst (server_engine B ring clk client_conv server_conv config packet))"
proof -
  let ?c = "KcpCoreConfig_from config"
  let ?e0 = "KcpEngine_new (clk 0) client_conv ?c"
  have ok0: "engine_ok B ?c ?e0" by (rule new_engine_ok [OF assms(1)])
  have new: "\<not> has_unsent_data ?e0" "emitted ?e0 = []" "e_conv ?e0 = client_conv"
    by (simp_all add: has_unsent_data_def emitted_def KcpEngine_new_def Let_def)
  have "snd (input B ring (clk 1) packet ?e0) = Ok ()" using assms(2) by (simp add: input_eq)
  then obtain e1 where inp: "input B ring (clk 1) packet ?e0 = (e1, Ok ())"
    by (cases "input B ring (clk 1) packet ?e0") simp
  have e1: "e1 = fst (input B ring (clk 1) packet ?e0)" using inp by simp
  define e2 where "e2 = (if client_conv \<noteq> server_conv then set_conv server_conv e1 else e1)"
  have ok1: "engine_ok B ?c e1" unfolding e1 by (rule engine_ok_input [OF ok0])
  have "emitted e1 = []" "e_conv e1 = client_conv"
    unfolding e1 using new(2) by (simp_all add: input_conv new(3))
      (simp add: emitted_def input_eq count_packet_def finish_input_def Let_def process_segments_output_fields)
  moreover have "engine_ok B ?c (set_conv server_conv e1)"
    using ok1 engine_inv_cong [of B e1 "set_conv server_conv e1"] by (simp add: engine_ok_def set_conv_def)
  moreover have "\<not> has_unsent_data e1" unfolding e1 by (rule input_no_data [OF new(1)])
  ultimately have q2: "quiet_engine B ?c server_conv e2"
    using ok1 unfolding e2_def
    by (auto simp: quiet_engine_def emits_conv_def set_conv_def has_unsent_data_def emitted_def intro!: exI [of _ "[]"])
  let ?u = "fst (update B (clk 2) e2)"
  have upd: "update B (clk 2) e2 = (?u, Ok ())" using quiet_engine_tick(1) [OF q2] by (simp add: prod_eq_iff)
  have eq: "server_engine B ring clk client_conv server_conv config packet = flush B (clk 3) ?u"
    unfolding server_engine_def start_def and_then_Ok inp Let_def e2_def [symmetric] by (subst upd) (rule and_then_Ok)
  note u = quiet_engine_tick(2) [OF q2, of "clk 2"]
  show "snd (server_engine B ring clk client_conv server_conv config packet) = Ok ()"
    "quiet_engine B ?c server_conv (fst (server_engine B ring clk client_conv server_conv config packet))"
    unfolding eq by (rule quiet_engine_flush [OF u])+
  have "send_inv ?u" using u engine_okD(6) by (auto simp: quiet_engine_def)
  then show "concat (e_output_queue (fst (server_engine B ring clk client_conv server_conv config packet))) =
       emitted (fst (server_engine B ring clk client_conv server_conv config packet))"
    unfolding eq using flush_effects(1,19) [where B = B and clk = "clk 3" and e = ?u] quiet_engine_flush(1) [OF u, of "clk 3"]
    by (simp add: emitted_def split: if_splits)
qed

end

section \<open>Properties\<close>

text \<open>
  C16. Reading is a byte stream: over any sequence of polls with buffers of any size, the bytes handed to
  the reader, followed by what is still buffered, are exactly the bytes that were buffered, followed
  by the messages taken from the channel, in order; so message boundaries disappear and no byte is
  lost, repeated or reordered. Bytes buffered when the stream is closed can still be read.
\<close>

theorem reads_return_the_byte_stream:
  "let (s', out, msgs) = read_run ps s in out @ t_read_buf s' = t_read_buf s @ concat msgs
     \<and> (t_closed s \<longrightarrow> msgs = [])"
proof -
  have "t_closed (fst (poll_read room polled s)) = t_closed s" for room polled s
    using poll_read_state [of room polled s] by auto
  then have "t_closed s \<longrightarrow> snd (snd (read_run ps s)) = []"
  proof (induction ps arbitrary: s)
    case (Cons p ps)
    then show ?case by (cases p) (simp add: split_def Let_def polled_message_def)
  qed simp
  then show ?thesis using read_run_bytes [of ps s] by (simp add: split_def Let_def)
qed

theorem reads_return_the_byte_stream_witness:
  "fst (snd (read_run [(2, Ready (Some [1, 2, 3])), (9, NotReady), (1, Ready (Some [4]))]
     (stream_value True KcpConfig_default))) = [1, 2, 3, 4]"
proof -
  let ?r = "read_run [(2, Ready (Some [1, 2, 3])), (9, NotReady), (1, Ready (Some [4]))]
     (stream_value True KcpConfig_default)"
  have "t_read_buf (fst ?r) = []" "snd (snd ?r) = [[1, 2, 3], [4]]" "t_read_buf (stream_value True KcpConfig_default) = []"
    by (simp_all add: poll_read_def take_buffered_def polled_message_def stream_value_def)
  then show ?thesis
    using reads_return_the_byte_stream [of "[(2, Ready (Some [1, 2, 3])), (9, NotReady), (1, Ready (Some [4]))]"
        "stream_value True KcpConfig_default"]
    by (simp only: split_def Let_def) simp
qed

text \<open>
  A read of zero bytes means the end of the stream. When the polled message is one the event loop
  delivered, a read into a non-empty buffer that completes without a byte happens only when nothing is
  buffered and the stream was closed or the channel has ended: the loop never delivers an
  empty message, which a reader would take for the end.
\<close>

theorem zero_byte_read_means_end:
  assumes "buf_codec B" "engine_ok B c e" "run_engine_actor B g v0 vs e = (a, f)"
    and "\<forall>msg. polled = Ready (Some msg) \<longrightarrow> msg \<in> set (a_delivered a)"
    and "poll_read room polled s = (s', [], Ready (Ok ()))" "0 < room"
  shows "t_read_buf s = [] \<and> (t_closed s \<or> polled = Ready None)"
proof -
  let ?a0 = "actor_start B g v0 e"
  have "actor_ok B c (fst (run_loop B g vs ?a0))"
    by (rule buf_codec.run_loop_ok [OF assms(1) buf_codec.actor_start_ok(1) [OF assms(1,2)]])
  then have "[] \<notin> set (a_delivered a)"
    using assms(3) by (simp add: run_engine_actor_def actor_ok_def)
  then have "polled \<noteq> Ready (Some [])" using assms(4) by auto
  then show ?thesis
    using assms(5,6)
    by (auto simp: poll_read_def take_buffered_def Let_def min_def split: if_splits poll.splits option.splits)
qed

theorem zero_byte_read_means_end_witness:
  "t_read_buf (stream_value True KcpConfig_default) = [] \<and>
   (t_closed (stream_value True KcpConfig_default) \<or> (Ready None :: bytes option poll) = Ready None)"
proof -
  let ?r = "run_engine_actor le_buf_api some_args quiet [] fresh_engine"
  let ?s = "stream_value True KcpConfig_default"
  have run: "?r = (fst ?r, snd ?r)" by simp
  have "poll_read 5 (Ready None) ?s = (?s, [], Ready (Ok ()))"
    by (simp add: poll_read_def stream_value_def)
  then show ?thesis
    by (intro zero_byte_read_means_end [OF le.buf_codec_axioms fresh_engine_ok run, of "Ready None" 5]) simp_all
qed

text \<open>
  A write hands over one chunk. With no earlier write parked, a poll that completes with \<open>n\<close> has put
  exactly the first \<open>n = min(len, mss)\<close> bytes of the caller's buffer into the send channel, as one
  message; a failing poll has put nothing there; a poll that must wait has parked exactly that chunk.
\<close>

theorem poll_write_hands_over_one_chunk:
  assumes "t_pending_write s = None" "\<not> t_closed s" "poll_write tried fut buf s = (s', r)"
  shows "let n = min (length buf) (t_mss s) in
      r = Ready (Ok n) \<and> s' = s\<lparr>t_sent := t_sent s @ [take n buf]\<rparr>
    \<or> (\<exists>err. r = Ready (Err err)) \<and> s' = s
    \<or> r = NotReady \<and> s' = s\<lparr>t_pending_write := Some (take n buf, n)\<rparr>"
proof -
  have id: "s\<lparr>t_pending_write := None\<rparr> = s" using assms(1) by simp
  have id2: "s\<lparr>t_pending_write := None, t_sent := x\<rparr> = s\<lparr>t_sent := x\<rparr>" for x using assms(1) by (cases s) simp
  have eq: "(s', r) = poll_write tried fut buf s" by (rule assms(3) [symmetric])
  show ?thesis
  proof (cases tried)
    case Sent
    then show ?thesis using eq assms(1,2) by (simp add: poll_write_def Let_def)
  next
    case Chan_closed
    then show ?thesis using eq assms(1,2) by (simp add: poll_write_def Let_def)
  next
    case Chan_full
    then show ?thesis
      using eq assms(1,2) id id2 by (cases fut) (simp_all add: poll_write_def poll_pending_write_def Let_def split: bool.splits)
  qed
qed

theorem poll_write_hands_over_one_chunk_witness:
  "t_sent (fst (poll_write Sent NotReady [1, 2, 3] (stream_value True KcpConfig_default))) = [[1, 2, 3]]"
proof -
  let ?s = "stream_value True KcpConfig_default"
  have s: "t_pending_write ?s = None" "\<not> t_closed ?s" "t_mss ?s = 1376" "t_sent ?s = []"
    by (simp_all add: stream_value_def stream_mss_def KcpConfig_default_def saturating_sub_def)
  have "poll_write Sent NotReady [1, 2, 3] ?s = (fst (poll_write Sent NotReady [1, 2, 3] ?s), Ready (Ok 3))"
    using s by (simp add: poll_write_def)
  from poll_write_hands_over_one_chunk [OF s(1,2) this] s show ?thesis by (auto simp: Let_def)
qed

text \<open>
  After a poll that had to wait, the next poll completes the parked chunk and reports its length,
  whatever buffer it is called with: a caller that gave up the first write and writes other data gets
  the old data sent and may be told a length greater than the buffer it passed.
\<close>

theorem poll_write_reports_parked_length:
  assumes "t_pending_write s = Some (data, len)" "\<not> t_closed s"
  shows "poll_write tried (Ready True) buf s =
    (s\<lparr>t_pending_write := None, t_sent := t_sent s @ [data]\<rparr>, Ready (Ok len))"
  using assms by (simp add: poll_write_def poll_pending_write_def)

theorem poll_write_reports_parked_length_witness:
  "let s1 = fst (poll_write Chan_full NotReady [1, 2, 3] (stream_value True KcpConfig_default));
       (s2, r) = poll_write Sent (Ready True) [9] s1
   in r = Ready (Ok 3) \<and> t_sent s2 = [[1, 2, 3]] \<and> length [9 :: u8] < 3"
proof -
  let ?s1 = "fst (poll_write Chan_full NotReady [1, 2, 3] (stream_value True KcpConfig_default))"
  have "t_pending_write ?s1 = Some ([1, 2, 3], 3)" "\<not> t_closed ?s1" "t_sent ?s1 = []"
    by (simp_all add: poll_write_def poll_pending_write_def stream_value_def stream_mss_def KcpConfig_default_def
        saturating_sub_def)
  with poll_write_reports_parked_length [of ?s1 "[1, 2, 3]" 3 Sent "[9]"] show ?thesis by (simp add: Let_def)
qed

text \<open>
  The two sides agree on the message limit: every message that a stream of a validated
  configuration ever puts into the send channel, by any sequence of \<open>send\<close> and \<open>poll_write\<close> calls, is
  accepted by the engine of the connection in every state, and its bytes are queued behind
  those that wait; so the event loop never drops an accepted write.
\<close>

theorem accepted_messages_fit_engine:
  assumes "validate config = Ok ()" "stream_step\<^sup>*\<^sup>* (stream_value task config) s" "msg \<in> set (t_sent s)"
    and "engine_ok B (KcpCoreConfig_from config) e"
  shows "snd (send clk msg e) = Ok () \<and> unacked_bytes (fst (send clk msg e)) = unacked_bytes e @ msg"
proof -
  have "stream_ok (KcpCoreConfig_from config) s"
    using str.reachable_inv [of config "stream_value task config" s] assms(1,2) by blast
  then have "length msg \<le> message_limit (KcpCoreConfig_from config)" using assms(3) by (simp add: stream_ok_def)
  from send_within_limit [OF assms(4) this] show ?thesis using send_unacked [OF assms(4)] by blast
qed

lemma default_validates: "validate KcpConfig_default = Ok ()"
  by (simp add: validate_Ok_iff KcpConfig_default_def NodeDelayConfig_normal_def)

lemma default_core: "KcpCoreConfig_from KcpConfig_default = KcpCoreConfig_default"
  by (simp add: KcpCoreConfig_from_def KcpConfig_default_def KcpCoreConfig_default_def)

theorem accepted_messages_fit_engine_witness:
  "snd (send (\<lambda>_. 3) [1, 2, 3] fresh_engine) = Ok ()"
proof -
  let ?s = "fst (stream_send True [1, 2, 3] (stream_value True KcpConfig_default))"
  have "stream_step\<^sup>*\<^sup>* (stream_value True KcpConfig_default) ?s"
    by (intro r_into_rtranclp step_stream_send)
  moreover have "[1, 2, 3] \<in> set (t_sent ?s)"
    by (simp add: stream_send_def stream_value_def stream_max_msg_def stream_mss_def KcpConfig_default_def saturating_sub_def)
  moreover have "engine_ok le_buf_api (KcpCoreConfig_from KcpConfig_default) fresh_engine"
    using fresh_engine_ok by (simp add: default_core)
  ultimately show ?thesis using accepted_messages_fit_engine [OF default_validates] by blast
qed

text \<open>
  The server side of the handshake. For a validated configuration and any first datagram of at least
  a header, a server stream is always created; its engine is in order and idle, and everything it has
  queued for the client so far, acknowledgements and window answers, is a sequence of
  segments that carry the conversation id the server chose, also when the client opened with id 0.
\<close>

theorem server_stream_answers_with_server_conv:
  assumes "buf_codec B" "validate config = Ok ()" "24 \<le> length packet"
  shows "\<exists>e. new_server_stream B ring clk client_conv server_conv config packet =
        Ok (e, stream_args config, stream_value False config)
    \<and> engine_ok B (KcpCoreConfig_from config) e \<and> e_conv e = server_conv
    \<and> (\<exists>segs. concat (e_output_queue e) = concat (map (\<lambda>s. KcpSegment_encode B s []) segs)
          \<and> (\<forall>s \<in> set segs. h_conv (s_header s) = server_conv))"
proof -
  let ?r = "server_engine B ring clk client_conv server_conv config packet"
  note q = buf_codec.server_engine_quiet [OF assms]
  have "?r = (fst ?r, Ok ())" using q(1) by (simp add: prod_eq_iff)
  then have "new_server_stream B ring clk client_conv server_conv config packet =
      Ok (fst ?r, stream_args config, stream_value False config)"
    using assms(2) q(1) by (simp add: new_server_stream_def split_def)
  then show ?thesis
    using q(2,3) by (auto simp: quiet_engine_def emits_conv_def intro!: exI [of _ "fst ?r"])
qed

theorem server_stream_answers_with_server_conv_witness:
  "\<exists>e. new_server_stream le_buf_api (\<lambda>_. 0) (\<lambda>_ _. 0) 0 77 KcpConfig_default (replicate 24 0) =
        Ok (e, stream_args KcpConfig_default, stream_value False KcpConfig_default) \<and> e_conv e = 77"
  using server_stream_answers_with_server_conv [OF le.buf_codec_axioms default_validates, of "replicate 24 0"] by force

text \<open>
  C32. Every stream a client opens is well formed: \<open>connect\<close> refuses exactly the configurations that
  \<open>validate\<close> refuses, with the same error; otherwise the engine is in order under the core part of the
  configuration, its conversation id is not 0, and the chunk size of the stream is the segment
  size of the engine.
\<close>

theorem client_streams_well_formed:
  assumes "connect_with_transport rnd clk config = Some r"
  shows "case r of
      Inl err \<Rightarrow> validate config = Err err
    | Inr (e, g, s) \<Rightarrow> validate config = Ok () \<and> engine_ok B (KcpCoreConfig_from config) e \<and> e_conv e \<noteq> 0
        \<and> t_mss s = unat (mss e) \<and> t_max_msg s = message_limit (KcpCoreConfig_from config)
        \<and> 0 < t_mss s \<and> g_send_high_water g \<ge> 64 \<and> \<not> t_closed s"
proof -
  obtain conv where conv: "random_conv_id rnd 0 = Some conv" "r = new_with_conv clk conv config"
    using assms by (auto simp: connect_with_transport_def new_with_transport_def)
  have "conv \<noteq> 0" by (rule random_conv_id_nonzero [OF conv(1)])
  show ?thesis
  proof (cases "validate config")
    case (Inl err)
    then show ?thesis by (simp add: conv(2) new_with_conv_def)
  next
    case (Inr x)
    then have ok: "validate config = Ok ()" by simp
    let ?e = "KcpEngine_new clk conv (KcpCoreConfig_from config)"
    have eo: "engine_ok B (KcpCoreConfig_from config) ?e" by (rule new_engine_ok [OF ok])
    have "unat (mss ?e) = unat (k_mtu config) - 24"
      using unat_mss [OF engine_okD(8) [OF eo]] engine_okD(2) [OF eo] by (simp add: KcpCoreConfig_from_def)
    moreover have "0 < unat (mss ?e)" by (rule mss_pos [OF engine_okD(8) [OF eo]])
    moreover have "e_conv ?e = conv" by (simp add: KcpEngine_new_def Let_def)
    ultimately show ?thesis
      using ok eo \<open>conv \<noteq> 0\<close> stream_limits [OF ok]
      by (simp add: conv(2) new_with_conv_def start_def stream_value_def stream_args_def send_high_water_def)
  qed
qed

theorem client_streams_well_formed_witness:
  "\<exists>e g s. connect_with_transport (\<lambda>_. 5) (\<lambda>_. 0) KcpConfig_default = Some (Ok (e, g, s)) \<and> e_conv e \<noteq> 0"
proof -
  have "random_conv_id (\<lambda>_. 5) 0 = Some 5" by (subst random_conv_id.simps) simp
  then obtain e g s where "connect_with_transport (\<lambda>_. 5) (\<lambda>_. 0) KcpConfig_default = Some (Ok (e, g, s))"
    by (simp add: connect_with_transport_def new_with_transport_def new_with_conv_def default_validates start_def)
  with client_streams_well_formed [OF this, of le_buf_api] show ?thesis by auto
qed

text \<open>
  The high-water mark is documented as a number of queued messages; \<open>send_queue_len\<close> counts the
  fragments: in message mode an accepted message of \<open>n\<close> fragments raises it by \<open>n\<close>.
\<close>

theorem send_queue_len_counts_fragments:
  assumes "mtu_ok e" "\<not> c_stream_mode (e_config e)" "data \<noteq> []"
    and "length data \<le> unat (mss e) * max_frags e"
  shows "send_queue_len (fst (send clk data e)) = send_queue_len e + div_ceil_usize (length data) (unat (mss e))"
proof -
  have m: "0 < unat (mss e)" using assms(1) by (rule mss_pos)
  have "stream_merge (unat (mss e)) data (e\<lparr>e_last_activity := clk 0\<rparr>) = None"
    using assms(2) by (simp add: stream_merge_def)
  then have "send clk data e = send_fragments clk (unat (mss e)) data (e\<lparr>e_last_activity := clk 0\<rparr>)"
    using assms(3) by (simp add: send_def Let_def)
  then show ?thesis
    using chunks_within [OF m assms(4)] by (simp add: send_fragments_cases [OF m assms(3)] send_queue_len_def length_chunks [OF m])
qed

theorem send_queue_len_counts_fragments_witness:
  "send_queue_len (fst (send (\<lambda>_. 0) (replicate 3000 7) fresh_engine)) = 3"
proof -
  have e: "mss fresh_engine = 1376" "\<not> c_stream_mode (e_config fresh_engine)" "max_frags fresh_engine = 128"
    "send_queue_len fresh_engine = 0"
    by (simp_all add: fresh_engine_def mss_def max_frags_def send_queue_len_def KcpEngine_new_def
        KcpCoreConfig_default_def Let_def)
  have ne: "replicate 3000 (7 :: u8) \<noteq> []" by simp
  show ?thesis
    using send_queue_len_counts_fragments [OF engine_okD(8) [OF fresh_engine_ok] e(2) ne, of "\<lambda>_. 0"]
    by (simp add: e div_ceil_usize_def)
qed

end
