(* ===== verification/Kcp_Listener.thy ===== *)
theory Kcp_Listener
  imports Kcp_Stream "HOL-Library.AList"
begin

text \<open>
  The server side: \<open>kcp/listener.rs\<close>. A listener keeps the peers that wait to be accepted, those that are
  being accepted and those that have a stream, routes the datagrams of active peers to their streams
  and turns the first datagram of a new peer into a pending connection.

  \<open>HashMap\<close> and the concurrent \<open>DashMap\<close> are association lists with distinct keys, \<open>HashSet\<close> a set. The
  connection queue is the list of what was put in and not yet taken out; whether \<open>try_send\<close> finds room,
  whether an input channel is closed, the clock and the hash values are arguments. An input channel is a
  number.

  The handlers are given first as functions, each run alone. The listening task and \<open>accept\<close> run
  concurrently, and a handler takes the lock of the shared state several times; so the handlers are
  then cut where the code releases the lock, and \<open>listener_step\<close> interleaves the pieces, with the
  place each of the two has reached as part of the state.
\<close>

section \<open>State\<close>

record 'addr incoming =
  i_peer_addr :: 'addr
  i_conv :: ConvId
  i_client_conv :: ConvId
  i_handshake_data :: bytes
  i_created_at :: instant

record 'addr conn_state =
  n_pending :: "('addr \<times> 'addr incoming) list"
  n_accepting :: "'addr set"
  n_active :: "'addr set"

definition ConnectionState_new :: "'addr conn_state" where
  "ConnectionState_new = \<lparr>n_pending = [], n_accepting = {}, n_active = {}\<rparr>"

record 'addr listener =
  l_config :: KcpConfig
  l_state :: "'addr conn_state"
  l_active_streams :: "('addr \<times> nat) list"
  l_queue :: "'addr incoming list"
  l_current :: "'addr incoming option"
  l_task :: bool

text \<open>
  \<open>local_addr\<close> is what the transport reports. \<open>capacity_ok\<close> and \<open>period_ok\<close> tell which arguments the
  constructors of the bounded channel and of the interval timer accept; they panic on others. A panic of
  the first is the result \<open>None\<close>; a panic of the second ends the listening task, which creates the timer.
\<close>

definition with_transport :: "(usize \<Rightarrow> bool) \<Rightarrow> (duration \<Rightarrow> bool) \<Rightarrow> KcpConfig \<Rightarrow> io_error_kind + 'addr \<Rightarrow>
    'addr listener KcpResult option" where
  "with_transport capacity_ok period_ok config local_addr =
     (case validate config of
        Inl e \<Rightarrow> Some (Inl e)
      | Inr _ \<Rightarrow>
          (case local_addr of
             Inl e \<Rightarrow> Some (Inl (Io e))
           | Inr _ \<Rightarrow>
               if \<not> capacity_ok (k_max_pending_connections config) then None
               else Some (Inr \<lparr>l_config = config, l_state = ConnectionState_new, l_active_streams = [],
                               l_queue = [], l_current = None, l_task = period_ok (k_cleanup_interval config)\<rparr>)))"

text \<open>\<open>bound\<close> is the result of opening the UDP socket.\<close>

definition listener_bind :: "(usize \<Rightarrow> bool) \<Rightarrow> (duration \<Rightarrow> bool) \<Rightarrow> KcpConfig \<Rightarrow> io_error_kind + 'socket \<Rightarrow>
    ('socket \<Rightarrow> io_error_kind + 'addr) \<Rightarrow> 'addr listener KcpResult option" where
  "listener_bind capacity_ok period_ok config bound local_addr =
     (case bound of
        Inl e \<Rightarrow> Some (Inl (Io e))
      | Inr socket \<Rightarrow> with_transport capacity_ok period_ok config (local_addr socket))"

definition KcpConfig_listen :: "(usize \<Rightarrow> bool) \<Rightarrow> (duration \<Rightarrow> bool) \<Rightarrow> KcpConfig \<Rightarrow> io_error_kind + 'socket \<Rightarrow>
    ('socket \<Rightarrow> io_error_kind + 'addr) \<Rightarrow> 'addr listener KcpResult option" where
  "KcpConfig_listen capacity_ok period_ok config bound local_addr =
     (case validate config of
        Inl e \<Rightarrow> Some (Inl e)
      | Inr _ \<Rightarrow> listener_bind capacity_ok period_ok config bound local_addr)"

definition pending_count :: "'addr listener \<Rightarrow> usize" where
  "pending_count l = length (n_pending (l_state l))"

definition remove_active_connection :: "'addr \<Rightarrow> 'addr listener \<Rightarrow> 'addr listener" where
  "remove_active_connection peer l = l\<lparr>l_state := (l_state l)\<lparr>n_active := n_active (l_state l) - {peer}\<rparr>\<rparr>"

definition listener_close :: "'addr listener \<Rightarrow> 'addr listener" where
  "listener_close l = l\<lparr>l_task := False\<rparr>"

text \<open>Dropping the listener aborts the task if it still has one, which leaves what \<open>close\<close> leaves.\<close>

definition listener_drop :: "'addr listener \<Rightarrow> 'addr listener" where
  "listener_drop l = (if l_task l then l\<lparr>l_task := False\<rparr> else l)"

lemma listener_drop_closes: "listener_drop l = listener_close l"
  by (simp add: listener_drop_def listener_close_def)

section \<open>The listening task\<close>

text \<open>The header of a datagram that may open a connection.\<close>

definition opening_header :: "buf_api \<Rightarrow> bytes \<Rightarrow> KcpHeader option" where
  "opening_header B data =
     (if length data \<ge> KcpHeader_SIZE
      then (case KcpHeader_decode B data of
              Some (header, _) \<Rightarrow>
                if h_cmd header \<in> {IKCP_CMD_PUSH, IKCP_CMD_ACK, IKCP_CMD_WASK, IKCP_CMD_WINS}
                then Some header else None
            | None \<Rightarrow> None)
      else None)"

text \<open>The checks under the read lock.\<close>

definition admissible :: "'addr \<Rightarrow> usize \<Rightarrow> 'addr conn_state \<Rightarrow> bool" where
  "admissible peer max_pending st \<longleftrightarrow>
     peer \<notin> n_active st \<and> peer \<notin> n_accepting st \<and> map_of (n_pending st) peer = None
     \<and> length (n_pending st) < max_pending"

definition server_conv_for :: "(nat \<Rightarrow> u64) \<Rightarrow> ConvId \<Rightarrow> ConvId option" where
  "server_conv_for rnd client_conv = (if client_conv = 0 then random_conv_id rnd 0 else Some client_conv)"

text \<open>\<open>sent\<close>: the connection queue had room.\<close>

definition register_connection :: "bool \<Rightarrow> 'addr incoming \<Rightarrow> 'addr listener \<Rightarrow> 'addr listener" where
  "register_connection sent incoming l =
     (let peer = i_peer_addr incoming;
          st = l_state l;
          st1 = st\<lparr>n_pending := AList.update peer incoming (n_pending st)\<rparr>
      in if sent then l\<lparr>l_state := st1, l_queue := l_queue l @ [incoming]\<rparr>
         else l\<lparr>l_state := st1\<lparr>n_pending := AList.delete peer (n_pending st1)\<rparr>\<rparr>)"

text \<open>The outer option is the search loop of \<open>random_conv_id\<close>.\<close>

definition handle_incoming_packet :: "buf_api \<Rightarrow> (nat \<Rightarrow> u64) \<Rightarrow> instant \<Rightarrow> bool \<Rightarrow> usize \<Rightarrow> bytes \<Rightarrow> 'addr \<Rightarrow>
    'addr listener \<Rightarrow> 'addr listener option" where
  "handle_incoming_packet B rnd now sent max_pending data peer l =
     (case opening_header B data of
        None \<Rightarrow> Some l
      | Some header \<Rightarrow>
          if \<not> admissible peer max_pending (l_state l) then Some l
          else map_option (\<lambda>server_conv. register_connection sent
                 \<lparr>i_peer_addr = peer, i_conv = server_conv, i_client_conv = h_conv header,
                  i_handshake_data = data, i_created_at = now\<rparr> l) (server_conv_for rnd (h_conv header)))"

text \<open>A received datagram: the input channel it is forwarded to, if any, and the new state.\<close>

definition on_datagram :: "buf_api \<Rightarrow> (nat \<Rightarrow> u64) \<Rightarrow> instant \<Rightarrow> bool \<Rightarrow> bytes \<Rightarrow> 'addr \<Rightarrow> 'addr listener \<Rightarrow>
    (nat option \<times> 'addr listener) option" where
  "on_datagram B rnd now sent data peer l =
     (case map_of (l_active_streams l) peer of
        Some chan \<Rightarrow> Some (Some chan, l)
      | None \<Rightarrow> map_option (Pair None)
          (handle_incoming_packet B rnd now sent (k_max_pending_connections (l_config l)) data peer l))"

definition on_receive_error :: "'addr listener \<Rightarrow> 'addr listener" where
  "on_receive_error l = l\<lparr>l_task := False\<rparr>"

text \<open>\<open>gone\<close> tells which input channels have lost their receiver.\<close>

definition cleanup_dead_streams :: "(nat \<Rightarrow> bool) \<Rightarrow> 'addr listener \<Rightarrow> 'addr listener" where
  "cleanup_dead_streams gone l =
     (let dead = {a. \<exists>chan. (a, chan) \<in> set (l_active_streams l) \<and> gone chan}
      in l\<lparr>l_state := (l_state l)\<lparr>n_active := n_active (l_state l) - dead\<rparr>,
           l_active_streams := filter (\<lambda>(a, chan). \<not> gone chan) (l_active_streams l)\<rparr>)"

definition cleanup_pending_connections :: "instant \<Rightarrow> duration \<Rightarrow> 'addr listener \<Rightarrow> 'addr listener" where
  "cleanup_pending_connections now timeout l =
     l\<lparr>l_state := (l_state l)\<lparr>n_pending :=
         filter (\<lambda>(_, conn). now - i_created_at conn < timeout) (n_pending (l_state l))\<rparr>\<rparr>"

definition on_cleanup_tick :: "(nat \<Rightarrow> bool) \<Rightarrow> instant \<Rightarrow> 'addr listener \<Rightarrow> 'addr listener" where
  "on_cleanup_tick gone now l =
     cleanup_pending_connections now (k_connect_timeout (l_config l)) (cleanup_dead_streams gone l)"

text \<open>
  One turn of the listening task: what \<open>select\<close> yields is a datagram, a failed receive or a tick of the
  cleanup timer. A failed receive ends the task.
\<close>

datatype 'addr listen_event = Received bytes 'addr | Receive_failed | Cleanup_tick

fun listen_turn :: "buf_api \<Rightarrow> (nat \<Rightarrow> u64) \<Rightarrow> instant \<Rightarrow> bool \<Rightarrow> (nat \<Rightarrow> bool) \<Rightarrow> 'addr listen_event \<Rightarrow>
    'addr listener \<Rightarrow> ('addr listener \<times> flow) option" where
  "listen_turn B rnd now sent gone (Received data peer) l =
     map_option (\<lambda>(_, l'). (l', Continue)) (on_datagram B rnd now sent data peer l)"
| "listen_turn B rnd now sent gone Receive_failed l = Some (on_receive_error l, Break)"
| "listen_turn B rnd now sent gone Cleanup_tick l = Some (on_cleanup_tick gone now l, Continue)"

section \<open>Accepting\<close>

text \<open>Take the next connection; one whose peer is active is dropped, any other is marked.\<close>

definition accept_begin :: "'addr listener \<Rightarrow> 'addr listener" where
  "accept_begin l =
     (case l_queue l of
        [] \<Rightarrow> l
      | incoming # queue \<Rightarrow>
          if i_peer_addr incoming \<in> n_active (l_state l) then l\<lparr>l_queue := queue\<rparr>
          else l\<lparr>l_queue := queue, l_current := Some incoming,
                 l_state := (l_state l)\<lparr>n_accepting := insert (i_peer_addr incoming) (n_accepting (l_state l))\<rparr>\<rparr>)"

text \<open>\<open>chan\<close> is the input channel of the new stream.\<close>

definition create_stream_for_connection :: "buf_api \<Rightarrow> (nat \<Rightarrow> usize) \<Rightarrow> (nat \<Rightarrow> clock) \<Rightarrow> nat \<Rightarrow> 'addr incoming \<Rightarrow>
    'addr listener \<Rightarrow> 'addr listener \<times> (KcpEngine \<times> actor_args \<times> stream) KcpResult" where
  "create_stream_for_connection B ring clk chan incoming l =
     (case new_server_stream B ring clk (i_client_conv incoming) (i_conv incoming) (l_config l)
             (i_handshake_data incoming) of
        Inl e \<Rightarrow> (l, Inl e)
      | Inr s \<Rightarrow>
          (let peer = i_peer_addr incoming; st = l_state l
           in (l\<lparr>l_state := st\<lparr>n_pending := AList.delete peer (n_pending st), n_active := insert peer (n_active st)\<rparr>,
                 l_active_streams := AList.update peer chan (l_active_streams l)\<rparr>, Inr s)))"

definition accept_finish :: "'addr incoming \<Rightarrow> 'addr listener \<Rightarrow> 'addr listener" where
  "accept_finish incoming l =
     l\<lparr>l_current := None,
       l_state := (l_state l)\<lparr>n_accepting := n_accepting (l_state l) - {i_peer_addr incoming}\<rparr>\<rparr>"

datatype 'addr accept_result = Accepted "KcpEngine \<times> actor_args \<times> stream" 'addr | Waiting

text \<open>
  The loop of \<open>accept\<close> when nothing else runs, over the connections that wait; attempt \<open>i\<close> has its own
  clocks and channel. With an empty queue it waits: \<open>recv\<close> yields \<open>None\<close> only when every sender is
  gone, and the listener itself holds one (\<open>connection_sender\<close>).
\<close>

fun accept_loop :: "buf_api \<Rightarrow> (nat \<Rightarrow> usize) \<Rightarrow> (nat \<Rightarrow> nat \<Rightarrow> clock) \<Rightarrow> (nat \<Rightarrow> nat) \<Rightarrow> nat \<Rightarrow> 'addr incoming list \<Rightarrow>
    'addr listener \<Rightarrow> 'addr listener \<times> 'addr accept_result" where
  "accept_loop B ring clk chan i [] l = (l, Waiting)"
| "accept_loop B ring clk chan i (incoming # queue) l =
     (let l1 = accept_begin l in
      if i_peer_addr incoming \<in> n_active (l_state l) then accept_loop B ring clk chan (Suc i) queue l1
      else
        (let (l2, r) = create_stream_for_connection B ring (clk i) (chan i) incoming l1;
             l3 = accept_finish incoming l2
         in case r of Inr s \<Rightarrow> (l3, Accepted s (i_peer_addr incoming))
            | Inl _ \<Rightarrow> accept_loop B ring clk chan (Suc i) queue l3))"

definition accept :: "buf_api \<Rightarrow> (nat \<Rightarrow> usize) \<Rightarrow> (nat \<Rightarrow> nat \<Rightarrow> clock) \<Rightarrow> (nat \<Rightarrow> nat) \<Rightarrow> 'addr listener \<Rightarrow>
    'addr listener \<times> 'addr accept_result" where
  "accept B ring clk chan l = accept_loop B ring clk chan 0 (l_queue l) l"

section \<open>What a datagram does\<close>

text \<open>A connection that waits: opened by a valid first datagram, with a usable conversation id.\<close>

definition entry_ok :: "buf_api \<Rightarrow> 'addr incoming \<Rightarrow> bool" where
  "entry_ok B i \<longleftrightarrow> i_conv i \<noteq> 0 \<and> (i_client_conv i \<noteq> 0 \<longrightarrow> i_conv i = i_client_conv i)
     \<and> (\<exists>h. opening_header B (i_handshake_data i) = Some h \<and> h_conv h = i_client_conv i)"

lemma opening_header_length: "opening_header B data = Some h \<Longrightarrow> 24 \<le> length data"
  by (auto simp: opening_header_def split: if_splits)

lemma server_conv_for_nonzero:
  "server_conv_for rnd c = Some conv \<Longrightarrow> conv \<noteq> 0 \<and> (c \<noteq> 0 \<longrightarrow> conv = c)"
  using random_conv_id_nonzero [of rnd 0] by (auto simp: server_conv_for_def split: if_splits)

text \<open>Only a failed receive ends the listening task.\<close>

lemma listen_turn_ends: "listen_turn B rnd now sent gone v l = Some (l', f) \<Longrightarrow> f = Break \<longleftrightarrow> v = Receive_failed"
  by (cases v) auto

text \<open>What a datagram does: it is forwarded, it is ignored, or it registers one connection.\<close>

lemma on_datagram_cases:
  assumes "on_datagram B rnd now sent data peer l = Some (forwarded, l')"
  obtains (forwarded) chan where "map_of (l_active_streams l) peer = Some chan" "forwarded = Some chan" "l' = l"
  | (ignored) "forwarded = None" "l' = l"
      "opening_header B data = None \<or> \<not> admissible peer (k_max_pending_connections (l_config l)) (l_state l)"
  | (registered) h conv where "forwarded = None" "map_of (l_active_streams l) peer = None"
      "opening_header B data = Some h" "admissible peer (k_max_pending_connections (l_config l)) (l_state l)"
      "server_conv_for rnd (h_conv h) = Some conv"
      "l' = register_connection sent \<lparr>i_peer_addr = peer, i_conv = conv, i_client_conv = h_conv h,
               i_handshake_data = data, i_created_at = now\<rparr> l"
  using assms
  by (auto simp: on_datagram_def handle_incoming_packet_def split: option.splits if_splits)

lemma delete_update_new: "map_of al k = None \<Longrightarrow> AList.delete k (AList.update k v al) = al"
  by (induction al) (auto simp: AList.delete_eq split: if_splits)

lemma update_new: "map_of al k = None \<Longrightarrow> AList.update k v al = al @ [(k, v)]"
  by (induction al) (auto split: if_splits)

section \<open>The pieces of the handlers\<close>

text \<open>
  What one handler does between two places where another may run: a piece under the lock, an operation of the
  concurrent map or of the queue. The piece of the checks is \<open>admissible\<close>, under the read lock.
\<close>

definition insert_pending :: "'addr incoming \<Rightarrow> 'addr listener \<Rightarrow> 'addr listener" where
  "insert_pending incoming l =
     l\<lparr>l_state := (l_state l)\<lparr>n_pending := AList.update (i_peer_addr incoming) incoming (n_pending (l_state l))\<rparr>\<rparr>"

definition queue_connection :: "'addr incoming \<Rightarrow> 'addr listener \<Rightarrow> 'addr listener" where
  "queue_connection incoming l = l\<lparr>l_queue := l_queue l @ [incoming]\<rparr>"

definition withdraw_pending :: "'addr \<Rightarrow> 'addr listener \<Rightarrow> 'addr listener" where
  "withdraw_pending peer l = l\<lparr>l_state := (l_state l)\<lparr>n_pending := AList.delete peer (n_pending (l_state l))\<rparr>\<rparr>"

definition forget_dead :: "'addr set \<Rightarrow> 'addr listener \<Rightarrow> 'addr listener" where
  "forget_dead dead l =
     l\<lparr>l_state := (l_state l)\<lparr>n_active := n_active (l_state l) - dead\<rparr>,
       l_active_streams := filter (\<lambda>(a, _). a \<notin> dead) (l_active_streams l)\<rparr>"

definition mark_accepting :: "'addr incoming \<Rightarrow> 'addr listener \<Rightarrow> 'addr listener" where
  "mark_accepting incoming l =
     l\<lparr>l_current := Some incoming,
       l_state := (l_state l)\<lparr>n_accepting := insert (i_peer_addr incoming) (n_accepting (l_state l))\<rparr>\<rparr>"

definition activate :: "'addr \<Rightarrow> 'addr listener \<Rightarrow> 'addr listener" where
  "activate peer l =
     l\<lparr>l_state := (l_state l)\<lparr>n_pending := AList.delete peer (n_pending (l_state l)),
                             n_active := insert peer (n_active (l_state l))\<rparr>\<rparr>"

definition route_stream :: "'addr \<Rightarrow> nat \<Rightarrow> 'addr listener \<Rightarrow> 'addr listener" where
  "route_stream peer chan l = l\<lparr>l_active_streams := AList.update peer chan (l_active_streams l)\<rparr>"

lemmas piece_defs = insert_pending_def queue_connection_def withdraw_pending_def forget_dead_def mark_accepting_def
  activate_def route_stream_def

text \<open>Run alone, the pieces make up the handlers.\<close>

lemma register_connection_pieces:
  "register_connection sent incoming l =
     (if sent then queue_connection incoming (insert_pending incoming l)
      else withdraw_pending (i_peer_addr incoming) (insert_pending incoming l))"
  by (simp add: register_connection_def piece_defs Let_def)

lemma accept_begin_pieces:
  "l_queue l = incoming # queue \<Longrightarrow> accept_begin l =
     (if i_peer_addr incoming \<in> n_active (l_state l) then l\<lparr>l_queue := queue\<rparr>
      else mark_accepting incoming (l\<lparr>l_queue := queue\<rparr>))"
  by (simp add: accept_begin_def mark_accepting_def)

lemma accept_begin_config [simp]: "l_config (accept_begin l) = l_config l"
  by (simp add: accept_begin_def split: list.split)

lemma create_stream_pieces:
  "create_stream_for_connection B ring clk chan incoming l =
     (case new_server_stream B ring clk (i_client_conv incoming) (i_conv incoming) (l_config l) (i_handshake_data incoming) of
        Inl e \<Rightarrow> (l, Inl e)
      | Inr s \<Rightarrow> (route_stream (i_peer_addr incoming) chan (activate (i_peer_addr incoming) l), Inr s))"
  by (simp add: create_stream_for_connection_def piece_defs Let_def split: sum.split)

lemma cleanup_dead_pieces:
  assumes "distinct (map fst (l_active_streams l))"
  shows "cleanup_dead_streams gone l = forget_dead {a. \<exists>chan. (a, chan) \<in> set (l_active_streams l) \<and> gone chan} l"
proof -
  let ?dead = "{a. \<exists>chan. (a, chan) \<in> set (l_active_streams l) \<and> gone chan}"
  have "(case x of (a, chan) \<Rightarrow> \<not> gone chan) = (case x of (a, _) \<Rightarrow> a \<notin> ?dead)" if x: "x \<in> set (l_active_streams l)" for x
  proof (cases x)
    case (Pair a chan)
    have "chan' = chan" if "(a, chan') \<in> set (l_active_streams l)" for chan'
      by (rule eq_key_imp_eq_value [OF assms that]) (use x Pair in simp)
    then have "(a \<notin> ?dead) = (\<not> gone chan)" using x Pair by blast
    then show ?thesis unfolding Pair prod.case by (rule sym)
  qed
  then have "filter (\<lambda>(a, chan). \<not> gone chan) (l_active_streams l) = filter (\<lambda>(a, _). a \<notin> ?dead) (l_active_streams l)"
    by (rule filter_cong [OF refl])
  then show ?thesis by (simp add: cleanup_dead_streams_def forget_dead_def Let_def)
qed

section \<open>The listening task and accept, interleaved\<close>

text \<open>
  Where the listening task is: in \<open>select\<close>; before the checks, with a datagram whose peer has no stream; after the
  checks, when the lock has been released; after its entry is in the table; after a refused \<open>try_send\<close>;
  collecting dead streams; before the cleanup of the table; at its end. Lookup and forwarding of a
  datagram are one step, as nothing happens between \<open>recv_from\<close> and the lookup.
\<close>

datatype 'addr task_point =
    Task_idle
  | Unrouted bytes 'addr
  | Checked "'addr incoming"
  | Inserted "'addr incoming"
  | Refused 'addr
  | Scanning "'addr set"
  | Expiring
  | Task_over

type_synonym new_stream = "KcpEngine \<times> actor_args \<times> stream"

text \<open>
  Where \<open>accept\<close> is: waiting in \<open>recv\<close> or not running; with a connection from the queue, before it is marked; after
  that, while the stream is created; with the stream and its input channel, before the peer becomes
  active; before its channel is entered into the map; before the mark is removed.
\<close>

datatype 'addr accept_point =
    Accept_idle
  | Taken "'addr incoming"
  | Marked "'addr incoming"
  | Created "'addr incoming" new_stream nat
  | Activated "'addr incoming" new_stream nat
  | Finishing "'addr incoming" "new_stream KcpResult"

type_synonym 'addr listen_state = "'addr listener \<times> 'addr task_point \<times> 'addr accept_point"

text \<open>Where an abort of the task, or dropping the future of \<open>accept\<close>, takes effect: at an \<open>await\<close>.\<close>

fun task_awaits :: "'addr task_point \<Rightarrow> bool" where
  "task_awaits (Inserted i) = False"
| "task_awaits Task_over = False"
| "task_awaits t = True"

fun accept_awaits :: "'addr accept_point \<Rightarrow> bool" where
  "accept_awaits (Marked i) = False"
| "accept_awaits (Activated i s chan) = False"
| "accept_awaits p = True"

text \<open>What a step does that others see: forward a datagram to a channel, make the channel of a new stream.\<close>

datatype 'addr listen_action = Silent | Forward nat bytes | Made nat 'addr

text \<open>
  The steps, when the datagrams that arrive from an address \<open>a\<close> are those with \<open>R a\<close>. \<open>remove_active_connection\<close> and
  \<open>close\<close> are allowed at any moment, which is more than the borrow of \<open>accept\<close> permits.
\<close>

inductive listener_step :: "buf_api \<Rightarrow> ('addr \<Rightarrow> bytes \<Rightarrow> bool) \<Rightarrow> 'addr listen_state \<Rightarrow> 'addr listen_action \<Rightarrow>
    'addr listen_state \<Rightarrow> bool" for B R where
  task_forward: "map_of (l_active_streams l) peer = Some chan \<Longrightarrow> R peer data \<Longrightarrow>
    listener_step B R (l, Task_idle, p) (Forward chan data) (l, Task_idle, p)"
| task_unrouted: "map_of (l_active_streams l) peer = None \<Longrightarrow> R peer data \<Longrightarrow>
    listener_step B R (l, Task_idle, p) Silent (l, Unrouted data peer, p)"
| task_ignore: "opening_header B data = None \<or> \<not> admissible peer (k_max_pending_connections (l_config l)) (l_state l) \<Longrightarrow>
    listener_step B R (l, Unrouted data peer, p) Silent (l, Task_idle, p)"
| task_check: "opening_header B data = Some header \<Longrightarrow>
    admissible peer (k_max_pending_connections (l_config l)) (l_state l) \<Longrightarrow>
    server_conv_for rnd (h_conv header) = Some server_conv \<Longrightarrow>
    listener_step B R (l, Unrouted data peer, p) Silent
      (l, Checked \<lparr>i_peer_addr = peer, i_conv = server_conv, i_client_conv = h_conv header,
                   i_handshake_data = data, i_created_at = now\<rparr>, p)"
| task_insert: "listener_step B R (l, Checked i, p) Silent (insert_pending i l, Inserted i, p)"
| task_send: "listener_step B R (l, Inserted i, p) Silent (queue_connection i l, Task_idle, p)"
| task_refused: "listener_step B R (l, Inserted i, p) Silent (l, Refused (i_peer_addr i), p)"
| task_withdraw: "listener_step B R (l, Refused peer, p) Silent (withdraw_pending peer l, Task_idle, p)"
| task_receive_error: "listener_step B R (l, Task_idle, p) Silent (on_receive_error l, Task_over, p)"
| task_scan: "listener_step B R (l, Task_idle, p) Silent (l, Scanning {}, p)"
| task_see_dead: "(a, chan) \<in> set (l_active_streams l) \<Longrightarrow>
    listener_step B R (l, Scanning dead, p) Silent (l, Scanning (insert a dead), p)"
| task_forget_dead: "listener_step B R (l, Scanning dead, p) Silent (forget_dead dead l, Expiring, p)"
| task_expire: "listener_step B R (l, Expiring, p) Silent
    (cleanup_pending_connections now (k_connect_timeout (l_config l)) l, Task_idle, p)"
| task_aborted: "\<not> l_task l \<Longrightarrow> task_awaits t \<Longrightarrow> listener_step B R (l, t, p) Silent (l, Task_over, p)"
| accept_take: "l_queue l = i # queue \<Longrightarrow> listener_step B R (l, t, Accept_idle) Silent (l\<lparr>l_queue := queue\<rparr>, t, Taken i)"
| accept_ignore: "i_peer_addr i \<in> n_active (l_state l) \<Longrightarrow> listener_step B R (l, t, Taken i) Silent (l, t, Accept_idle)"
| accept_mark: "i_peer_addr i \<notin> n_active (l_state l) \<Longrightarrow>
    listener_step B R (l, t, Taken i) Silent (mark_accepting i l, t, Marked i)"
| accept_create: "new_server_stream B ring clk (i_client_conv i) (i_conv i) (l_config l) (i_handshake_data i) = Ok s \<Longrightarrow>
    listener_step B R (l, t, Marked i) (Made chan (i_peer_addr i)) (l, t, Created i s chan)"
| accept_create_fails: "new_server_stream B ring clk (i_client_conv i) (i_conv i) (l_config l) (i_handshake_data i) = Err e \<Longrightarrow>
    listener_step B R (l, t, Marked i) Silent (l, t, Finishing i (Err e))"
| accept_activate: "listener_step B R (l, t, Created i s chan) Silent (activate (i_peer_addr i) l, t, Activated i s chan)"
| accept_route: "listener_step B R (l, t, Activated i s chan) Silent
    (route_stream (i_peer_addr i) chan l, t, Finishing i (Ok s))"
| accept_unmark: "listener_step B R (l, t, Finishing i r) Silent (accept_finish i l, t, Accept_idle)"
| accept_cancelled: "accept_awaits p \<Longrightarrow> listener_step B R (l, t, p) Silent (l\<lparr>l_current := None\<rparr>, t, Accept_idle)"
| step_remove_active: "listener_step B R (l, t, p) Silent (remove_active_connection peer l, t, p)"
| step_close: "listener_step B R (l, t, p) Silent (listener_close l, t, p)"

inductive_cases listener_stepE: "listener_step B R \<sigma> ev \<sigma>'"

definition listener_moves :: "buf_api \<Rightarrow> ('addr \<Rightarrow> bytes \<Rightarrow> bool) \<Rightarrow> 'addr listen_state \<Rightarrow> 'addr listen_state \<Rightarrow> bool" where
  "listener_moves B R \<sigma> \<sigma>' \<longleftrightarrow> (\<exists>ev. listener_step B R \<sigma> ev \<sigma>')"

text \<open>A listener that was just created; its task has already ended when the cleanup timer could not be made.\<close>

definition listen_start :: "'addr listener \<Rightarrow> 'addr listen_state" where
  "listen_start l = (l, if l_task l then Task_idle else Task_over, Accept_idle)"

text \<open>A handler that is not interrupted is a run of these steps.\<close>

abbreviation silent_run :: "buf_api \<Rightarrow> ('addr \<Rightarrow> bytes \<Rightarrow> bool) \<Rightarrow> 'addr listen_state \<Rightarrow> 'addr listen_state \<Rightarrow> bool" where
  "silent_run B R \<equiv> (\<lambda>\<sigma> \<sigma>'. listener_step B R \<sigma> Silent \<sigma>')\<^sup>*\<^sup>*"

lemma silent_step: "listener_step B R \<sigma> Silent \<sigma>' \<Longrightarrow> silent_run B R \<sigma>' \<sigma>'' \<Longrightarrow> silent_run B R \<sigma> \<sigma>''"
  by (rule converse_rtranclp_into_rtranclp)

lemma silent_last: "listener_step B R \<sigma> Silent \<sigma>' \<Longrightarrow> silent_run B R \<sigma> \<sigma>'"
  by (rule r_into_rtranclp)

lemma silent_moves: "silent_run B R \<sigma> \<sigma>' \<Longrightarrow> (listener_moves B R)\<^sup>*\<^sup>* \<sigma> \<sigma>'"
  by (rule mono_rtranclp [rule_format]) (auto simp: listener_moves_def)

lemma unrouted_datagram_run:
  assumes "on_datagram B rnd now sent data peer l = Some (None, l')" "R peer data"
  shows "silent_run B R (l, Task_idle, p) (l', Task_idle, p)"
proof -
  have none: "map_of (l_active_streams l) peer = None"
    using assms(1) by (auto simp: on_datagram_def split: option.splits)
  note first = task_unrouted [where B = B and R = R and p = p, OF none assms(2)]
  show ?thesis
    using assms(1)
  proof (cases rule: on_datagram_cases)
    case ignored
    then show ?thesis using silent_step [OF first] task_ignore by blast
  next
    case (registered h conv)
    let ?i = "\<lparr>i_peer_addr = peer, i_conv = conv, i_client_conv = h_conv h, i_handshake_data = data, i_created_at = now\<rparr>"
    have l': "l' = register_connection sent ?i l" by (rule registered(6))
    have "silent_run B R (insert_pending ?i l, Inserted ?i, p) (l', Task_idle, p)"
    proof (cases sent)
      case True
      then have "l' = queue_connection ?i (insert_pending ?i l)" by (simp add: l' register_connection_pieces)
      then show ?thesis by (auto intro: silent_last task_send)
    next
      case False
      then have "l' = withdraw_pending (i_peer_addr ?i) (insert_pending ?i l)" by (simp add: l' register_connection_pieces)
      then show ?thesis by (simp del: incoming.select_convs) (rule silent_step [OF task_refused silent_last [OF task_withdraw]])
    qed
    then show ?thesis
      using silent_step [OF first] silent_step [OF task_check [OF registered(3-5)]] silent_step [OF task_insert] by blast
  qed simp
qed

lemma cleanup_run:
  assumes "distinct (map fst (l_active_streams l))"
  shows "silent_run B R (l, Task_idle, p) (on_cleanup_tick gone now l, Task_idle, p)"
proof -
  have scan: "silent_run B R (l, Scanning dead, p) (l, Scanning (dead \<union> fst ` set seen), p)"
    if "set seen \<subseteq> set (l_active_streams l)" for dead seen
    using that
  proof (induction seen arbitrary: dead)
    case (Cons x seen)
    then have "listener_step B R (l, Scanning dead, p) Silent (l, Scanning (insert (fst x) dead), p)"
      by (intro task_see_dead [of _ "snd x"]) simp
    then show ?case using silent_step Cons by fastforce
  qed simp
  let ?seen = "filter (\<lambda>(a, chan). gone chan) (l_active_streams l)"
  have dead: "{a. \<exists>chan. (a, chan) \<in> set (l_active_streams l) \<and> gone chan} = {} \<union> fst ` set ?seen"
    by force
  have "silent_run B R (l, Scanning {}, p) (cleanup_dead_streams gone l, Expiring, p)"
    unfolding cleanup_dead_pieces [OF assms] dead
    by (rule rtranclp.rtrancl_into_rtrancl [OF scan task_forget_dead]) auto
  moreover have "listener_step B R (cleanup_dead_streams gone l, Expiring, p) Silent (on_cleanup_tick gone now l, Task_idle, p)"
    using task_expire [of B R "cleanup_dead_streams gone l" p now]
    by (simp add: on_cleanup_tick_def cleanup_dead_streams_def Let_def)
  ultimately have "silent_run B R (l, Scanning {}, p) (on_cleanup_tick gone now l, Task_idle, p)"
    by (rule rtranclp.rtrancl_into_rtrancl)
  then show ?thesis by (rule silent_step [OF task_scan])
qed

lemma accept_begin_run:
  assumes "l_queue l = i # queue" "i_peer_addr i \<notin> n_active (l_state l)"
  shows "silent_run B R (l, t, Accept_idle) (accept_begin l, t, Marked i)"
  using silent_step [OF accept_take [OF assms(1)]] accept_mark [of i "l\<lparr>l_queue := queue\<rparr>"] assms(2)
  by (simp add: accept_begin_pieces [OF assms(1)] silent_last)

lemma accept_create_run:
  assumes "new_server_stream B ring clk (i_client_conv i) (i_conv i) (l_config l) (i_handshake_data i) = Ok s"
  shows "listener_step B R (l, t, Marked i) (Made chan (i_peer_addr i)) (l, t, Created i s chan)"
    "silent_run B R (l, t, Created i s chan)
       (accept_finish i (fst (create_stream_for_connection B ring clk chan i l)), t, Accept_idle)"
  by (rule accept_create [OF assms])
    (auto simp: create_stream_pieces assms
      intro: silent_step [OF accept_activate] silent_step [OF accept_route] silent_last accept_unmark)

section \<open>The invariant\<close>

text \<open>The connection \<open>accept\<close> works on, the peers it has marked, and the one it still has to route.\<close>

fun working_on :: "'addr accept_point \<Rightarrow> 'addr incoming set" where
  "working_on Accept_idle = {}"
| "working_on (Taken i) = {i}"
| "working_on (Marked i) = {i}"
| "working_on (Created i s chan) = {i}"
| "working_on (Activated i s chan) = {i}"
| "working_on (Finishing i r) = {i}"

fun marked_peers :: "'addr accept_point \<Rightarrow> 'addr set" where
  "marked_peers Accept_idle = {}"
| "marked_peers (Taken i) = {}"
| "marked_peers (Marked i) = {i_peer_addr i}"
| "marked_peers (Created i s chan) = {i_peer_addr i}"
| "marked_peers (Activated i s chan) = {i_peer_addr i}"
| "marked_peers (Finishing i r) = {i_peer_addr i}"

fun unrouted_peers :: "'addr accept_point \<Rightarrow> 'addr set" where
  "unrouted_peers (Activated i s chan) = {i_peer_addr i}"
| "unrouted_peers p = {}"

fun fresh_peers :: "'addr accept_point \<Rightarrow> 'addr set" where
  "fresh_peers (Marked i) = {i_peer_addr i}"
| "fresh_peers (Created i s chan) = {i_peer_addr i}"
| "fresh_peers p = {}"

text \<open>
  The tables alone; what the listening task knows after its checks, which holds on because it is the only one that adds
  waiting connections; and what holds where \<open>accept\<close> is.
\<close>

definition tables_ok :: "buf_api \<Rightarrow> 'addr listener \<Rightarrow> bool" where
  "tables_ok B l \<longleftrightarrow>
     distinct (map fst (n_pending (l_state l))) \<and> distinct (map fst (l_active_streams l))
     \<and> length (n_pending (l_state l)) \<le> k_max_pending_connections (l_config l)
     \<and> (\<forall>(a, i) \<in> set (n_pending (l_state l)). i_peer_addr i = a \<and> entry_ok B i)
     \<and> (\<forall>i \<in> set (l_queue l). entry_ok B i)"

fun task_ok :: "buf_api \<Rightarrow> 'addr listener \<Rightarrow> 'addr task_point \<Rightarrow> bool" where
  "task_ok B l (Checked i) \<longleftrightarrow> entry_ok B i \<and> map_of (n_pending (l_state l)) (i_peer_addr i) = None
     \<and> length (n_pending (l_state l)) < k_max_pending_connections (l_config l)"
| "task_ok B l (Inserted i) \<longleftrightarrow> entry_ok B i"
| "task_ok B l t \<longleftrightarrow> True"

definition accept_ok :: "buf_api \<Rightarrow> 'addr listener \<Rightarrow> 'addr accept_point \<Rightarrow> bool" where
  "accept_ok B l p \<longleftrightarrow> (\<forall>i \<in> working_on p. entry_ok B i)
     \<and> marked_peers p \<subseteq> n_accepting (l_state l) \<and> fresh_peers p \<inter> n_active (l_state l) = {}
     \<and> n_active (l_state l) \<subseteq> fst ` set (l_active_streams l) \<union> unrouted_peers p"

definition listen_ok :: "buf_api \<Rightarrow> 'addr listen_state \<Rightarrow> bool" where
  "listen_ok B = (\<lambda>(l, t, p). tables_ok B l \<and> task_ok B l t \<and> accept_ok B l p)"

lemma delete_keys: "fst ` set (AList.delete k al) = fst ` set al - {k}"
  by (auto simp: AList.delete_eq image_iff)

lemma update_keys: "fst ` set (AList.update k v al) = insert k (fst ` set al)"
  using dom_map_of_conv_image_fst [of "AList.update k v al"] dom_map_of_conv_image_fst [of al] by (simp add: update_conv')

text \<open>Fewer waiting connections, and any table of active peers.\<close>

lemma tables_ok_fewer:
  assumes "tables_ok B l" "l_config l' = l_config l" "set (l_queue l') \<subseteq> set (l_queue l)"
    and "\<exists>P. n_pending (l_state l') = filter P (n_pending (l_state l))" "distinct (map fst (l_active_streams l'))"
  shows "tables_ok B l'"
proof -
  obtain P where P: "n_pending (l_state l') = filter P (n_pending (l_state l))" using assms(4) by blast
  show ?thesis
    using assms(1,2,3,5) unfolding tables_ok_def P
    by (auto intro: distinct_map_filter le_trans [OF length_filter_le])
qed

lemma task_ok_fewer:
  assumes "task_ok B l t" "l_config l' = l_config l" "\<exists>P. n_pending (l_state l') = filter P (n_pending (l_state l))"
  shows "task_ok B l' t"
proof -
  obtain P where P: "n_pending (l_state l') = filter P (n_pending (l_state l))" using assms(3) by blast
  have "map_of (filter P xs) k = None" if "map_of xs k = None" for xs k using that by (auto simp: map_of_eq_None_iff)
  then show ?thesis using assms(1,2) by (cases t) (auto intro: le_less_trans [OF length_filter_le] simp: P)
qed

lemma all_pending: "\<exists>P. xs = filter P xs"
  by (rule exI [of _ "\<lambda>_. True"]) simp

lemma delete_pending: "\<exists>P. AList.delete k xs = filter P xs"
  unfolding AList.delete_eq by blast

lemma filter_pending: "\<exists>Q. filter P xs = filter Q xs"
  by blast

lemmas fewer_pending = all_pending delete_pending filter_pending

lemma listener_step_tables:
  assumes "listener_step B R (l, t, p) ev (l', t', p')" "tables_ok B l" "task_ok B l t" "accept_ok B l p"
  shows "tables_ok B l'" "task_ok B l' t'"
proof -
  have routes: "distinct (map fst (l_active_streams l))" using assms(2) by (simp add: tables_ok_def)
  have "tables_ok B l' \<and> task_ok B l' t'"
    using assms(1)
  proof (cases rule: listener_step.cases)
    case (task_check data header peer rnd conv now)
    then show ?thesis using assms(2) by (auto simp: admissible_def entry_ok_def dest: server_conv_for_nonzero)
  next
    case (task_insert i)
    then show ?thesis
      using assms(2,3) map_of_eq_None_iff [of "n_pending (l_state l)" "i_peer_addr i"]
      by (auto simp: tables_ok_def insert_pending_def update_new)
  next
    case (task_send i)
    then show ?thesis using assms(2,3) by (auto simp: tables_ok_def queue_connection_def)
  qed (use assms(2,3) routes in \<open>auto intro!: fewer_pending tables_ok_fewer [OF assms(2)] task_ok_fewer [OF assms(3)]
        distinct_update distinct_map_filter simp: piece_defs accept_finish_def on_receive_error_def
        cleanup_pending_connections_def remove_active_connection_def listener_close_def split: prod.splits\<close>)
  then show "tables_ok B l'" "task_ok B l' t'" by simp_all
qed

lemma listener_step_accept:
  assumes "listener_step B R (l, t, p) ev (l', t', p')" "tables_ok B l" "task_ok B l t" "accept_ok B l p"
  shows "accept_ok B l' p'"
  using assms(1)
proof (cases rule: listener_step.cases)
  case (task_forget_dead dead)
  then show ?thesis using assms(4) by (fastforce simp: accept_ok_def forget_dead_def)
next
  case (accept_take i queue)
  then show ?thesis using assms(2,4) by (simp add: accept_ok_def tables_ok_def)
next
  case accept_cancelled
  then show ?thesis using assms(4) by (cases p) (auto simp: accept_ok_def)
qed (use assms(4) in \<open>auto simp: accept_ok_def piece_defs update_keys accept_finish_def on_receive_error_def
      cleanup_pending_connections_def remove_active_connection_def listener_close_def\<close>)

lemma listen_start_ok: "with_transport capacity_ok period_ok config addr = Some (Ok l) \<Longrightarrow> listen_ok B (listen_start l)"
  by (cases "validate config"; cases addr)
    (auto simp: with_transport_def listen_ok_def listen_start_def tables_ok_def accept_ok_def ConnectionState_new_def split: if_splits)

lemma listener_moves_ok: "listen_ok B \<sigma> \<Longrightarrow> listener_moves B R \<sigma> \<sigma>' \<Longrightarrow> listen_ok B \<sigma>'"
  by (cases \<sigma>; cases \<sigma>') (auto simp: listen_ok_def listener_moves_def dest: listener_step_tables listener_step_accept)

interpretation lst: safe_system
  "\<lambda>\<sigma>. \<exists>cap per config addr l. with_transport cap per config addr = Some (Ok l) \<and> \<sigma> = listen_start l"
  "listener_moves B R" "listen_ok B" for B R
  by unfold_locales (auto intro: listen_start_ok listener_moves_ok)

text \<open>A peer that has a stream is entered as waiting only by a registration whose checks came before.\<close>

definition waiting_and_active :: "'addr listener \<Rightarrow> 'addr set" where
  "waiting_and_active l = fst ` set (n_pending (l_state l)) \<inter> n_active (l_state l)"

lemma listener_step_overlap:
  assumes "listener_step B R (l, t, p) ev (l', t', p')"
  shows "waiting_and_active l' \<subseteq> waiting_and_active l \<union> {a. \<exists>i. t = Checked i \<and> i_peer_addr i = a \<and> a \<in> n_active (l_state l)}"
  using assms
  by (cases rule: listener_step.cases)
    (auto simp: waiting_and_active_def piece_defs delete_keys update_keys accept_finish_def on_receive_error_def
      cleanup_pending_connections_def remove_active_connection_def listener_close_def)

section \<open>Properties\<close>

text \<open>A listener, a client's first datagram (a push of 5 bytes), and the state after it.\<close>

definition some_listener :: "nat listener" where
  "some_listener = \<lparr>l_config = KcpConfig_default, l_state = ConnectionState_new, l_active_streams = [],
     l_queue = [], l_current = None, l_task = True\<rparr>"

definition first_datagram :: bytes where
  "first_datagram = KcpSegment_encode le_buf_api (KcpSegment_push 0 7 0 [1, 2, 3, 4, 5]) []"

definition first_connection :: "nat incoming" where
  "first_connection = \<lparr>i_peer_addr = 9, i_conv = 7, i_client_conv = 7, i_handshake_data = first_datagram,
     i_created_at = 0\<rparr>"

lemma first_datagram_opens: "\<exists>h. opening_header le_buf_api first_datagram = Some h \<and> h_conv h = 7"
proof -
  have len: "length first_datagram = 29"
    using le.segment_encode_length [of "KcpSegment_push 0 7 0 [1, 2, 3, 4, 5]" "[]"]
    by (simp add: first_datagram_def KcpSegment_size_def KcpSegment_push_def KcpSegment_new_def)
  have "KcpHeader_decode le_buf_api (KcpHeader_encode le_buf_api h [] @ data) = Some (h, data)" for h data
    using le.header_decode_encode [of h data] by simp
  then show ?thesis
    using len by (simp add: opening_header_def first_datagram_def KcpSegment_encode_def KcpSegment_push_def
        KcpSegment_new_def KcpHeader_new_def)
qed

lemma some_listener_new: "with_transport (\<lambda>n. 0 < n) (\<lambda>d. 0 < d) KcpConfig_default (Ok (0 :: nat) :: io_error_kind + nat) = Some (Ok some_listener)"
  by (simp add: with_transport_def default_validates some_listener_def)
    (simp add: KcpConfig_default_def from_secs_def)

lemma first_datagram_step:
  "on_datagram le_buf_api (\<lambda>_. 5) 0 True first_datagram 9 some_listener =
     Some (None, register_connection True first_connection some_listener)"
  using first_datagram_opens
  by (auto simp: on_datagram_def some_listener_def handle_incoming_packet_def admissible_def ConnectionState_new_def
      server_conv_for_def first_connection_def KcpConfig_default_def)



text \<open>
  The exception of C14 happens. A peer's connection waits until cleanup expires it; the peer sends again and passes the
  checks; before the listening task takes the write lock, \<open>accept\<close> serves the old entry of the queue. Then the peer
  has a stream and waits as well, and its second entry stays in the queue.
\<close>

theorem late_registration:
  "\<exists>l i. (listener_moves le_buf_api (\<lambda>a d. a = 9 \<and> d = first_datagram))\<^sup>*\<^sup>*
       (listen_start some_listener) (l, Task_idle, Accept_idle)
     \<and> 9 \<in> waiting_and_active l \<and> l_queue l = [i] \<and> i_peer_addr i = 9"
proof -
  let ?R = "\<lambda>a d. a = (9 :: nat) \<and> d = first_datagram" and ?i = first_connection and ?now = "10000000000 :: nat"
  let ?l1 = "register_connection True ?i some_listener"
  let ?l2 = "on_cleanup_tick (\<lambda>_. False) ?now ?l1"
  let ?j = "?i\<lparr>i_created_at := ?now\<rparr>"
  let ?c = "create_stream_for_connection le_buf_api (\<lambda>_. 0) (\<lambda>_ _. 0) 5 ?i (accept_begin ?l2)"
  let ?l3 = "accept_finish ?i (fst ?c)"
  let ?l4 = "queue_connection ?j (insert_pending ?j ?l3)"
  have i: "i_peer_addr ?i = 9" "24 \<le> length (i_handshake_data ?i)" "i_handshake_data ?i = first_datagram"
    using opening_header_length first_datagram_opens by (auto simp: first_connection_def)
  have l1: "l_active_streams ?l1 = []" by (simp add: register_connection_def some_listener_def Let_def)
  have l2: "l_queue ?l2 = [?i]" "l_config ?l2 = KcpConfig_default" "l_state ?l2 = ConnectionState_new" "l_active_streams ?l2 = []"
    by (simp_all add: on_cleanup_tick_def cleanup_dead_streams_def cleanup_pending_connections_def register_connection_def
        some_listener_def ConnectionState_new_def first_connection_def KcpConfig_default_def from_secs_def Let_def)
  have start: "accept_begin ?l2 = mark_accepting ?i (?l2\<lparr>l_queue := []\<rparr>)"
    using accept_begin_pieces [OF l2(1)] l2(3) by (simp add: ConnectionState_new_def)
  obtain s where s: "new_server_stream le_buf_api (\<lambda>_. 0) (\<lambda>_ _. 0) (i_client_conv ?i) (i_conv ?i)
      (l_config (accept_begin ?l2)) (i_handshake_data ?i) = Ok s"
    using le.server_engine_quiet(1) [OF default_validates i(2)] default_validates l2(2)
    by (auto simp: new_server_stream_def split_def accept_begin_config)
  obtain h where h: "opening_header le_buf_api first_datagram = Some h" "h_conv h = 7" using first_datagram_opens by blast
  have checked: "silent_run le_buf_api ?R (?l2, Task_idle, Accept_idle) (?l2, Checked ?j, Accept_idle)"
  proof -
    have "admissible 9 (k_max_pending_connections (l_config ?l2)) (l_state ?l2)" "map_of (l_active_streams ?l2) 9 = None"
      "server_conv_for (\<lambda>_. 0) (h_conv h) = Some 7"
      using l2 h(2) by (simp_all add: admissible_def ConnectionState_new_def KcpConfig_default_def server_conv_for_def)
    note task_check [OF h(1) this(1,3), of ?R Accept_idle ?now] task_unrouted [OF this(2), of ?R first_datagram le_buf_api Accept_idle]
    then show ?thesis using h(2) by (auto simp: first_connection_def intro: silent_step silent_last)
  qed
  have opened: "silent_run le_buf_api ?R (listen_start some_listener) (?l1, Task_idle, Accept_idle)"
    using unrouted_datagram_run [OF first_datagram_step, of ?R Accept_idle] by (simp add: listen_start_def some_listener_def)
  have expired: "silent_run le_buf_api ?R (?l1, Task_idle, Accept_idle) (?l2, Task_idle, Accept_idle)"
    by (rule cleanup_run) (simp add: l1)
  have marked: "silent_run le_buf_api ?R (?l2, Checked ?j, Accept_idle) (accept_begin ?l2, Checked ?j, Marked ?i)"
    by (rule accept_begin_run [OF l2(1)]) (simp add: l2(3) ConnectionState_new_def)
  note made = accept_create_run [OF s, of ?R "Checked ?j" 5]
  have late: "silent_run le_buf_api ?R (?l3, Checked ?j, Accept_idle) (?l4, Task_idle, Accept_idle)"
    by (rule silent_step [OF task_insert silent_last [OF task_send]])
  have before: "(listener_moves le_buf_api ?R)\<^sup>*\<^sup>* (listen_start some_listener) (accept_begin ?l2, Checked ?j, Marked ?i)"
    by (rule silent_moves [OF rtranclp_trans [OF opened rtranclp_trans [OF expired rtranclp_trans [OF checked marked]]]])
  have create: "listener_moves le_buf_api ?R (accept_begin ?l2, Checked ?j, Marked ?i) (accept_begin ?l2, Checked ?j, Created ?i s 5)"
    using made(1) unfolding listener_moves_def by blast
  have after: "(listener_moves le_buf_api ?R)\<^sup>*\<^sup>* (accept_begin ?l2, Checked ?j, Created ?i s 5) (?l4, Task_idle, Accept_idle)"
    by (rule silent_moves [OF rtranclp_trans [OF made(2) late]])
  have run: "(listener_moves le_buf_api ?R)\<^sup>*\<^sup>* (listen_start some_listener) (?l4, Task_idle, Accept_idle)"
    by (rule rtranclp_trans, rule rtranclp.rtrancl_into_rtrancl, rule before, rule create, rule after)
  have c: "?c = (route_stream 9 5 (activate 9 (accept_begin ?l2)), Ok s)"
    by (simp only: create_stream_pieces s sum.case i(1))
  have tables: "9 \<in> waiting_and_active ?l4" "l_queue ?l4 = [?j]" "i_peer_addr ?j = 9"
    unfolding c using i(1) l2 by (simp_all add: waiting_and_active_def start piece_defs accept_finish_def update_keys)
  show ?thesis by (intro exI [of _ ?l4] exI [of _ ?j] conjI run tables)
qed

text \<open>
  C25. Who may open a connection. A datagram of a routed peer only goes to its stream. Any other datagram
  changes the listener exactly when it has a full header with one of the four KCP commands, its
  address is neither active, being accepted nor waiting, and fewer than the maximum wait; with room in
  the connection queue it then adds one waiting connection with the datagram, under the client's id
  or a fresh non-zero one, and without room it changes nothing.
\<close>

theorem datagrams_open_connections_exactly:
  assumes "on_datagram B rnd now sent data peer l = Some (forwarded, l')"
  shows "if map_of (l_active_streams l) peer \<noteq> None
      then forwarded = map_of (l_active_streams l) peer \<and> l' = l
    else forwarded = None
      \<and> (if opening_header B data \<noteq> None
            \<and> admissible peer (k_max_pending_connections (l_config l)) (l_state l) \<and> sent
         then \<exists>i. i_peer_addr i = peer \<and> i_handshake_data i = data \<and> entry_ok B i
            \<and> l_queue l' = l_queue l @ [i]
            \<and> n_pending (l_state l') = n_pending (l_state l) @ [(peer, i)]
            \<and> n_active (l_state l') = n_active (l_state l)
         else l' = l)"
  using assms
proof (cases rule: on_datagram_cases)
  case (registered h conv)
  let ?i = "\<lparr>i_peer_addr = peer, i_conv = conv, i_client_conv = h_conv h, i_handshake_data = data, i_created_at = now\<rparr>"
  have entry: "entry_ok B ?i" using registered(3) server_conv_for_nonzero [OF registered(5)] by (auto simp: entry_ok_def)
  have new: "map_of (n_pending (l_state l)) peer = None" using registered(4) by (simp add: admissible_def)
  show ?thesis
  proof (cases sent)
    case True
    have "l_queue l' = l_queue l @ [?i]" "n_pending (l_state l') = n_pending (l_state l) @ [(peer, ?i)]"
      "n_active (l_state l') = n_active (l_state l)"
      unfolding registered(6) using True by (simp_all add: register_connection_def Let_def update_new [OF new])
    then have "\<exists>i. i_peer_addr i = peer \<and> i_handshake_data i = data \<and> entry_ok B i
            \<and> l_queue l' = l_queue l @ [i] \<and> n_pending (l_state l') = n_pending (l_state l) @ [(peer, i)]
            \<and> n_active (l_state l') = n_active (l_state l)"
      using entry by (intro exI [of _ ?i]) simp
    then show ?thesis using registered(1-4) True by simp
  next
    case False
    then have "l' = l" unfolding registered(6) by (simp add: register_connection_def Let_def delete_update_new [OF new])
    then show ?thesis using registered(1,2) False by simp
  qed
next
  case ignored
  then have "map_of (l_active_streams l) peer = None" using assms by (auto simp: on_datagram_def split: option.splits)
  then show ?thesis using ignored by auto
qed simp

theorem datagrams_open_connections_exactly_witness:
  "\<exists>i. l_queue (register_connection True first_connection some_listener) = l_queue some_listener @ [i] \<and> entry_ok le_buf_api i"
proof -
  have "map_of (l_active_streams some_listener) 9 = None"
    "admissible 9 (k_max_pending_connections (l_config some_listener)) (l_state some_listener)"
    by (simp_all add: some_listener_def admissible_def ConnectionState_new_def KcpConfig_default_def)
  then show ?thesis
    using datagrams_open_connections_exactly [OF first_datagram_step] first_datagram_opens by auto
qed

lemma accept_head:
  assumes "validate (l_config l) = Ok ()" "entry_ok le_buf_api i" "l_queue l = i # queue"
    and "i_peer_addr i \<notin> n_active (l_state l)"
  obtains e where "accept le_buf_api ring clk chan l =
      (accept_finish i (fst (create_stream_for_connection le_buf_api ring (clk 0) (chan 0) i (accept_begin l))),
       Accepted (e, stream_args (l_config l), stream_value False (l_config l)) (i_peer_addr i))"
    "new_server_stream le_buf_api ring (clk 0) (i_client_conv i) (i_conv i) (l_config l) (i_handshake_data i) =
       Ok (e, stream_args (l_config l), stream_value False (l_config l))"
    "quiet_engine le_buf_api (KcpCoreConfig_from (l_config l)) (i_conv i) e"
proof -
  let ?r = "server_engine le_buf_api ring (clk 0) (i_client_conv i) (i_conv i) (l_config l) (i_handshake_data i)"
  have "24 \<le> length (i_handshake_data i)" using assms(2) opening_header_length by (auto simp: entry_ok_def)
  note q = le.server_engine_quiet [OF assms(1) this]
  have s: "new_server_stream le_buf_api ring (clk 0) (i_client_conv i) (i_conv i) (l_config l) (i_handshake_data i) =
      Ok (fst ?r, stream_args (l_config l), stream_value False (l_config l))"
    using assms(1) q(1) by (simp add: new_server_stream_def split_def)
  have cfg: "l_config (accept_begin l) = l_config l" by (simp add: accept_begin_def split: list.split)
  have "accept le_buf_api ring clk chan l =
      (accept_finish i (fst (create_stream_for_connection le_buf_api ring (clk 0) (chan 0) i (accept_begin l))),
       Accepted (fst ?r, stream_args (l_config l), stream_value False (l_config l)) (i_peer_addr i))"
    using assms(3,4) s cfg by (simp add: accept_def create_stream_for_connection_def Let_def)
  then show thesis using that s q(2) by blast
qed

text \<open>
  C26. \<open>accept\<close> serves the connection at the head of the queue when its peer has no stream: it always
  succeeds, with an engine in order that uses the connection's id; the peer is then active and routed to
  the new stream, no longer waiting and no longer marked as being accepted, the rest of the
  queue is kept, and the peers' other entries are as before.
\<close>

theorem accept_serves_waiting_connection:
  assumes "validate (l_config l) = Ok ()" "entry_ok le_buf_api i" "l_queue l = i # queue"
    and "i_peer_addr i \<notin> n_active (l_state l)"
  shows "\<exists>e l'. accept le_buf_api ring clk chan l =
        (l', Accepted (e, stream_args (l_config l), stream_value False (l_config l)) (i_peer_addr i))
    \<and> engine_ok le_buf_api (KcpCoreConfig_from (l_config l)) e \<and> e_conv e = i_conv i
    \<and> n_active (l_state l') = insert (i_peer_addr i) (n_active (l_state l))
    \<and> map_of (l_active_streams l') = (map_of (l_active_streams l))(i_peer_addr i \<mapsto> chan 0)
    \<and> n_pending (l_state l') = AList.delete (i_peer_addr i) (n_pending (l_state l))
    \<and> i_peer_addr i \<notin> n_accepting (l_state l') \<and> l_queue l' = queue \<and> l_current l' = None"
proof -
  obtain e where e: "accept le_buf_api ring clk chan l =
      (accept_finish i (fst (create_stream_for_connection le_buf_api ring (clk 0) (chan 0) i (accept_begin l))),
       Accepted (e, stream_args (l_config l), stream_value False (l_config l)) (i_peer_addr i))"
    "new_server_stream le_buf_api ring (clk 0) (i_client_conv i) (i_conv i) (l_config l) (i_handshake_data i) =
       Ok (e, stream_args (l_config l), stream_value False (l_config l))"
    "quiet_engine le_buf_api (KcpCoreConfig_from (l_config l)) (i_conv i) e"
    by (rule accept_head [OF assms])
  let ?l' = "accept_finish i (fst (create_stream_for_connection le_buf_api ring (clk 0) (chan 0) i (accept_begin l)))"
  have marked: "accept_begin l = l\<lparr>l_queue := queue, l_current := Some i,
      l_state := (l_state l)\<lparr>n_accepting := insert (i_peer_addr i) (n_accepting (l_state l))\<rparr>\<rparr>"
    using assms(3,4) by (simp add: accept_begin_def)
  show ?thesis
  proof (intro exI [of _ e] exI [of _ ?l'] conjI)
    show "engine_ok le_buf_api (KcpCoreConfig_from (l_config l)) e" "e_conv e = i_conv i"
      using e(3) by (simp_all add: quiet_engine_def)
  qed (simp_all add: e(1) marked create_stream_for_connection_def e(2) accept_finish_def Let_def update_conv')
qed

lemma first_connection_entry: "entry_ok le_buf_api first_connection"
  using first_datagram_opens by (simp add: entry_ok_def first_connection_def)

theorem accept_serves_waiting_connection_witness:
  "\<exists>s. snd (accept le_buf_api (\<lambda>_. 0) (\<lambda>_ _ _. 0) (\<lambda>i. i) (some_listener\<lparr>l_queue := [first_connection]\<rparr>)) = Accepted s 9"
proof -
  let ?l = "some_listener\<lparr>l_queue := [first_connection]\<rparr>"
  have "validate (l_config ?l) = Ok ()" "l_queue ?l = first_connection # []" "i_peer_addr first_connection \<notin> n_active (l_state ?l)"
    "i_peer_addr first_connection = 9"
    by (simp_all add: some_listener_def default_validates ConnectionState_new_def first_connection_def)
  then show ?thesis
    using accept_serves_waiting_connection [OF _ first_connection_entry, of ?l "[]" "\<lambda>_. 0" "\<lambda>_ _ _. 0" "\<lambda>i. i"] by force
qed

text \<open>
  C39. An expired connection is still accepted. The cleanup takes a connection that has waited for the
  connect timeout or longer out of the table of waiting peers but leaves it in the connection queue, so
  \<open>accept\<close> later creates a stream for it from its old first datagram.
\<close>

theorem expired_connection_still_accepted:
  assumes "validate (l_config l) = Ok ()" "entry_ok le_buf_api i" "l_queue l = i # queue"
    and "i_peer_addr i \<notin> n_active (l_state l)" "n_pending (l_state l) = [(i_peer_addr i, i)]"
    and "k_connect_timeout (l_config l) \<le> now - i_created_at i"
  shows "let l1 = on_cleanup_tick gone now l in pending_count l1 = 0
    \<and> (\<exists>s. snd (accept le_buf_api ring clk chan l1) = Accepted s (i_peer_addr i))"
proof -
  let ?l1 = "on_cleanup_tick gone now l"
  have l1: "l_config ?l1 = l_config l" "l_queue ?l1 = i # queue" "i_peer_addr i \<notin> n_active (l_state ?l1)"
    "pending_count ?l1 = 0"
    using assms(3-6) by (simp_all add: on_cleanup_tick_def cleanup_pending_connections_def cleanup_dead_streams_def
        pending_count_def Let_def)
  then have "validate (l_config ?l1) = Ok ()" using assms(1) by simp
  then obtain e where "accept le_buf_api ring clk chan ?l1 =
      (accept_finish i (fst (create_stream_for_connection le_buf_api ring (clk 0) (chan 0) i (accept_begin ?l1))),
       Accepted (e, stream_args (l_config ?l1), stream_value False (l_config ?l1)) (i_peer_addr i))"
    using accept_head [OF _ assms(2) l1(2,3), of ring clk chan] by blast
  then show ?thesis using l1(4) by (simp add: Let_def)
qed

theorem expired_connection_still_accepted_witness:
  "let l1 = on_cleanup_tick (\<lambda>_. False) 10000000000 (register_connection True first_connection some_listener)
   in pending_count l1 = 0 \<and> (\<exists>s. snd (accept le_buf_api (\<lambda>_. 0) (\<lambda>_ _ _. 0) (\<lambda>i. i) l1) = Accepted s 9)"
proof -
  let ?l = "register_connection True first_connection some_listener"
  have "validate (l_config ?l) = Ok ()"
    by (simp add: register_connection_def some_listener_def default_validates Let_def)
  moreover have "l_queue ?l = first_connection # []" "i_peer_addr first_connection = 9"
    "i_peer_addr first_connection \<notin> n_active (l_state ?l)"
    "n_pending (l_state ?l) = [(i_peer_addr first_connection, first_connection)]"
    "k_connect_timeout (l_config ?l) \<le> 10000000000 - i_created_at first_connection"
    by (simp_all add: register_connection_def some_listener_def ConnectionState_new_def
        first_connection_def KcpConfig_default_def from_secs_def)
  ultimately show ?thesis
    using expired_connection_still_accepted [OF _ first_connection_entry, of ?l "[]" 10000000000 "\<lambda>_. False" "\<lambda>_. 0" "\<lambda>_ _ _. 0" "\<lambda>i. i"]
    by simp
qed

text \<open>
  C40. Settings that \<open>validate\<close> accepts and that cannot work. With no room for pending connections the
  creation of a listener panics; with a cleanup interval the timer does not accept the listener is returned
  but its listening task has ended; with a keep-alive time below one millisecond the first timer tick takes
  the peer for dead and stops the event loop, whatever the engine received.
\<close>

theorem validate_accepts_unusable_settings:
  assumes "validate config = Ok ()"
  shows "(\<not> capacity_ok 0 \<longrightarrow>
        (let c = config\<lparr>k_max_pending_connections := 0\<rparr>
         in validate c = Ok () \<and> with_transport capacity_ok period_ok c (Ok addr) = None))
    \<and> (capacity_ok (k_max_pending_connections config) \<and> \<not> period_ok 0 \<longrightarrow>
        (let c = config\<lparr>k_cleanup_interval := 0\<rparr>
         in validate c = Ok ()
           \<and> (\<exists>l. with_transport capacity_ok period_ok c (Ok addr) = Some (Ok l) \<and> \<not> l_task l)))
    \<and> (d < 1000000 \<longrightarrow>
        (let c = config\<lparr>k_keep_alive := Some d\<rparr>
         in validate c = Ok () \<and> snd (on_timer B (stream_args c) v a) = Break))"
proof -
  have "validate (config\<lparr>k_max_pending_connections := 0\<rparr>) = validate config"
    "validate (config\<lparr>k_cleanup_interval := 0\<rparr>) = validate config"
    "validate (config\<lparr>k_keep_alive := Some d\<rparr>) = validate config"
    by (simp_all add: validate_def)
  note v = this [unfolded assms]
  have "saturating_mul 0 3 = 0" by (simp add: saturating_mul_def)
  then have "snd (keep_alive_step B 0 v a1) = Break" for a1 by (simp add: keep_alive_step_def)
  moreover have "g_keep_alive_ms (stream_args (config\<lparr>k_keep_alive := Some d\<rparr>)) = Some 0" if "d < 1000000"
    using that by (simp add: stream_args_def as_millis_def)
  ultimately show ?thesis
    using v by (auto simp: with_transport_def on_timer_def Let_def split_def)
qed

theorem validate_accepts_unusable_settings_witness:
  "validate (KcpConfig_default\<lparr>k_max_pending_connections := 0\<rparr>) = Ok ()
   \<and> with_transport (\<lambda>n. 0 < n) (\<lambda>d. 0 < d) (KcpConfig_default\<lparr>k_max_pending_connections := 0\<rparr>) (Ok (3 :: nat)) = None"
  using validate_accepts_unusable_settings [OF default_validates, of "\<lambda>n. 0 < n" "\<lambda>d. 0 < d" "3 :: nat"]
  by (simp add: Let_def)

end
