(* ===== verification/Kcp_Connection.thy ===== *)
theory Kcp_Connection
  imports Kcp_Listener
begin

text \<open>
  Two connected event loops. The history of a sender is the list of the contents of all segments it has
  numbered; every data segment on the wire is one of the history under its own number. Together with the
  receiver's refinement of a FIFO this gives the promise of the protocol: over a network that
  loses, repeats and reorders datagrams, what one side delivers is a prefix of what the other
  side was given to send.
\<close>

section \<open>Datagrams of a history\<close>

definition in_history :: "(u8 \<times> bytes) list \<Rightarrow> KcpSegment \<Rightarrow> bool" where
  "in_history H seg \<longleftrightarrow> (\<exists>i<length H. s_sn seg = word_of_nat i \<and> content seg = H ! i)"

text \<open>What the wire carries of a history: data segments are in it, control segments are free.\<close>

definition in_wire :: "(u8 \<times> bytes) list \<Rightarrow> KcpSegment \<Rightarrow> bool" where
  "in_wire H seg \<longleftrightarrow> (h_cmd (s_header seg) = IKCP_CMD_PUSH \<longrightarrow> in_history H seg)"

text \<open>A datagram that consists of encoded segments with the property \<open>Q\<close>, and an engine whose output does.\<close>

definition made_of :: "buf_api \<Rightarrow> (KcpSegment \<Rightarrow> bool) \<Rightarrow> bytes \<Rightarrow> bool" where
  "made_of B Q d \<longleftrightarrow>
     (\<exists>segs. d = concat (map (\<lambda>s. KcpSegment_encode B s []) segs)
        \<and> (\<forall>s\<in>set segs. unat (h_len (s_header s)) = length (s_data s) \<and> Q s))"

definition output_made_of :: "buf_api \<Rightarrow> (KcpSegment \<Rightarrow> bool) \<Rightarrow> KcpEngine \<Rightarrow> bool" where
  "output_made_of B Q e \<longleftrightarrow> (\<forall>d \<in> insert (e_out_buf e) (set (e_output_queue e)). made_of B Q d)"

abbreviation datagram_of :: "buf_api \<Rightarrow> (u8 \<times> bytes) list \<Rightarrow> bytes \<Rightarrow> bool" where
  "datagram_of B H \<equiv> made_of B (in_wire H)"

abbreviation pending_of :: "buf_api \<Rightarrow> (u8 \<times> bytes) list \<Rightarrow> KcpEngine \<Rightarrow> bool" where
  "pending_of B H \<equiv> output_made_of B (in_wire H)"

lemma in_history_append: "in_history H seg \<Longrightarrow> in_history (H @ H') seg"
  by (force simp: in_history_def nth_append)

lemma in_wire_append: "in_wire H seg \<Longrightarrow> in_wire (H @ H') seg"
  by (auto simp: in_wire_def in_history_append)

lemma made_of_mono: "made_of B Q d \<Longrightarrow> (\<And>s. Q s \<Longrightarrow> Q' s) \<Longrightarrow> made_of B Q' d"
  unfolding made_of_def by blast

lemma output_made_of_mono: "output_made_of B Q e \<Longrightarrow> (\<And>s. Q s \<Longrightarrow> Q' s) \<Longrightarrow> output_made_of B Q' e"
  unfolding output_made_of_def using made_of_mono by blast

lemma made_of_Nil [simp]: "made_of B Q []"
  unfolding made_of_def by (intro exI [of _ "[]"]) simp

lemma output_made_of_cong:
  "e_output_queue e' = e_output_queue e \<Longrightarrow> e_out_buf e' = e_out_buf e \<Longrightarrow> output_made_of B Q e' = output_made_of B Q e"
  by (simp add: output_made_of_def)

lemma output_made_of_flush_out_buf: "output_made_of B Q e \<Longrightarrow> output_made_of B Q (flush_out_buf e)"
  by (auto simp: output_made_of_def flush_out_buf_def)

context buf_codec
begin

lemma made_of_encode:
  assumes "made_of B Q d" "unat (h_len (s_header seg)) = length (s_data seg)" "Q seg"
  shows "made_of B Q (KcpSegment_encode B seg d)"
proof -
  from assms(1) obtain segs where "d = concat (map (\<lambda>s. KcpSegment_encode B s []) segs)"
    "\<forall>s\<in>set segs. unat (h_len (s_header s)) = length (s_data s) \<and> Q s"
    by (auto simp: made_of_def)
  then show ?thesis
    using assms(2,3) segment_encode_append [of seg d] unfolding made_of_def
    by (intro exI [of _ "segs @ [seg]"]) auto
qed

lemma output_segments_made_of:
  "output_made_of B Q e \<Longrightarrow> \<forall>s\<in>set segs. unat (h_len (s_header s)) = length (s_data s) \<and> Q s \<Longrightarrow>
   output_made_of B Q (output_segments B segs e)"
proof (induction segs arbitrary: e)
  case (Cons seg segs)
  have "output_made_of B Q (fst (output_segment B seg e))"
    using Cons.prems by (auto simp: output_made_of_def output_segment_def Let_def intro: made_of_encode)
  then show ?case using Cons.IH Cons.prems(2) by simp
qed simp

text \<open>The segments the receiver cuts out of such a datagram.\<close>

lemma made_of_segments:
  assumes "made_of B Q d" "seg \<in> set (packet_segments B d)"
  obtains s where "Q s" "seg = received s"
proof -
  from assms(1) obtain segs where segs: "d = concat (map (\<lambda>s. KcpSegment_encode B s []) segs)"
    "\<forall>s\<in>set segs. unat (h_len (s_header s)) = length (s_data s) \<and> Q s"
    by (auto simp: made_of_def)
  then have "packet_segments B d = map received segs"
    unfolding segs(1) by (intro packet_segments_concat) auto
  then show thesis using segs(2) assms(2) that by auto
qed

lemma datagram_segments:
  assumes "datagram_of B H d" "seg \<in> set (packet_segments B d)" "h_cmd (s_header seg) = IKCP_CMD_PUSH"
  shows "in_history H seg"
proof (rule made_of_segments [OF assms(1,2)])
  fix s assume "in_wire H s" "seg = received s"
  then show ?thesis using assms(3) by (auto simp: in_wire_def in_history_def received_def content_def)
qed

lemma flush_made_of:
  assumes ok: "engine_ok B c e" and pend: "output_made_of B Q e" and good: "\<forall>s\<in>set (pass_segments clk e). Q s"
  shows "output_made_of B Q (fst (flush B clk e))"
proof (rule flush_keeps_output [OF engine_okD(6) [OF ok]])
  show "output_made_of B Q (output_segments B (pass_segments clk e) e)"
    using good pass_segments_fits [OF engine_okD(6,8) [OF ok] proto_invD(8,9) [OF engine_okD(3) [OF ok]], of clk]
    by (intro output_segments_made_of [OF pend]) (simp add: seg_fits_def)
qed (rule output_made_of_flush_out_buf, assumption, simp add: output_made_of_def)

end

section \<open>The engine as a sender\<close>

definition sending :: "buf_api \<Rightarrow> (u8 \<times> bytes) list \<Rightarrow> KcpEngine \<Rightarrow> bool" where
  "sending B H e \<longleftrightarrow> e_snd_nxt e = word_of_nat (length H) \<and> (\<forall>s\<in>set (e_snd_buf e). in_history H s)
     \<and> pending_of B H e \<and> (\<forall>x\<in>set H. snd x \<noteq> [])"

text \<open>
  With the datagrams \<open>X\<close> already handed to the network: the history and the contents of the segments that
  still wait for a number are together \<open>T\<close>.
\<close>

definition sender :: "buf_api \<Rightarrow> bytes set \<Rightarrow> (u8 \<times> bytes) list \<Rightarrow> KcpEngine \<Rightarrow> bool" where
  "sender B X T e \<longleftrightarrow>
     (\<exists>H. sending B H e \<and> (\<forall>d\<in>X. datagram_of B H d) \<and> H @ map content (e_snd_queue e) = T)"

lemma senderE:
  assumes "sender B X T e"
  obtains H where "sending B H e" "\<forall>d\<in>X. datagram_of B H d" "H @ map content (e_snd_queue e) = T"
  using assms by (auto simp: sender_def)

text \<open>The fields the sender relation rests on.\<close>

lemma sender_cong:
  assumes "e_snd_nxt e' = e_snd_nxt e" "e_snd_queue e' = e_snd_queue e" "e_output_queue e' = e_output_queue e"
    "e_out_buf e' = e_out_buf e" and buf: "\<forall>s'\<in>set (e_snd_buf e'). \<exists>s\<in>set (e_snd_buf e). s_sn s' = s_sn s \<and> content s' = content s"
    and "sender B X T e"
  shows "sender B X T e'"
proof (rule senderE [OF assms(6)])
  fix H assume H: "sending B H e" "\<forall>d\<in>X. datagram_of B H d" "H @ map content (e_snd_queue e) = T"
  have "\<forall>s\<in>set (e_snd_buf e'). in_history H s"
    using H(1) buf by (force simp: sending_def in_history_def)
  then have "sending B H e'" using H(1) assms(1,3,4) output_made_of_cong [of e' e] by (simp add: sending_def)
  then show ?thesis using H(2,3) assms(2) by (auto simp: sender_def)
qed

lemma sender_subset: "sender B X T e \<Longrightarrow> Y \<subseteq> X \<Longrightarrow> sender B Y T e"
  unfolding sender_def by blast

lemma content_number_segment [simp]: "content (number_segment now e seg) = content seg"
  by (simp add: content_def number_segment_def)

lemma numbered_in_history:
  assumes "e_snd_nxt e = word_of_nat (length H)" "s \<in> set (numbered now e segs)"
  shows "in_history (H @ map content segs) s"
  using assms
proof (induction segs arbitrary: e H)
  case (Cons seg segs)
  show ?case
  proof (cases "s = number_segment now e seg")
    case True
    then show ?thesis
      using Cons.prems(1) by (auto simp: in_history_def nth_append intro!: exI [of _ "length H"])
  next
    case False
    then have s: "s \<in> set (numbered now (e\<lparr>e_snd_nxt := e_snd_nxt e + 1\<rparr>) segs)" using Cons.prems(2) by simp
    have "e_snd_nxt (e\<lparr>e_snd_nxt := e_snd_nxt e + 1\<rparr>) = word_of_nat (length (H @ [content seg]))"
      using Cons.prems(1) by simp
    from Cons.IH [OF this s] show ?thesis by simp
  qed
qed simp

lemma content_mark_segment [simp]: "content (fst (mark_segment e now r x s)) = content s"
  by (simp add: content_def)

lemma in_history_cong: "s_sn s' = s_sn s \<Longrightarrow> content s' = content s \<Longrightarrow> in_history H s' = in_history H s"
  by (simp add: in_history_def)

lemma ack_segs_control: "s \<in> set (ack_segs clk i conv wnd una acks) \<Longrightarrow> h_cmd (s_header s) \<noteq> IKCP_CMD_PUSH"
  by (induction acks arbitrary: i)
    (auto simp: make_ack_def KcpSegment_ack_def KcpSegment_new_def KcpHeader_new_def Let_def)

lemma pass_probes_control: "s \<in> set (pass_probes clk e) \<Longrightarrow> h_cmd (s_header s) \<noteq> IKCP_CMD_PUSH"
  by (auto simp: pass_probes_def create_probe_segment_def KcpSegment_new_def KcpHeader_new_def Let_def split: if_splits)

context buf_codec
begin

lemma sender_flush:
  assumes ok: "engine_ok B c e" and snd: "sender B X T e"
  shows "sender B X T (fst (flush B clk e))"
proof (rule senderE [OF snd])
  fix H assume H: "sending B H e" "\<forall>d\<in>X. datagram_of B H d" "H @ map content (e_snd_queue e) = T"
  note o = engine_okD [OF ok] proto_invD(8,9) [OF engine_okD(3) [OF ok]]
  let ?q = "take (move_count e) (e_snd_queue e)" and ?e1 = "move_to_send_buf (clk 0) e"
  let ?e' = "fst (flush B clk e)" and ?H = "H @ map content (take (move_count e) (e_snd_queue e))"
  note eff = flush_effects [where B = B and clk = clk, OF o(6)]
  note mv = move_to_send_buf_eq [OF o(6)]
  have len: "length ?q = move_count e" by (simp add: move_count_def)
  have buf1: "\<forall>s\<in>set (e_snd_buf ?e1). in_history ?H s"
    using H(1) numbered_in_history [of e H] in_history_append by (auto simp: mv sending_def)
  have marked_ok: "in_history ?H (fst (mark_segment e2 t r x s)) = in_history ?H s" for e2 t r x s
    by (rule in_history_cong) simp_all
  have "\<forall>s\<in>set (e_snd_buf ?e'). in_history ?H s"
    using buf1 marked_ok by (auto simp: eff(2))
  moreover have "e_snd_nxt ?e' = word_of_nat (length ?H)"
    using H(1) len by (simp add: eff(4) mv sending_def)
  moreover have "pending_of B ?H ?e'"
  proof (rule flush_made_of [OF ok])
    show "pending_of B ?H e" using H(1) output_made_of_mono in_wire_append by (metis sending_def)
    have "in_history ?H s" if s: "s \<in> set (pass_segments clk e)" and push: "h_cmd (s_header s) = IKCP_CMD_PUSH" for s
    proof -
      have "s \<in> set (pass_selected (clk 0) ?e1)"
        using s push ack_segs_control pass_probes_control upto_dead_subset
        unfolding pass_segments_def pass_acks_def by fastforce
      then show ?thesis using buf1 marked_ok by (auto simp: pass_selected_def selected_def)
    qed
    then show "\<forall>s\<in>set (pass_segments clk e). in_wire ?H s" by (simp add: in_wire_def)
  qed
  moreover have "\<forall>x\<in>set ?H. snd x \<noteq> []"
    using H(1) o(11) set_take_subset [of "move_count e" "e_snd_queue e"]
    by (auto simp: sending_def content_def snd_queue_ok_def data_seg_ok_def)
  ultimately have "sending B ?H ?e'" by (simp add: sending_def)
  moreover have "\<forall>d\<in>X. datagram_of B ?H d" using H(2) made_of_mono in_wire_append by metis
  moreover have "?H @ map content (e_snd_queue ?e') = T"
  proof -
    have "map content ?q @ map content (drop (move_count e) (e_snd_queue e)) = map content (e_snd_queue e)"
      by (simp flip: map_append)
    then show ?thesis using H(3) by (simp add: eff(3) mv)
  qed
  ultimately show ?thesis by (auto simp: sender_def)
qed

lemma sender_keep_alive:
  assumes "engine_ok B c e" "sender B X T e"
  shows "sender B X T (fst (keep_alive_probe B clk e))"
proof -
  let ?e = "e\<lparr>e_probe := (e_probe e)\<lparr>p_flags := p_flags (e_probe e) OR IKCP_ASK_SEND\<rparr>\<rparr>"
  have "engine_ok B c ?e" using assms(1) engine_inv_cong [of B e ?e] by (simp add: engine_ok_def)
  moreover have "sender B X T ?e" by (rule sender_cong [OF _ _ _ _ _ assms(2)]) auto
  ultimately show ?thesis unfolding keep_alive_probe_def by (rule sender_flush)
qed

lemma sender_update:
  assumes "engine_ok B c e" "sender B X T e"
  shows "sender B X T (fst (update B clk e))"
proof -
  have base: "engine_ok B c (e\<lparr>e_last_update := t\<rparr>)" "sender B X T (e\<lparr>e_last_update := t\<rparr>)" for t
    using engine_ok_last_update [OF assms(1)] by (simp, intro sender_cong [OF _ _ _ _ _ assms(2)]) auto
  show ?thesis using sender_flush [OF base] base(2) by (cases rule: update_cases [of B clk e]) simp_all
qed

end

lemma sender_recv: "sender B X T e \<Longrightarrow> sender B X T (fst (recv e))"
  by (rule sender_cong [of "fst (recv e)" e]) (auto simp: recv_other_fields)

lemma set_conv_ok: "engine_ok B c e \<Longrightarrow> engine_ok B c (set_conv conv e)"
  using engine_inv_cong [of B e "set_conv conv e"] by (simp add: engine_ok_def set_conv_def)

lemma sender_set_conv: "sender B X T e \<Longrightarrow> sender B X T (set_conv conv e)"
  by (rule sender_cong [of "set_conv conv e" e]) (auto simp: set_conv_def)

lemma process_segment_send_fields:
  assumes "proto_inv (fst st)"
  shows "e_snd_nxt (fst (process_segment k t seg st)) = e_snd_nxt (fst st)
    \<and> set (e_snd_buf (fst (process_segment k t seg st))) \<subseteq> set (e_snd_buf (fst st))"
proof -
  let ?e = "(fst st)\<lparr>e_wnd := (e_wnd (fst st))\<lparr>w_rmt := ucast (h_wnd (s_header seg))\<rparr>\<rparr>"
  let ?e1 = "parse_una (h_una (s_header seg)) ?e"
  have una: "e_snd_nxt ?e1 = e_snd_nxt (fst st)" "set (e_snd_buf ?e1) \<subseteq> set (e_snd_buf (fst st))"
    unfolding parse_una_def una_loop_dropWhile by (auto dest: set_dropWhileD)
  have inv: "proto_inv ?e1" by (intro parse_una_proto_inv proto_inv_rmt assms)
  have ack: "e_snd_nxt (parse_ack k sn e) = e_snd_nxt e" "set (e_snd_buf (parse_ack k sn e)) \<subseteq> set (e_snd_buf e)"
    if "send_inv e" for sn e
    unfolding parse_ack_filter [OF that] by auto
  have "send_inv ?e1" "send_inv (update_ack i ?e1)" for i
    using proto_invD(1) [OF inv] by (simp_all add: send_inv_def in_flight_def)
  then have "e_snd_nxt (input_ack k t seg ?e1) = e_snd_nxt ?e1"
    "set (e_snd_buf (input_ack k t seg ?e1)) \<subseteq> set (e_snd_buf ?e1)"
    using ack [of "update_ack i ?e1" for i] ack [of ?e1] by (auto simp: input_ack_def Let_def)
  moreover have "e_snd_nxt (input_push seg ?e1) = e_snd_nxt ?e1" "e_snd_buf (input_push seg ?e1) = e_snd_buf ?e1"
    by (simp_all add: input_push_def ack_push_def Let_def)
  ultimately show ?thesis using una by (auto simp: process_segment_def Let_def)
qed

lemma process_segments_send_fields:
  assumes "proto_inv (fst st)"
  shows "e_snd_nxt (fst (process_segments ring t i segs st)) = e_snd_nxt (fst st)
    \<and> set (e_snd_buf (fst (process_segments ring t i segs st))) \<subseteq> set (e_snd_buf (fst st))"
  using assms
proof (induction segs arbitrary: i st)
  case (Cons seg segs)
  then show ?case
    using Cons.IH [OF process_segment_proto_inv [OF Cons.prems]] process_segment_send_fields [OF Cons.prems, of "ring i" t seg]
    by (simp only: process_segments.simps) (meson order_trans)
qed simp

lemma input_snd_nxt: "proto_inv e \<Longrightarrow> e_snd_nxt (fst (input B ring clk data e)) = e_snd_nxt e"
proof -
  assume inv: "proto_inv e"
  have "e_snd_nxt (count_packet (finish_input p st)) = e_snd_nxt (fst st)" for p st
    by (simp add: count_packet_def finish_input_def Let_def parse_fastack_def)
  moreover have "proto_inv (e\<lparr>e_last_activity := t\<rparr>)" for t
    by (rule proto_inv_cong [OF inv]) (simp_all add: proto_invD [OF inv])
  ultimately show ?thesis using process_segments_send_fields by (simp add: input_eq)
qed

lemma fastack_loop_contents:
  "s' \<in> set (fastack_loop sn ts segs) \<Longrightarrow> \<exists>s\<in>set segs. s_sn s' = s_sn s \<and> content s' = content s"
  by (induction segs) (auto simp: content_def split: if_splits)

lemma sender_input:
  assumes ok: "engine_ok B c e" and snd: "sender B X T e"
  shows "sender B X T (fst (input B ring clk data e))"
proof -
  let ?st = "process_segments ring (clk 0) 0 (packet_segments B data) (e\<lparr>e_last_activity := clk 0\<rparr>, no_acks)"
  have "proto_inv (e\<lparr>e_last_activity := clk 0\<rparr>)" using engine_okD(3) [OF ok] by simp
  then have st: "e_snd_nxt (fst ?st) = e_snd_nxt e" "set (e_snd_buf (fst ?st)) \<subseteq> set (e_snd_buf e)"
    using process_segments_send_fields [of "(e\<lparr>e_last_activity := clk 0\<rparr>, no_acks)"] by simp_all
  have "\<forall>s'\<in>set (e_snd_buf (finish_input p ?st)). \<exists>s\<in>set (e_snd_buf e). s_sn s' = s_sn s \<and> content s' = content s" for p
    using st(2) fastack_loop_contents by (auto simp: finish_input_def Let_def parse_fastack_def) blast
  then show ?thesis
    using st(1)
    by (intro sender_cong [OF _ _ _ _ _ snd])
      (auto simp: input_eq count_packet_def finish_input_def Let_def process_segments_snd_queue process_segments_output_fields)
qed

lemma sender_drain_output:
  "sender B X T e \<Longrightarrow> sender B (X \<union> set (e_output_queue e)) T (snd (drain_output e))"
  by (auto simp: sender_def sending_def output_made_of_def drain_output_def)

text \<open>\<open>send\<close> replaces the contents that wait, and nothing else.\<close>

lemma sender_send:
  assumes "sender B X T e"
  obtains H where "T = H @ map content (e_snd_queue e)"
    "sender B X (H @ map content (e_snd_queue (fst (send clk data e)))) (fst (send clk data e))"
proof (rule senderE [OF assms])
  fix H assume H: "sending B H e" "\<forall>d\<in>X. datagram_of B H d" "H @ map content (e_snd_queue e) = T"
  have "sending B H (fst (send clk data e))"
    using H(1) send_frame [of e clk data] unfolding same_but_queue_def
    by (elim exE) (simp add: sending_def output_made_of_def)
  then show thesis using H(2,3) by (intro that [of H]) (auto simp: sender_def)
qed

section \<open>The event loop as a sender\<close>

text \<open>
  What the event loop promises about sending follows from what \<open>send\<close> promises: a relation \<open>P\<close> between the
  messages accepted so far and the total history, which \<open>send\<close> extends by the message it accepts.
\<close>

locale send_side = buf_codec B for B +
  fixes c :: KcpCoreConfig
    and P :: "bytes list \<Rightarrow> (u8 \<times> bytes) list \<Rightarrow> bool"
  assumes accepted: "engine_ok B c e \<Longrightarrow> sender B X T e \<Longrightarrow> P M T \<Longrightarrow> length data \<le> message_limit c \<Longrightarrow>
    \<exists>T'. sender B X T' (fst (send clk data e)) \<and> P (M @ [data]) T'"
begin

definition offers :: "bytes set \<Rightarrow> bytes list \<Rightarrow> KcpEngine \<Rightarrow> bool" where
  "offers X M e \<longleftrightarrow> (\<exists>T. sender B X T e \<and> P M T)"

lemma offers_mono: "offers X M e \<Longrightarrow> (\<And>T. sender B X T e \<Longrightarrow> sender B Y T e') \<Longrightarrow> offers Y M e'"
  by (auto simp: offers_def)

lemma step_offers:
  assumes ok: "engine_ok B c (p_engine p)" and off: "offers (p_wire p) (p_taken p) (p_engine p)"
    and step: "peer_step B A p p'" and fit: "\<forall>msg\<in>set (p_taken p'). length msg \<le> message_limit c"
  shows "offers (p_wire p') (p_taken p') (p_engine p')"
  using step
proof (rule peer_stepE)
  fix clk data
  assume p': "p' = p\<lparr>p_engine := fst (send clk data (p_engine p)), p_taken := p_taken p @ [data]\<rparr>"
  then have "length data \<le> message_limit c" using fit by simp
  then show ?thesis using off accepted [OF ok] p' by (auto simp: offers_def)
next
  fix D assume D: "D \<subseteq> set (e_output_queue (p_engine p))"
    and p': "p' = p\<lparr>p_engine := snd (drain_output (p_engine p)), p_wire := p_wire p \<union> D\<rparr>"
  have "sender B (p_wire p \<union> D) T (snd (drain_output (p_engine p)))" if "sender B (p_wire p) T (p_engine p)" for T
    using sender_subset [OF sender_drain_output [OF that]] D by blast
  then show ?thesis using offers_mono [OF off] p' by simp
qed (use offers_mono [OF off] sender_recv sender_input [OF ok] sender_flush [OF ok] sender_update [OF ok] sender_keep_alive [OF ok]
      sender_set_conv in simp_all)

lemma taken_grows: "peer_step B A p p' \<Longrightarrow> set (p_taken p) \<subseteq> set (p_taken p')"
  by (erule peer_stepE) auto

lemma steps_offer:
  assumes "peer_steps B A p p'" "engine_ok B c (p_engine p)" "offers (p_wire p) (p_taken p) (p_engine p)"
    and "\<forall>msg\<in>set (p_taken p'). length msg \<le> message_limit c"
  shows "offers (p_wire p') (p_taken p') (p_engine p')"
proof -
  let ?fit = "\<lambda>p. \<forall>msg\<in>set (p_taken p). length msg \<le> message_limit c"
  have "?fit p' \<longrightarrow> offers (p_wire p') (p_taken p') (p_engine p')"
    by (rule peer_steps_keep [where I = "\<lambda>p. ?fit p \<longrightarrow> offers (p_wire p) (p_taken p) (p_engine p)", OF _ assms(1,2)])
      (use step_offers taken_grows assms(3) in blast)+
  then show ?thesis using assms(4) by blast
qed

text \<open>After any calls, and after a run: a history whose datagrams have gone out, and what still waits for a number.\<close>

lemma history_of_steps:
  assumes "peer_steps B A (start_peer e) p" "engine_ok B c e" "sender B {} [] e" "P [] []"
    and "\<forall>msg\<in>set (p_taken p). length msg \<le> message_limit c"
  obtains H where "sending B H (p_engine p)" "\<forall>d\<in>p_wire p. datagram_of B H d"
    "P (p_taken p) (H @ map content (e_snd_queue (p_engine p)))"
proof -
  have "offers (p_wire p) (p_taken p) (p_engine p)"
    by (rule steps_offer [OF assms(1)]) (use assms(2-5) in \<open>auto simp: start_peer_def offers_def\<close>)
  then show thesis using that by (auto simp: offers_def elim!: senderE)
qed

lemma history_of_run:
  assumes "engine_ok B c e" "sender B {} [] e" "P [] []" "run_engine_actor B g v0 vs e = (s, f)"
    and "msgs = run_taken B g vs (actor_start B g v0 e)" "\<forall>msg\<in>set msgs. length msg \<le> message_limit c"
  obtains H where "sending B H (a_engine s)" "\<forall>d\<in>set (a_wire s). datagram_of B H d"
    "P msgs (H @ map content (e_snd_queue (a_engine s)))"
proof -
  have "peer_steps B (\<lambda>_ _. True) (start_peer e) (peer_of msgs s)"
    using actor_run_steps [where A = "\<lambda>_ _. True" and B = B and e = e and g = g and ?v0.0 = v0 and vs = vs] assms(4,5) by simp
  from history_of_steps [OF this assms(1-3)] show thesis using assms(6) that by auto
qed

end

text \<open>The bytes of the history are those of the messages, in either mode.\<close>

lemma sender_send_bytes:
  assumes ok: "engine_ok B c e" and snd: "sender B X T e" and len: "length data \<le> message_limit c"
  obtains H where "T = H @ map content (e_snd_queue e)"
    "sender B X (H @ map content (e_snd_queue (fst (send clk data e)))) (fst (send clk data e))"
    "concat (map snd (H @ map content (e_snd_queue (fst (send clk data e))))) = concat (map snd T) @ data"
proof -
  obtain H where H: "T = H @ map content (e_snd_queue e)"
    "sender B X (H @ map content (e_snd_queue (fst (send clk data e)))) (fst (send clk data e))"
    by (rule sender_send [OF snd])
  have q: "concat (map snd (map content segs)) = concat (map s_data segs)" for segs
    by (simp add: content_def o_def)
  have "queue_bytes (fst (send clk data e)) = queue_bytes e @ data"
    using send_appends [of e clk data] engine_okD(8) [OF ok] proto_invD(8) [OF engine_okD(3) [OF ok]]
      send_within_limit [OF ok len] by blast
  then show thesis using q H unfolding queue_bytes_def by (intro that [of H]) (simp_all del: map_map)
qed

interpretation byt_send: send_side le_buf_api c "\<lambda>M T. concat (map snd T) = concat M" for c
proof
  fix e X T M clk and data :: bytes
  assume "engine_ok le_buf_api c e" "sender le_buf_api X T e" "concat (map snd T) = concat M" "length data \<le> message_limit c"
  then show "\<exists>T'. sender le_buf_api X T' (fst (send clk data e)) \<and> concat (map snd T') = concat (M @ [data])"
    by (elim sender_send_bytes [where clk = clk]) auto
qed

text \<open>In stream mode every segment is a message of its own, so it is whole as soon as it is received.\<close>

lemma stream_send_whole:
  assumes ok: "engine_ok B c e" and mode: "c_stream_mode c" and whole: "\<forall>s\<in>set (e_snd_queue e). s_frg s = 0"
  shows "\<forall>s\<in>set (e_snd_queue (fst (send clk data e))). s_frg s = 0"
proof (cases "data = []")
  case True
  then show ?thesis using whole by (simp add: send_def Let_def)
next
  case False
  note mtu = engine_okD(8) [OF ok] and m = mss_pos [OF engine_okD(8) [OF ok]]
  have stream: "c_stream_mode (e_config e)" using mode engine_okD(2) [OF ok] by simp
  have merge: "\<forall>s\<in>set (e_snd_queue e'). s_frg s = 0"
    if "stream_merge k d (e\<lparr>e_last_activity := t\<rparr>) = Some (e', rest, n)" for k d t e' rest n
  proof -
    have "s_frg s = 0" if "s \<in> set (butlast (e_snd_queue e))" for s using whole in_set_butlastD [OF that] by blast
    then show ?thesis using that whole by (auto simp: stream_merge_def Let_def split: if_splits)
  qed
  have frags: "\<forall>s\<in>set (e_snd_queue (fst (send_fragments clk (unat (mss e)) d x))). s_frg s = 0"
    if "d \<noteq> []" "\<forall>s\<in>set (e_snd_queue x). s_frg s = 0" "c_stream_mode (e_config x)" for d x
    using that by (auto simp: send_fragments_cases [OF m that(1)] frag_segs_def frag_seg_def)
  from mtu False show ?thesis
  proof (cases rule: send_cases [where clk = clk])
    case (merged e')
    then show ?thesis using merge by fastforce
  next
    case (extended e' rest n)
    then show ?thesis using frags [OF extended(2) merge [OF extended(1)]] stream_merge_SomeD [OF extended(1)] stream by auto
  next
    case plain
    then show ?thesis using frags [OF False, of "e\<lparr>e_last_activity := clk 0\<rparr>"] whole stream by simp
  qed
qed

interpretation str_send: send_side le_buf_api c
  "\<lambda>M T. c_stream_mode c \<and> concat (map snd T) = concat M \<and> (\<forall>x\<in>set T. fst x = 0)" for c
proof
  fix e X T M clk and data :: bytes
  assume ok: "engine_ok le_buf_api c e" and snd: "sender le_buf_api X T e" and len: "length data \<le> message_limit c"
    and T: "c_stream_mode c \<and> concat (map snd T) = concat M \<and> (\<forall>x\<in>set T. fst x = 0)"
  obtain H where H: "T = H @ map content (e_snd_queue e)"
    "sender le_buf_api X (H @ map content (e_snd_queue (fst (send clk data e)))) (fst (send clk data e))"
    "concat (map snd (H @ map content (e_snd_queue (fst (send clk data e))))) = concat (map snd T) @ data"
    by (rule sender_send_bytes [OF ok snd len])
  have frg: "fst (content s) = s_frg s" for s by (simp add: content_def)
  have "\<forall>s\<in>set (e_snd_queue e). fst (content s) = 0" using T H(1) by simp
  then have "\<forall>s\<in>set (e_snd_queue e). s_frg s = 0" unfolding frg .
  then have "\<forall>s\<in>set (e_snd_queue (fst (send clk data e))). s_frg s = 0" using stream_send_whole [OF ok] T by blast
  then have "\<forall>x\<in>set (H @ map content (e_snd_queue (fst (send clk data e)))). fst x = 0"
    using T H(1) by (simp add: frg ball_Un)
  then show "\<exists>T'. sender le_buf_api X T' (fst (send clk data e)) \<and> c_stream_mode c
      \<and> concat (map snd T') = concat (M @ [data]) \<and> (\<forall>x\<in>set T'. fst x = 0)"
    using H(2,3) T by fastforce
qed

text \<open>In message mode the history is the fragments of the messages, group by group.\<close>

definition fragments_of :: "bytes \<Rightarrow> (u8 \<times> bytes) list \<Rightarrow> bool" where
  "fragments_of m xs \<longleftrightarrow> xs \<noteq> [] \<and> concat (map snd xs) = m \<and> map (unat \<circ> fst) xs = rev [0..<length xs]"

definition nonempty :: "bytes list \<Rightarrow> bytes list" where
  "nonempty msgs = filter (\<lambda>m. m \<noteq> []) msgs"

text \<open>A message has at most as many fragments as the sender's own receive window.\<close>

definition frag_limit :: "KcpCoreConfig \<Rightarrow> nat" where
  "frag_limit c = unat (min (c_rcv_wnd c) 128)"

definition grouped :: "nat \<Rightarrow> bytes list \<Rightarrow> (u8 \<times> bytes) list \<Rightarrow> bool" where
  "grouped k M T \<longleftrightarrow> (\<exists>groups. concat groups = T \<and> list_all2 fragments_of (nonempty M) groups \<and> (\<forall>g\<in>set groups. length g \<le> k))"

interpretation msg_send: send_side le_buf_api c "\<lambda>M T. \<not> c_stream_mode c \<and> grouped (frag_limit c) M T" for c
proof
  fix e X T M clk and data :: bytes
  assume ok: "engine_ok le_buf_api c e" and snd: "sender le_buf_api X T e"
    and T: "\<not> c_stream_mode c \<and> grouped (frag_limit c) M T" and len: "length data \<le> message_limit c"
  obtain groups where groups: "concat groups = T" "list_all2 fragments_of (nonempty M) groups" "\<forall>g\<in>set groups. length g \<le> frag_limit c"
    using T by (auto simp: grouped_def)
  obtain H where H: "T = H @ map content (e_snd_queue e)"
    "sender le_buf_api X (H @ map content (e_snd_queue (fst (send clk data e)))) (fst (send clk data e))"
    by (rule sender_send [OF snd])
  show "\<exists>T'. sender le_buf_api X T' (fst (send clk data e)) \<and> \<not> c_stream_mode c \<and> grouped (frag_limit c) (M @ [data]) T'"
  proof (cases "data = []")
    case True
    then have "e_snd_queue (fst (send clk data e)) = e_snd_queue e" by (simp add: send_def Let_def)
    then show ?thesis using H T True by (auto simp: grouped_def nonempty_def)
  next
    case False
    have mode: "\<not> c_stream_mode (e_config e)" using T engine_okD(2) [OF ok] by simp
    have "snd (send clk data e) = Ok ()" by (rule send_within_limit [OF ok len])
    then obtain frags n where f: "e_snd_queue (fst (send clk data e)) = e_snd_queue e @ frags"
      "length frags = n" "concat (map s_data frags) = data" "\<forall>i<n. unat (s_frg (frags ! i)) = n - 1 - i"
      "n \<le> frag_limit c"
      using message_fragments [OF engine_okD(8) [OF ok] mode False refl, of clk] engine_okD(2) [OF ok]
      by (auto simp: frag_limit_def split: if_splits)
    have "frags \<noteq> []" using f(3) False by auto
    moreover have "map (unat \<circ> fst) (map content frags) = rev [0..<length frags]"
      using f(2,4) by (intro nth_equalityI) (simp_all add: content_def rev_nth)
    ultimately have "fragments_of data (map content frags)"
      using f(3) by (simp add: fragments_of_def content_def o_def)
    then have "list_all2 fragments_of (nonempty (M @ [data])) (groups @ [map content frags])"
      using groups(2) False by (simp add: nonempty_def list_all2_appendI)
    then have "grouped (frag_limit c) (M @ [data]) (T @ map content frags)"
      using groups(1,3) f(2,5) unfolding grouped_def by (intro exI [of _ "groups @ [map content frags]"]) simp
    then show ?thesis using H T f(1) by auto
  qed
qed

section \<open>The event loop as the receiver of a history\<close>

text \<open>
  The history as an infinite sequence, with a filler behind it. The receiver can not tell fillers apart;
  that none is ever delivered follows since it refines the FIFO of the sequence for every filler byte.
\<close>

definition filled :: "(u8 \<times> bytes) list \<Rightarrow> u8 \<Rightarrow> nat \<Rightarrow> u8 \<times> bytes" where
  "filled H p i = (if i < length H then H ! i else (0, [p]))"

lemma bytes_of_filled:
  assumes "n \<le> length H" shows "bytes_of (filled H p) 0 n = concat (map snd (take n H))"
proof -
  have "map (snd \<circ> filled H p) [0..<n] = map snd (take n H)"
    using assms by (intro nth_equalityI) (simp_all add: filled_def)
  then show ?thesis by (simp add: bytes_of_def)
qed

lemma concat_take_drop: "concat (map f (take n xs)) @ concat (map f (drop n xs)) = concat (map f xs)"
  by (metis append_take_drop_id concat_append map_append)

lemma filled_agree:
  assumes "bytes_of (filled H p) 0 n = bytes_of (filled H q) 0 m" "p \<noteq> q"
  shows "n \<le> length H"
proof (rule ccontr)
  assume "\<not> n \<le> length H"
  then have less: "length H < n" by simp
  let ?h = "concat (map snd H)"
  have split: "bytes_of (filled H x) 0 i = ?h @ x # bytes_of (filled H x) (Suc (length H)) i" if "length H < i" for i x
  proof -
    have "bytes_of (filled H x) 0 i = ?h @ bytes_of (filled H x) (length H) i"
      using bytes_of_append [of 0 "length H" i "filled H x"] bytes_of_filled [of "length H" H x] that by simp
    moreover have "bytes_of (filled H x) (length H) i = x # bytes_of (filled H x) (Suc (length H)) i"
      using that by (simp add: bytes_of_def upt_conv_Cons filled_def)
    ultimately show ?thesis by simp
  qed
  show False
  proof (cases "m \<le> length H")
    case True
    then have "concat (map snd (take m H)) = ?h @ p # bytes_of (filled H p) (Suc (length H)) n"
      using assms(1) split [OF less, of p] bytes_of_filled [OF True, of q] by simp
    then show False
      using arg_cong [OF concat_take_drop [of snd m H], of length] by simp
  next
    case False
    then show False using assms(1,2) split [OF less, of p] split [of m q] by simp
  qed
qed

text \<open>The receiver has taken a prefix of the history, whatever is behind it.\<close>

definition history_rel :: "KcpCoreConfig \<Rightarrow> (u8 \<times> bytes) list \<Rightarrow> KcpEngine \<Rightarrow> bytes list \<Rightarrow> bool" where
  "history_rel c H e ds \<longleftrightarrow> core_config_ok c \<and> length H \<le> 1073741824 \<and>
     (\<forall>p. \<exists>k n. rcv_rel (filled H p) n k e \<and> concat ds = bytes_of (filled H p) 0 k)"

lemma history_bound:
  assumes "history_rel c H e ds"
  obtains n k where "rcv_rel (filled H p) n k e" "concat ds = concat (map snd (take k H))" "k \<le> n" "n \<le> length H"
proof -
  let ?T = "concat ds @ payload (e_rcv_queue e)"
  have all: "\<exists>n k. rcv_rel (filled H q) n k e \<and> concat ds = bytes_of (filled H q) 0 k
      \<and> ?T = bytes_of (filled H q) 0 n" for q
  proof -
    obtain k n where k: "rcv_rel (filled H q) n k e" "concat ds = bytes_of (filled H q) 0 k"
      using assms unfolding history_rel_def by blast
    then have "payload (e_rcv_queue e) = bytes_of (filled H q) k n"
      by (intro payload_content) (simp add: rcv_rel_def)
    then show ?thesis
      using k bytes_of_append [of 0 k n "filled H q"] by (intro exI [of _ n] exI [of _ k]) (simp add: rcv_rel_def)
  qed
  obtain n k where n: "rcv_rel (filled H p) n k e" "concat ds = bytes_of (filled H p) 0 k"
    "?T = bytes_of (filled H p) 0 n"
    using all by blast
  obtain m where "?T = bytes_of (filled H (p + 1)) 0 m" using all by blast
  then have bound: "n \<le> length H"
    using n(3) by (intro filled_agree [of H p n "p + 1" m]) simp_all
  moreover have "k \<le> n" using n(1) by (simp add: rcv_rel_def)
  ultimately show thesis using that n(1,2) bytes_of_filled [of k H p] by simp
qed

lemma history_rel_input:
  assumes ok: "engine_ok le_buf_api c e" and R: "history_rel c H e ds" and data: "datagram_of le_buf_api H data"
  shows "history_rel c H (fst (input le_buf_api ring clk data e)) ds"
proof -
  have c: "core_config_ok c" "length H \<le> 1073741824" using R by (simp_all add: history_rel_def)
  have wnd: "unat (w_rcv (e_wnd e)) \<le> 1073741824"
    using c(1) unfolding engine_okD(9) [OF ok] by (simp add: core_config_ok_def word_le_nat_alt)
  have "\<exists>k n. rcv_rel (filled H p) n k (fst (input le_buf_api ring clk data e)) \<and> concat ds = bytes_of (filled H p) 0 k"
    for p
  proof -
    obtain n k where n: "rcv_rel (filled H p) n k e" "concat ds = concat (map snd (take k H))" "k \<le> n" "n \<le> length H"
      by (rule history_bound [OF R])
    have "from_peer (filled H p) n (e_conv e) seg" if seg: "seg \<in> set (packet_segments le_buf_api data)" for seg
    proof -
      have "\<exists>i. s_sn seg = word_of_nat i \<and> content seg = filled H p i \<and> i < n + 2147483648 \<and> n \<le> i + 1073741824"
        if push: "h_cmd (s_header seg) = IKCP_CMD_PUSH"
      proof -
        obtain i where "i < length H" "s_sn seg = word_of_nat i" "content seg = H ! i"
          using le.datagram_segments [OF data seg push] by (auto simp: in_history_def)
        then show ?thesis using c(2) n(4) by (intro exI [of _ i]) (simp add: filled_def)
      qed
      then show ?thesis by (simp add: from_peer_def)
    qed
    then obtain m where "rcv_rel (filled H p) m k (fst (input le_buf_api ring clk data e))"
      using rcv_rel_input [OF n(1) engine_okD(3) [OF ok] wnd] by blast
    then show ?thesis using n bytes_of_filled [of k H p] by (intro exI [of _ k] exI [of _ m]) simp
  qed
  then show ?thesis using c by (simp add: history_rel_def)
qed

lemma history_rel_recv:
  assumes ok: "engine_ok le_buf_api c e" and R: "history_rel c H e ds"
  shows "history_rel c H (fst (recv e)) (ds @ message_of (snd (recv e)))"
proof -
  have "\<exists>k' m. rcv_rel (filled H p) m k' (fst (recv e))
      \<and> concat (ds @ message_of (snd (recv e))) = bytes_of (filled H p) 0 k'" for p
  proof -
    obtain k n where k: "rcv_rel (filled H p) n k e" "concat ds = bytes_of (filled H p) 0 k"
      using R unfolding history_rel_def by blast
    obtain m k' where "k \<le> k'" "rcv_rel (filled H p) m k' (fst (recv e))" "got (snd (recv e)) = bytes_of (filled H p) k k'"
      using rcv_rel_recv [OF k(1) engine_okD(7) [OF ok]] by blast
    then show ?thesis
      using k(2) bytes_of_append [of 0 k k' "filled H p"] by (intro exI [of _ k'] exI [of _ m]) simp
  qed
  then show ?thesis using R by (simp add: history_rel_def)
qed

lemma history_rel_same: "same_recv e e' \<Longrightarrow> history_rel c H e ds \<Longrightarrow> history_rel c H e' ds"
  by (simp add: history_rel_def rcv_rel_cong)

interpretation hst: receive_side le_buf_api c "history_rel c H" "\<lambda>e. datagram_of le_buf_api H" for c H
  by unfold_locales (rule history_rel_same history_rel_recv history_rel_input; assumption)+

section \<open>Whole messages\<close>

text \<open>
  When the history is a prefix of the fragments \<open>groups\<close> of the messages \<open>ms\<close>, the receiver has handed out whole
  messages: the first ones.
\<close>

definition groups_of :: "bytes list \<Rightarrow> (u8 \<times> bytes) list list \<Rightarrow> bool" where
  "groups_of ms groups \<longleftrightarrow> list_all2 fragments_of ms groups \<and> (\<forall>x\<in>set (concat groups). snd x \<noteq> [])
     \<and> (\<forall>m\<in>set ms. m \<noteq> [] \<and> length m < 2147483648)"

definition messages_rel :: "KcpCoreConfig \<Rightarrow> (u8 \<times> bytes) list \<Rightarrow> bytes list \<Rightarrow> (u8 \<times> bytes) list list \<Rightarrow>
    KcpEngine \<Rightarrow> bytes list \<Rightarrow> bool" where
  "messages_rel c H ms groups e ds \<longleftrightarrow> history_rel c H e ds \<and> groups_of ms groups
     \<and> (\<exists>Q. concat groups = H @ Q) \<and> (\<exists>j. ds = take j ms)"

lemma prefix_by_bytes:
  assumes "concat (map snd (take a xs)) = concat (map snd (take b xs))" "a \<le> b" "b \<le> length xs"
    and "\<forall>x\<in>set (take b xs). snd x \<noteq> []"
  shows "a = b"
proof (rule ccontr)
  assume "a \<noteq> b"
  then have less: "a < b" using assms(2) by simp
  then have "take b xs = take a xs @ xs ! a # take (b - Suc a) (drop (Suc a) xs)"
    using assms(3) by (metis Cons_nth_drop_Suc append_take_drop_id less_le_trans less_imp_le_nat min.absorb1 take_Suc_Cons take_add
        Suc_diff_Suc le_add_diff_inverse)
  then have "snd (xs ! a) = []" using assms(1) by simp
  moreover have "xs ! a \<in> set (take b xs)"
    using less assms(3) by (auto simp: in_set_conv_nth intro!: exI [of _ a])
  ultimately show False using assms(4) by blast
qed

lemma fragments_of_bytes: "list_all2 fragments_of ms groups \<Longrightarrow> concat (map snd (concat groups)) = concat ms"
  by (induction rule: list_all2_induct) (simp_all add: fragments_of_def)

lemma recv_incomplete:
  assumes "e_rcv_queue e = seg # q" "length (e_rcv_queue e) \<le> unat (s_frg seg)"
  shows "recv e = (e, Ok None)"
  using assms by (auto simp: recv_def peek_size_def frg_zero_iff)

lemma recv_group:
  assumes "fragments_of m xs" "map content (e_rcv_queue e) = take i (xs @ ys)" "m \<noteq> []" "length m < 2147483648"
  shows "snd (recv e) = Ok (if length xs \<le> length (e_rcv_queue e) then Some m else None)"
proof (cases "length xs \<le> length (e_rcv_queue e)")
  case True
  let ?segs = "take (length xs) (e_rcv_queue e)"
  have len: "length ?segs = length xs" using True by simp
  have "map content ?segs = take (length xs) (take i (xs @ ys))" using assms(2) by (simp flip: take_map)
  moreover have "length xs \<le> i" using True arg_cong [OF assms(2), of length] by simp
  ultimately have c: "map content ?segs = xs" by (simp add: min_def)
  have "map (unat \<circ> s_frg) ?segs = map (unat \<circ> fst) (map content ?segs)" "payload ?segs = concat (map snd (map content ?segs))"
    by (simp_all add: content_def payload_def o_def)
  then have f: "fragments ?segs" "payload ?segs = m"
    using assms(1) len unfolding c fragments_of_def fragments_def by auto
  have "e_rcv_queue e = ?segs @ drop (length xs) (e_rcv_queue e)" by simp
  from recv_fragments [OF f(1) this] show ?thesis using assms(3,4) f(2) True by simp
next
  case False
  show ?thesis
  proof (cases "e_rcv_queue e")
    case Nil
    then show ?thesis using False by (simp add: recv_def peek_size_def)
  next
    case (Cons seg q)
    have ne: "xs \<noteq> []" using assms(1) by (simp add: fragments_of_def)
    have "0 < i" using assms(2) Cons by (cases i) auto
    then have "content seg = xs ! 0" using assms(2) Cons ne by (cases xs; cases i) auto
    then have "s_frg seg = fst (xs ! 0)" by (metis content_def fst_conv)
    moreover have "map (unat \<circ> fst) xs ! 0 = rev [0..<length xs] ! 0" using assms(1) by (simp add: fragments_of_def)
    ultimately have "unat (s_frg seg) = length xs - 1" using ne by (simp add: rev_nth)
    then have "length (e_rcv_queue e) \<le> unat (s_frg seg)" using False by simp
    from recv_incomplete [OF Cons this] show ?thesis using False by simp
  qed
qed

text \<open>The receive queue starts where the delivered messages end.\<close>

lemma messages_relE:
  assumes "messages_rel c H ms groups e ds"
  defines "k \<equiv> length (concat (take (length ds) groups))"
  obtains n where "rcv_rel (filled H 0) n k e" "k \<le> n" "n \<le> length H" "length ds \<le> length ms" "ds = take (length ds) ms"
    "map content (e_rcv_queue e) = take (n - k) (concat (drop (length ds) groups))"
proof -
  have h: "history_rel c H e ds" and g: "groups_of ms groups" using assms by (simp_all add: messages_rel_def)
  obtain Q where Q: "concat groups = H @ Q" using assms by (auto simp: messages_rel_def)
  have ds: "length ds \<le> length ms" "ds = take (length ds) ms" using assms by (auto simp: messages_rel_def min_def)
  obtain n k' where n: "rcv_rel (filled H 0) n k' e" "concat ds = concat (map snd (take k' H))" "k' \<le> n" "n \<le> length H"
    by (rule history_bound [OF h])
  let ?done = "concat (take (length ds) groups)" and ?todo = "concat (drop (length ds) groups)"
  have all: "?done @ ?todo = H @ Q" using Q by (metis append_take_drop_id concat_append)
  have t: "?done = take (length ?done) (H @ Q)" unfolding all [symmetric] by simp
  have "concat ds = concat (map snd ?done)"
    using fragments_of_bytes [OF list_all2_takeI [of fragments_of ms groups "length ds"]] g ds(2) by (simp add: groups_of_def)
  then have eq: "concat (map snd (take k' (H @ Q))) = concat (map snd (take (length ?done) (H @ Q)))"
    using n(2-4) t by simp
  have le: "k' \<le> length (H @ Q)" "length ?done \<le> length (H @ Q)"
    using n(3,4) arg_cong [OF all, of length] by simp_all
  have ne: "\<forall>x\<in>set (take i (H @ Q)). snd x \<noteq> []" for i
    using g Q by (metis groups_of_def in_set_takeD)
  have k': "k' = k"
    using prefix_by_bytes [OF eq _ le(2) ne] prefix_by_bytes [OF eq [symmetric] _ le(1) ne] unfolding k_def
    by (metis nle_le)
  have "map content (e_rcv_queue e) = map (filled H 0) [k..<n]" using n(1) k' by (simp add: rcv_rel_def)
  also have "\<dots> = take (n - k) (drop k (H @ Q))"
    using n(3,4) k' by (intro nth_equalityI) (auto simp: filled_def nth_append)
  also have "drop k (H @ Q) = ?todo" unfolding all [symmetric] k_def by simp
  finally show thesis using that n ds k' by blast
qed

text \<open>So \<open>recv\<close> returns the next message as soon as all its fragments are in the queue.\<close>

lemma messages_rel_next:
  assumes R: "messages_rel c H ms groups e ds"
  shows "snd (recv e) = Ok (if length ds < length ms \<and> length (groups ! length ds) \<le> length (e_rcv_queue e)
    then Some (ms ! length ds) else None)"
proof (rule messages_relE [OF R])
  fix n let ?j = "length ds"
  assume q: "map content (e_rcv_queue e) = take (n - length (concat (take ?j groups))) (concat (drop ?j groups))"
    and j: "length ds \<le> length ms"
  have g: "groups_of ms groups" using R by (simp add: messages_rel_def)
  then have len: "length groups = length ms" by (auto simp: groups_of_def dest: list_all2_lengthD)
  show ?thesis
  proof (cases "?j < length ms")
    case True
    then have d: "concat (drop ?j groups) = groups ! ?j @ concat (drop (Suc ?j) groups)"
      using len by (simp flip: Cons_nth_drop_Suc)
    have f: "fragments_of (ms ! ?j) (groups ! ?j)" "ms ! ?j \<noteq> []" "length (ms ! ?j) < 2147483648"
      using g True list_all2_nthD by (auto simp: groups_of_def)
    show ?thesis using recv_group [OF f(1) q [unfolded d] f(2,3)] True by simp
  next
    case False
    then have "e_rcv_queue e = []" using q len by simp
    then show ?thesis using False by (simp add: recv_def peek_size_def)
  qed
qed

lemma messages_rel_recv:
  assumes ok: "engine_ok le_buf_api c e" and R: "messages_rel c H ms groups e ds"
  shows "messages_rel c H ms groups (fst (recv e)) (ds @ message_of (snd (recv e)))"
proof -
  have "ds = take (length ds) ms" by (rule messages_relE [OF R])
  then have "\<exists>j. ds @ message_of (snd (recv e)) = take j ms"
    unfolding messages_rel_next [OF R] by (auto simp: message_of_def take_Suc_conv_app_nth intro: exI [of _ "Suc (length ds)"])
  then show ?thesis using R history_rel_recv [OF ok] by (auto simp: messages_rel_def)
qed

interpretation msgs: receive_side le_buf_api c "messages_rel c H ms groups" "\<lambda>e. datagram_of le_buf_api H" for c H ms groups
proof
  fix e e' ds assume "same_recv e e'" "messages_rel c H ms groups e ds"
  then show "messages_rel c H ms groups e' ds" using history_rel_same by (simp add: messages_rel_def)
next
  fix e ds data ring clk
  assume "engine_ok le_buf_api c e" "messages_rel c H ms groups e ds" "datagram_of le_buf_api H data"
  then show "messages_rel c H ms groups (fst (input le_buf_api ring clk data e)) ds"
    using history_rel_input by (simp add: messages_rel_def)
qed (rule messages_rel_recv)

section \<open>The two ends of a connection\<close>

text \<open>
  The engine with which an end of a connection starts its event loop: that of a client, or that of a
  server, which has processed one of the datagrams \<open>X\<close>.
\<close>

inductive endpoint :: "bytes set \<Rightarrow> KcpConfig \<Rightarrow> KcpEngine \<Rightarrow> bool" for X config where
  client_end: "new_with_conv clk conv config = Ok (e, args, s) \<Longrightarrow> endpoint X config e"
| server_end: "new_server_stream le_buf_api ring clk' client_conv server_conv config data = Ok (e, args, s) \<Longrightarrow>
    data \<in> X \<Longrightarrow> endpoint X config e"

lemma endpoint_mono: "endpoint X config e \<Longrightarrow> X \<subseteq> Y \<Longrightarrow> endpoint Y config e"
  by (erule endpoint.cases) (auto intro: endpoint.intros)

lemma client_engine: "new_with_conv clk conv config = Ok (e, args, s) \<Longrightarrow>
    validate config = Ok () \<and> e = KcpEngine_new clk conv (KcpCoreConfig_from config)"
  by (auto simp: new_with_conv_def start_def split: sum.splits)

lemma and_then_Ok_iff: "and_then r f = (x, Ok y) \<longleftrightarrow> (\<exists>z. snd r = Ok z \<and> f (fst r) = (x, Ok y))"
  by (auto simp: and_then_def split: sum.split)

lemma server_engine_steps:
  assumes "new_server_stream B ring clk client_conv server_conv config data = Ok (e, args, s)"
  obtains e1 where "validate config = Ok ()"
    "e1 = fst (input B ring (clk 1) data (KcpEngine_new (clk 0) client_conv (KcpCoreConfig_from config)))"
    "e = fst (flush B (clk 3) (fst (update B (clk 2)
           (if client_conv \<noteq> server_conv then set_conv server_conv e1 else e1))))"
proof -
  have v: "validate config = Ok ()" and e: "server_engine B ring clk client_conv server_conv config data = (e, Ok ())"
    using assms by (auto simp: new_server_stream_def split: sum.splits prod.splits)
  have "flush B (clk 3) (fst (update B (clk 2) (if client_conv \<noteq> server_conv then set_conv server_conv
      (fst (input B ring (clk 1) data (KcpEngine_new (clk 0) client_conv (KcpCoreConfig_from config))))
      else fst (input B ring (clk 1) data (KcpEngine_new (clk 0) client_conv (KcpCoreConfig_from config)))))) = (e, Ok ())"
    using e unfolding server_engine_def start_def and_then_Ok Let_def and_then_Ok_iff by blast
  then show thesis by (intro that [OF v refl]) (simp only: fst_conv)
qed

lemma history_rel_new:
  "core_config_ok c \<Longrightarrow> length H \<le> 1073741824 \<Longrightarrow> history_rel c H (KcpEngine_new clk conv c') []"
  by (auto simp: history_rel_def rcv_rel_def tracks_def KcpEngine_new_def Let_def bt_empty_def intro!: exI [of _ 0])

lemma sender_new: "sender B {} [] (KcpEngine_new clk conv c)"
  by (auto simp: sender_def sending_def output_made_of_def KcpEngine_new_def Let_def intro!: exI [of _ "[]"])

lemma endpoint_engine:
  assumes "endpoint X config e"
  shows "validate config = Ok ()" "engine_ok le_buf_api (KcpCoreConfig_from config) e" "sender le_buf_api {} [] e"
    and "\<forall>d\<in>X. datagram_of le_buf_api H d \<Longrightarrow> length H \<le> 1073741824 \<Longrightarrow>
      history_rel (KcpCoreConfig_from config) H e []"
proof -
  let ?c = "KcpCoreConfig_from config"
  have "validate config = Ok () \<and> engine_ok le_buf_api ?c e \<and> sender le_buf_api {} [] e
    \<and> ((\<forall>d\<in>X. datagram_of le_buf_api H d) \<longrightarrow> length H \<le> 1073741824 \<longrightarrow> history_rel ?c H e [])"
    using assms
  proof cases
    case (client_end clk conv args s)
    then show ?thesis
      using client_engine [OF client_end] new_engine_ok history_rel_new validate_core_config_ok sender_new by auto
  next
    case (server_end ring clk client_conv server_conv data args s)
    obtain e1 where v: "validate config = Ok ()"
      and e1: "e1 = fst (input le_buf_api ring (clk 1) data (KcpEngine_new (clk 0) client_conv ?c))"
      and e: "e = fst (flush le_buf_api (clk 3) (fst (update le_buf_api (clk 2)
           (if client_conv \<noteq> server_conv then set_conv server_conv e1 else e1))))"
      by (rule server_engine_steps [OF server_end(1)])
    let ?e2 = "if client_conv \<noteq> server_conv then set_conv server_conv e1 else e1"
    have ok1: "engine_ok le_buf_api ?c e1" unfolding e1 by (rule engine_ok_input [OF new_engine_ok [OF v]])
    then have ok2: "engine_ok le_buf_api ?c ?e2" using set_conv_ok by simp
    note ok3 = le.engine_ok_update [OF ok2, of "clk 2"]
    have "sender le_buf_api {} [] e1" unfolding e1 by (rule sender_input [OF new_engine_ok [OF v] sender_new])
    then have "sender le_buf_api {} [] ?e2" using sender_set_conv by simp
    then have "sender le_buf_api {} [] e" unfolding e by (rule le.sender_flush [OF ok3 le.sender_update [OF ok2]])
    moreover have "history_rel ?c H e []" if H: "\<forall>d\<in>X. datagram_of le_buf_api H d" "length H \<le> 1073741824"
    proof -
      have "datagram_of le_buf_api H data" using H(1) server_end(2) by blast
      then have "history_rel ?c H e1 []"
        unfolding e1 by (rule history_rel_input [OF new_engine_ok [OF v] history_rel_new [OF validate_core_config_ok [OF v] H(2)]])
      then have "history_rel ?c H ?e2 []" using history_rel_same [OF same_recv_set_conv] by simp
      then show ?thesis
        unfolding e by (rule history_rel_same [OF same_recv_flush [OF engine_okD(6) [OF ok3]] history_rel_same [OF same_recv_update [OF ok2]]])
    qed
    ultimately show ?thesis using v le.engine_ok_flush [OF ok3, of "clk 3"] e by blast
  qed
  then show "validate config = Ok ()" "engine_ok le_buf_api ?c e" "sender le_buf_api {} [] e"
    "\<forall>d\<in>X. datagram_of le_buf_api H d \<Longrightarrow> length H \<le> 1073741824 \<Longrightarrow> history_rel ?c H e []"
    by blast+
qed

lemma history_length: "\<forall>x\<in>set H. snd x \<noteq> [] \<Longrightarrow> length H \<le> length (concat (map snd H))"
proof (induction H)
  case (Cons x H)
  then have "1 \<le> length (snd x)" by (cases "snd x") auto
  then show ?case using Cons by simp
qed simp

lemma concat_filter_nonempty: "concat (filter (\<lambda>m. m \<noteq> []) xs) = concat xs"
  by (induction xs) auto

lemma member_le_concat: "x \<in> set xs \<Longrightarrow> length x \<le> length (concat xs)"
  by (simp add: length_concat member_le_sum_list)

text \<open>What one end delivers is a prefix of what the other end was given: of its bytes, and of its messages.\<close>

lemma delivered_prefix:
  assumes "endpoint UNIV config e" "run_engine_actor le_buf_api g v0 vs e = (s, f)"
    and "msgs = run_taken le_buf_api g vs (actor_start le_buf_api g v0 e)"
    and "\<forall>msg\<in>set msgs. length msg \<le> message_limit (KcpCoreConfig_from config)"
    and "length (concat msgs) \<le> 1073741824"
    and "endpoint (set (a_wire s)) config' e'" "run_engine_actor le_buf_api g' v0' ws e' = (r, f')"
    and "\<forall>w\<in>set ws. \<forall>data. v_packet w = Some (Some data) \<longrightarrow> data \<in> set (a_wire s)"
  shows "\<exists>rest. concat msgs = concat (a_delivered r) @ rest"
proof -
  let ?c' = "KcpCoreConfig_from config'"
  obtain H where H: "sending le_buf_api H (a_engine s)" "\<forall>d\<in>set (a_wire s). datagram_of le_buf_api H d"
    "concat (map snd (H @ map content (e_snd_queue (a_engine s)))) = concat msgs"
    by (rule byt_send.history_of_run [OF endpoint_engine(2,3) [OF assms(1)] _ assms(2-4)]) simp
  have "length H \<le> length (concat (map snd H))" using H(1) by (intro history_length) (simp add: sending_def)
  then have len: "length H \<le> 1073741824" using arg_cong [OF H(3), of length] assms(5) by simp
  note e' = endpoint_engine(2) [OF assms(6)]
  have "history_rel ?c' H (a_engine r) (a_delivered r)"
    using hst.run_keeps [OF e' endpoint_engine(4) [OF assms(6) H(2) len], of ws g' v0'] H(2) assms(7,8) by simp
  then obtain k where "concat (a_delivered r) = concat (map snd (take k H))" by (rule history_bound)
  then have "concat msgs = concat (a_delivered r) @ concat (map snd (drop k H))
      @ concat (map snd (map content (e_snd_queue (a_engine s))))"
    using H(3) concat_take_drop [of snd k H] by (metis append_assoc concat_append map_append)
  then show ?thesis by blast
qed

lemma grouped_history:
  assumes "sending B H e" "snd_queue_ok e" "grouped k msgs (H @ map content (e_snd_queue e))"
    and small: "length (concat msgs) \<le> 1073741824"
  obtains groups where "concat groups = H @ map content (e_snd_queue e)" "groups_of (nonempty msgs) groups"
    "\<forall>g\<in>set groups. length g \<le> k" "length H \<le> 1073741824"
proof -
  let ?Q = "map content (e_snd_queue e)" and ?ms = "nonempty msgs"
  obtain groups where g: "concat groups = H @ ?Q" "list_all2 fragments_of ?ms groups" "\<forall>g\<in>set groups. length g \<le> k"
    using assms(3) by (auto simp: grouped_def)
  have ne: "\<forall>x\<in>set (H @ ?Q). snd x \<noteq> []"
    using assms(1,2) by (auto simp: sending_def snd_queue_ok_def data_seg_ok_def content_def)
  have bytes: "concat (map snd (H @ ?Q)) = concat ?ms" using fragments_of_bytes [OF g(2)] g(1) by simp
  have len: "length (concat ?ms) \<le> 1073741824"
    using small unfolding nonempty_def by (simp only: concat_filter_nonempty)
  have "length H \<le> length (concat (map snd H))" using assms(1) by (intro history_length) (simp add: sending_def)
  then have "length H \<le> 1073741824" using arg_cong [OF bytes, of length] len by simp
  moreover have "length m < 2147483648" if "m \<in> set ?ms" for m
    using member_le_concat [OF that] len by simp
  then have "groups_of ?ms groups" using g ne by (simp add: groups_of_def nonempty_def)
  ultimately show thesis using that g by blast
qed

lemma delivered_messages:
  assumes "endpoint UNIV config e" "run_engine_actor le_buf_api g v0 vs e = (s, f)"
    and "msgs = run_taken le_buf_api g vs (actor_start le_buf_api g v0 e)"
    and "\<forall>msg\<in>set msgs. length msg \<le> message_limit (KcpCoreConfig_from config)"
    and "length (concat msgs) \<le> 1073741824"
    and "endpoint (set (a_wire s)) config' e'" "run_engine_actor le_buf_api g' v0' ws e' = (r, f')"
    and "\<forall>w\<in>set ws. \<forall>data. v_packet w = Some (Some data) \<longrightarrow> data \<in> set (a_wire s)"
    and "\<not> c_stream_mode (KcpCoreConfig_from config)"
  shows "\<exists>j. a_delivered r = take j (nonempty msgs)"
proof -
  let ?c = "KcpCoreConfig_from config" and ?c' = "KcpCoreConfig_from config'" and ?ms = "nonempty msgs"
  note e = endpoint_engine(2,3) [OF assms(1)] and e' = endpoint_engine(2) [OF assms(6)]
  have start: "\<not> c_stream_mode ?c \<and> grouped (frag_limit ?c) [] []" using assms(9) by (simp add: grouped_def nonempty_def)
  obtain H where H: "sending le_buf_api H (a_engine s)" "\<forall>d\<in>set (a_wire s). datagram_of le_buf_api H d"
    "grouped (frag_limit ?c) msgs (H @ map content (e_snd_queue (a_engine s)))"
    using msg_send.history_of_run [OF e start assms(2-4)] by blast
  have "actor_ok le_buf_api ?c (fst (run_engine_actor le_buf_api g v0 vs e))"
    unfolding run_engine_actor_def by (intro le.run_loop_ok le.actor_start_ok(1) e(1))
  then have "engine_ok le_buf_api ?c (a_engine s)" using assms(2) actor_okD by simp
  then have "snd_queue_ok (a_engine s)" using proto_invD engine_okD(3) by blast
  from grouped_history [OF H(1) this H(3) assms(5)] obtain groups where g:
    "concat groups = H @ map content (e_snd_queue (a_engine s))" "groups_of ?ms groups" "length H \<le> 1073741824" .
  have "messages_rel ?c' H ?ms groups e' []"
    using endpoint_engine(4) [OF assms(6) H(2) g(3)] g(1,2) unfolding messages_rel_def by (metis take0)
  from msgs.run_keeps [OF e' this, of ws g' v0'] show ?thesis
    using H(2) assms(7,8) by (simp add: messages_rel_def)
qed

section \<open>Properties\<close>

text \<open>
  C1. Reliable in-order delivery between two ends. Let one end, a client or a server, run its event loop over
  any events, and let the other end run its own over events whose packets are datagrams the first
  has handed to the network: any of them, in any order, any number of times, some never. Then the
  bytes the other end has delivered to its application are a prefix of the bytes the first end took from its
  application. The messages are within the limit of the engine, and fewer than \<open>2\<^sup>3\<^sup>0\<close> bytes are
  sent, so that sequence numbers do not come round while old datagrams are still in the network.
\<close>

theorem delivered_is_prefix_of_written:
  assumes "endpoint UNIV config e" "run_engine_actor le_buf_api g v0 vs e = (s, f)"
    and "msgs = run_taken le_buf_api g vs (actor_start le_buf_api g v0 e)"
    and "\<forall>msg\<in>set msgs. length msg \<le> message_limit (KcpCoreConfig_from config)"
    and "length (concat msgs) \<le> 1073741824"
    and "endpoint (set (a_wire s)) config' e'" "run_engine_actor le_buf_api g' v0' ws e' = (r, f')"
    and "\<forall>w\<in>set ws. \<forall>data. v_packet w = Some (Some data) \<longrightarrow> data \<in> set (a_wire s)"
  shows "\<exists>rest. concat msgs = concat (a_delivered r) @ rest"
  by (rule delivered_prefix [OF assms])

lemma start_queue:
  assumes "engine_ok le_buf_api c e"
  shows "send_queue_len (a_engine (actor_start le_buf_api g v e)) \<le> send_queue_len e"
  using update_queue_shorter [OF engine_okD(6) [OF assms]] backlog_updates(1,2)
  by (simp add: actor_start_def backlog_def) (simp add: send_queue_len_def)

text \<open>A client that is given one message, and a client that gets everything the first has sent.\<close>

definition hello_engine :: KcpEngine where
  "hello_engine = KcpEngine_new (\<lambda>_. 0) 7 (KcpCoreConfig_from KcpConfig_default)"

definition hello_run :: "actor \<times> flow" where
  "hello_run = run_engine_actor le_buf_api some_args quiet [quiet\<lparr>v_data := Some (Some [1, 2, 3])\<rparr>] hello_engine"

definition hello_reader :: "actor \<times> flow" where
  "hello_reader = run_engine_actor le_buf_api some_args quiet
     (map (\<lambda>d. quiet\<lparr>v_packet := Some (Some d)\<rparr>) (a_wire (fst hello_run))) hello_engine"

lemma hello_runs:
  "run_engine_actor le_buf_api some_args quiet [quiet\<lparr>v_data := Some (Some [1, 2, 3])\<rparr>] hello_engine =
     (fst hello_run, snd hello_run)"
  "run_engine_actor le_buf_api some_args quiet
     (map (\<lambda>d. quiet\<lparr>v_packet := Some (Some d)\<rparr>) (a_wire (fst hello_run))) hello_engine = (fst hello_reader, snd hello_reader)"
  by (simp_all add: hello_run_def hello_reader_def)

lemma hello_endpoint: "endpoint X KcpConfig_default hello_engine"
proof -
  have "new_with_conv (\<lambda>_. 0) 7 KcpConfig_default =
      Ok (hello_engine, stream_args KcpConfig_default, stream_value True KcpConfig_default)"
    by (simp add: new_with_conv_def default_validates start_def hello_engine_def)
  then show ?thesis by (rule client_end)
qed

lemma hello_taken:
  "run_taken le_buf_api some_args [quiet\<lparr>v_data := Some (Some [1, 2, 3])\<rparr>] (actor_start le_buf_api some_args quiet hello_engine)
     = [[1, 2, 3]]"
proof -
  let ?a = "actor_start le_buf_api some_args quiet hello_engine"
  let ?v = "quiet\<lparr>v_data := Some (Some [1, 2, 3])\<rparr>"
  have "send_queue_len (a_engine ?a) \<le> 0"
    using start_queue [OF endpoint_engine(2) [OF hello_endpoint], of some_args quiet]
    by (simp add: send_queue_len_def hello_engine_def KcpEngine_new_def Let_def)
  moreover have "\<not> a_send_closed ?a" "\<not> a_closing ?a"
    by (simp_all add: actor_start_def drain_recv_def flush_output_def drain_output_def split_def Let_def)
  ultimately have "select_branch some_args ?v ?a = Data (Some [1, 2, 3])"
    by (simp add: select_branch_def quiet_def some_args_def)
  then show ?thesis by (simp add: taken_def quiet_def split: prod.split flow.split)
qed

lemma hello_fits: "length [1, 2, 3 :: u8] \<le> message_limit (KcpCoreConfig_from KcpConfig_default)"
  by (simp add: message_limit_def KcpCoreConfig_from_def KcpConfig_default_def)

theorem delivered_is_prefix_of_written_witness:
  "\<exists>rest. [1, 2, 3] = concat (a_delivered (fst hello_reader)) @ rest"
proof -
  note run = hello_runs(1) and read = hello_runs(2)
  have "\<exists>rest. concat [[1, 2, 3]] = concat (a_delivered (fst hello_reader)) @ rest"
    by (rule delivered_is_prefix_of_written [OF hello_endpoint run hello_taken [symmetric] _ _ hello_endpoint read])
      (use hello_fits in auto)
  then show ?thesis by simp
qed

text \<open>
  C2. The byte stream from application to application. A writer uses its stream in any way (\<open>send\<close>,
  \<open>poll_write\<close>, close, drop); the event loop takes some of the messages that went into the channel, in order;
  the network carries datagrams as before; the other end's loop puts messages into its
  channel, and a reader reads some of them with any buffer sizes. Then the bytes it has read are a
  prefix of the bytes the writer was told were accepted.
\<close>

theorem read_bytes_are_prefix_of_written_bytes:
  assumes "endpoint UNIV config e" "run_engine_actor le_buf_api g v0 vs e = (s, f)"
    and "stream_step\<^sup>*\<^sup>* (stream_value task config) w"
    and "t_sent w = run_taken le_buf_api g vs (actor_start le_buf_api g v0 e) @ waiting"
    and "length (concat (t_sent w)) \<le> 1073741824"
    and "endpoint (set (a_wire s)) config' e'" "run_engine_actor le_buf_api g' v0' ws e' = (r, f')"
    and "\<forall>w\<in>set ws. \<forall>data. v_packet w = Some (Some data) \<longrightarrow> data \<in> set (a_wire s)"
    and "a_delivered r = snd (snd (read_run ps (stream_value task' config'))) @ unread"
  shows "\<exists>rest. concat (t_sent w) = fst (snd (read_run ps (stream_value task' config'))) @ rest"
proof -
  let ?msgs = "run_taken le_buf_api g vs (actor_start le_buf_api g v0 e)"
  let ?read = "read_run ps (stream_value task' config')"
  have "stream_ok (KcpCoreConfig_from config) w"
    using str.reachable_inv [of config "stream_value task config" w] endpoint_engine(1) [OF assms(1)] assms(3) by blast
  then have fit: "\<forall>msg\<in>set ?msgs. length msg \<le> message_limit (KcpCoreConfig_from config)"
    using assms(4) by (simp add: stream_ok_def)
  have "length (concat ?msgs) \<le> 1073741824" using assms(4,5) by simp
  then obtain rest where rest: "concat ?msgs = concat (a_delivered r) @ rest"
    using delivered_prefix [OF assms(1,2) refl fit _ assms(6-8)] by blast
  have "fst (snd ?read) @ t_read_buf (fst ?read) = concat (snd (snd ?read))"
    using read_run_bytes [of ps "stream_value task' config'"] by (simp add: stream_value_def)
  then have "concat (a_delivered r) = fst (snd ?read) @ t_read_buf (fst ?read) @ concat unread"
    using assms(9) by (metis append_assoc concat_append)
  then show ?thesis using rest assms(4) by simp
qed

theorem read_bytes_are_prefix_of_written_bytes_witness:
  "\<exists>rest. [1, 2, 3] = fst (snd (read_run (map (\<lambda>m. (2, Ready (Some m))) (take 1 (a_delivered (fst hello_reader))))
       (stream_value False KcpConfig_default))) @ rest"
proof -
  let ?w = "fst (stream_send True [1, 2, 3] (stream_value True KcpConfig_default))"
  let ?ps = "map (\<lambda>m. (2, Ready (Some m))) (take 1 (a_delivered (fst hello_reader)))"
  note run = hello_runs(1) and read = hello_runs(2)
  have step: "stream_step\<^sup>*\<^sup>* (stream_value True KcpConfig_default) ?w" by (intro r_into_rtranclp step_stream_send)
  have w: "t_sent ?w = [[1, 2, 3]]"
    by (simp add: stream_send_def stream_value_def stream_max_msg_def stream_mss_def KcpConfig_default_def saturating_sub_def)
  have sent: "t_sent ?w = run_taken le_buf_api some_args [quiet\<lparr>v_data := Some (Some [1, 2, 3])\<rparr>]
      (actor_start le_buf_api some_args quiet hello_engine) @ []"
    by (simp only: w hello_taken append_Nil2)
  have polled: "snd (snd (read_run (map (\<lambda>m. (2, Ready (Some m))) (take 1 xs)) (stream_value False KcpConfig_default))) = take 1 xs"
    for xs
    by (cases xs) (simp_all add: polled_message_def stream_value_def split_def Let_def)
  have del: "a_delivered (fst hello_reader) = snd (snd (read_run ?ps (stream_value False KcpConfig_default))) @
      drop 1 (a_delivered (fst hello_reader))"
    by (simp only: polled append_take_drop_id)
  have "\<exists>rest. concat (t_sent ?w) = fst (snd (read_run ?ps (stream_value False KcpConfig_default))) @ rest"
    by (rule read_bytes_are_prefix_of_written_bytes [OF hello_endpoint run step sent _ hello_endpoint read _ del])
      (use w in auto)
  then show ?thesis by (simp add: w)
qed

text \<open>
  C3. Message boundaries. When the sending end is not in stream mode, the messages that the other end has put into
  its application's channel are the first \<open>j\<close> of the non-empty messages its peer took from the writer:
  none is split, merged, repeated, skipped or reordered, although the network splits them into fragments, loses,
  repeats and reorders the datagrams, and the event loops run over any events.
\<close>

theorem delivered_messages_are_prefix_of_written:
  assumes "endpoint UNIV config e" "run_engine_actor le_buf_api g v0 vs e = (s, f)"
    and "msgs = run_taken le_buf_api g vs (actor_start le_buf_api g v0 e)"
    and "\<forall>msg\<in>set msgs. length msg \<le> message_limit (KcpCoreConfig_from config)"
    and "length (concat msgs) \<le> 1073741824"
    and "endpoint (set (a_wire s)) config' e'" "run_engine_actor le_buf_api g' v0' ws e' = (r, f')"
    and "\<forall>w\<in>set ws. \<forall>data. v_packet w = Some (Some data) \<longrightarrow> data \<in> set (a_wire s)"
    and "\<not> c_stream_mode (KcpCoreConfig_from config)"
  shows "\<exists>j. a_delivered r = take j (filter (\<lambda>m. m \<noteq> []) msgs)"
  using delivered_messages [OF assms] by (simp add: nonempty_def)

theorem delivered_messages_are_prefix_of_written_witness:
  "\<exists>j. a_delivered (fst hello_reader) = take j [[1, 2, 3]]"
proof -
  note run = hello_runs(1) and read = hello_runs(2)
  have mode: "\<not> c_stream_mode (KcpCoreConfig_from KcpConfig_default)"
    by (simp add: KcpCoreConfig_from_def KcpConfig_default_def)
  have "\<exists>j. a_delivered (fst hello_reader) = take j (filter (\<lambda>m. m \<noteq> []) [[1, 2, 3]])"
    by (rule delivered_messages_are_prefix_of_written
        [OF hello_endpoint run hello_taken [symmetric] _ _ hello_endpoint read _ mode]) (use hello_fits in auto)
  then show ?thesis by simp
qed

end
