(* ===== verification/Kcp_Reliability.thy ===== *)
theory Kcp_Reliability
  imports Kcp_Connection
begin

text \<open>
  Nothing is forgotten. Two engines exchange datagrams over a network that loses, repeats and reorders them;
  both send, receive, acknowledge and retransmit. In every state they reach, the sequence numbers one
  engine has given out are exactly those its peer holds and those it still keeps for
  retransmission: a segment leaves the send buffer only after the peer has got it. The condition on the
  runs is that neither side numbers more than \<open>2\<^sup>3\<^sup>0\<close> segments, so that numbers do not come round while old
  datagrams are in the network.
\<close>

section \<open>What a receiver holds\<close>

text \<open>The numbers that have been received: those below \<open>rcv_nxt\<close>, and those in the receive buffer.\<close>

definition holds :: "KcpEngine \<Rightarrow> SeqNum set" where
  "holds e = {..<e_rcv_nxt e} \<union> dom (bt_get (e_rcv_buf e))"

definition unacked :: "KcpEngine \<Rightarrow> SeqNum set" where
  "unacked e = s_sn ` set (e_snd_buf e)"

definition small :: "u32 \<Rightarrow> bool" where
  "small n \<longleftrightarrow> unat n \<le> 1073741824"

definition to_ack :: "KcpEngine \<Rightarrow> SeqNum set" where
  "to_ack e = fst ` set (e_ack_list e)"

definition kept :: "KcpEngine \<Rightarrow> (u8 \<times> SeqNum) set" where
  "kept e = (\<lambda>s. (h_cmd (s_header s), s_sn s)) ` set (e_snd_buf e)"

lemma unacked_kept: "unacked e = snd ` kept e"
  by (simp add: unacked_def kept_def to_ack_def image_image)

lemma holds_cong: "same_recv e e' \<Longrightarrow> holds e' = holds e"
  by (simp add: holds_def same_recv_def)

lemma small_mono: "small n \<Longrightarrow> m \<le> n \<Longrightarrow> small m"
  by (simp add: small_def word_le_nat_alt)

lemma seq_before_small: "small a \<Longrightarrow> unat b \<le> 2147483648 \<Longrightarrow> seq_before a b \<longleftrightarrow> a < b"
  using seq_before_base [of a 0 b] by (simp add: small_def word_less_nat_alt)

lemma below_Suc:
  assumes "(n :: u32) < m" shows "{..<n + 1} = insert n {..<n}"
proof -
  have "unat (n + 1) = unat n + 1"
    using assms u32_unat_bound [of m] by (simp add: unat_word_ariths word_less_nat_alt)
  then show ?thesis by (auto simp: word_less_nat_alt word_unat_eq_iff)
qed

text \<open>Moving segments to the receive queue changes nothing in what is held.\<close>

lemma holds_move:
  assumes "recv_inv e" "holds e \<subseteq> {..<N}"
  shows "holds (move_to_recv_queue e) = holds e" "e_rcv_nxt e \<le> e_rcv_nxt (move_to_recv_queue e)"
proof -
  have "bt_invar (e_rcv_buf e)" using assms(1) by (simp add: recv_inv_def)
  then have "holds e \<subseteq> {..<N} \<longrightarrow> holds (move_to_recv_queue e) = holds e \<and> e_rcv_nxt e \<le> e_rcv_nxt (move_to_recv_queue e)"
  proof (induction rule: move_induct)
    case (stop e)
    then show ?case by simp
  next
    case (step e seg e')
    let ?n = "e_rcv_nxt e"
    let ?e = "e\<lparr>e_rcv_buf := bt_remove ?n (e_rcv_buf e), e_rcv_queue := e_rcv_queue e @ [seg], e_rcv_nxt := ?n + 1\<rparr>"
    show ?case
    proof
      assume sub: "holds e \<subseteq> {..<N}"
      have "?n \<in> dom (bt_get (e_rcv_buf e))" using step(2) by blast
      then have less: "?n < N" using sub by (auto simp: holds_def)
      have same: "holds ?e = holds e"
        using step(2) by (auto simp: holds_def below_Suc [OF less] bt.get_rem [OF step(1)])
      moreover have "?n \<le> ?n + 1"
        using below_Suc [OF less] by (metis insertI1 lessThan_iff order_less_imp_le)
      ultimately show "holds e' = holds e \<and> e_rcv_nxt e \<le> e_rcv_nxt e'" using step(4) sub by auto
    qed
  qed
  then show "holds (move_to_recv_queue e) = holds e" "e_rcv_nxt e \<le> e_rcv_nxt (move_to_recv_queue e)"
    using assms(2) by blast+
qed

text \<open>A data segment below the window end is held afterwards.\<close>

lemma holds_parse_data:
  assumes inv: "recv_inv e" and sub: "holds e \<subseteq> {..<N}" and N: "small N" and sn: "s_sn seg < N"
    and wnd: "unat (w_rcv (e_wnd e)) \<le> 1073741824" and before: "seq_before (s_sn seg) (e_rcv_nxt e + w_rcv (e_wnd e))"
  shows "holds (parse_data seg e) = insert (s_sn seg) (holds e)" "e_rcv_nxt e \<le> e_rcv_nxt (parse_data seg e)"
proof -
  let ?sn = "s_sn seg" and ?n = "e_rcv_nxt e" and ?w = "w_rcv (e_wnd e)"
  have nN: "?n \<le> N" using sub by (auto simp: holds_def)
  have end_: "unat (?n + ?w) = unat ?n + unat ?w"
    using nN N wnd by (simp add: unat_word_ariths small_def word_le_nat_alt)
  have "?sn < ?n + ?w"
    using before seq_before_small [of ?sn "?n + ?w"] small_mono [OF N, of ?sn] sn nN N wnd end_
    by (simp add: small_def word_le_nat_alt word_less_nat_alt)
  then have in_window: "unat (?sn - ?n) < unat ?w" if "?n \<le> ?sn"
    using that end_ by (simp add: unat_sub word_less_nat_alt word_le_nat_alt)
  have w31: "unat ?w < 2147483648" using wnd by simp
  have out: "\<not> unat (?sn - ?n) < unat ?w" if "?sn < ?n"
  proof -
    have "unat (?sn - ?n) = 4294967296 - unat ?n + unat ?sn"
      using that u32_unat_bound [of ?n] by (simp add: unat_word_ariths unat_sub_if' word_less_nat_alt)
    then show ?thesis using nN N wnd by (simp add: small_def word_le_nat_alt)
  qed
  have "holds (parse_data seg e) = insert ?sn (holds e) \<and> ?n \<le> e_rcv_nxt (parse_data seg e)"
  proof (cases "?n \<le> ?sn")
    case True
    let ?e = "e\<lparr>e_rcv_buf := bt_or_insert ?sn seg (e_rcv_buf e)\<rparr>"
    note acc = in_window [OF True]
    have same: "holds ?e = insert ?sn (holds e)"
      using inv by (auto simp: holds_def recv_inv_def bt_get_or_insert split: if_splits option.splits)
    then have sub': "holds ?e \<subseteq> {..<N}" using sub sn by simp
    show ?thesis
      using holds_move [OF or_insert_recv_inv [OF inv acc] sub'] acc same by (simp_all add: parse_data_cases [OF w31])
  next
    case False
    then have "parse_data seg e = e" using out by (simp add: parse_data_cases [OF w31])
    then show ?thesis using False by (auto simp: holds_def)
  qed
  then show "holds (parse_data seg e) = insert ?sn (holds e)" "?n \<le> e_rcv_nxt (parse_data seg e)" by blast+
qed

section \<open>What one end tells the other\<close>

text \<open>
  What a segment that \<open>e\<close> emits says is true of \<open>e\<close>, then and later: the cumulative acknowledgement is below
  \<open>rcv_nxt\<close>, an acknowledged number is held, and a data segment carries a number \<open>e\<close> has given out.
\<close>

definition true_of :: "KcpEngine \<Rightarrow> KcpSegment \<Rightarrow> bool" where
  "true_of e s \<longleftrightarrow> h_una (s_header s) \<le> e_rcv_nxt e
     \<and> (h_cmd (s_header s) = IKCP_CMD_ACK \<longrightarrow> s_sn s \<in> holds e)
     \<and> (h_cmd (s_header s) = IKCP_CMD_PUSH \<longrightarrow> s_sn s < e_snd_nxt e)"

definition advances :: "KcpEngine \<Rightarrow> KcpEngine \<Rightarrow> bool" where
  "advances e e' \<longleftrightarrow> e_rcv_nxt e \<le> e_rcv_nxt e' \<and> holds e \<subseteq> holds e' \<and> e_snd_nxt e \<le> e_snd_nxt e'"

lemma true_of_advances: "advances e e' \<Longrightarrow> true_of e s \<Longrightarrow> true_of e' s"
  by (auto simp: advances_def true_of_def)

lemma true_of_received [simp]: "true_of e (received s) = true_of e s"
  by (simp add: true_of_def received_def)

text \<open>
  One segment from the peer \<open>f\<close>: a data segment below the window end is held and queued for acknowledgement;
  what leaves the send buffer is held by the peer.
\<close>

lemma process_segment_receives:
  assumes inv: "proto_inv (fst st)" and sub: "holds (fst st) \<subseteq> {..<e_snd_nxt f}" and small: "small (e_snd_nxt f)"
    and wnd: "unat (w_rcv (e_wnd (fst st))) \<le> 1073741824" and seg: "true_of f seg"
  shows "e_rcv_nxt (fst st) \<le> e_rcv_nxt (fst (process_segment k t seg st))
    \<and> holds (fst (process_segment k t seg st)) =
        holds (fst st) \<union> (if accepts_push seg (fst st) then {s_sn seg} else {})
    \<and> to_ack (fst (process_segment k t seg st)) =
        to_ack (fst st) \<union> (if accepts_push seg (fst st) then {s_sn seg} else {})"
proof (cases "accepts_push seg (fst st)")
  case True
  note same = process_segment_push [OF True, of k t]
  have "s_sn seg < e_snd_nxt f" using seg True by (simp add: true_of_def accepts_push_def)
  from holds_parse_data [OF proto_invD(2) [OF inv] sub small this wnd] True same show ?thesis
    by (simp add: accepts_push_def holds_def to_ack_def)
next
  case False
  then show ?thesis using process_segment_other [OF False, of k t] by (simp add: holds_def to_ack_def)
qed

lemma process_segment_releases:
  assumes inv: "proto_inv (fst st)" and sub: "unacked (fst st) \<subseteq> {..<N}" and N: "small N"
    and f: "holds f \<subseteq> {..<M}" "small M" and seg: "true_of f seg"
  shows "unacked (fst st) \<subseteq> unacked (fst (process_segment k t seg st)) \<union> holds f"
proof (cases "h_conv (s_header seg) = e_conv (fst st)")
  case True
  let ?e = "(fst st)\<lparr>e_wnd := (e_wnd (fst st))\<lparr>w_rmt := ucast (h_wnd (s_header seg))\<rparr>\<rparr>"
  let ?e1 = "parse_una (h_una (s_header seg)) ?e"
  have "e_rcv_nxt f \<le> M" using f(1) by (auto simp: holds_def)
  then have una: "h_una (s_header seg) \<le> e_rcv_nxt f" "unat (h_una (s_header seg)) \<le> 2147483648"
    using seg f(2) by (auto simp: true_of_def small_def word_le_nat_alt)
  have "s_sn s \<in> unacked ?e1 \<union> holds f" if s: "s \<in> set (e_snd_buf (fst st))" for s
  proof -
    have "small (s_sn s)" using small_mono [OF N] sub s by (force simp: unacked_def)
    then have "s \<in> set (una_loop (h_una (s_header seg)) (e_snd_buf (fst st))) \<or> s_sn s < h_una (s_header seg)"
      using s seq_before_small [OF _ una(2)] unfolding una_loop_dropWhile
      by (metis (no_types, lifting) Un_iff set_append set_takeWhileD takeWhile_dropWhile_id)
    then show ?thesis using una(1) by (auto simp: unacked_def parse_una_def holds_def)
  qed
  then have 1: "unacked (fst st) \<subseteq> unacked ?e1 \<union> holds f" by (auto simp: unacked_def)
  have inv1: "send_inv ?e1" by (intro proto_invD(1) parse_una_proto_inv proto_inv_rmt inv)
  then have "send_inv (update_ack i ?e1)" for i by (simp add: send_inv_def in_flight_def)
  then have 2: "unacked ?e1 \<subseteq> unacked (input_ack k t seg ?e1) \<union> holds f" if "h_cmd (s_header seg) = IKCP_CMD_ACK"
    using that seg inv1 by (auto simp: input_ack_def Let_def parse_ack_filter unacked_def true_of_def)
  have 3: "unacked (input_push seg ?e1) = unacked ?e1" "unacked (set_flag i ?e1) = unacked ?e1" for i
    by (simp_all add: unacked_def input_push_def ack_push_def Let_def)
  show ?thesis using 1 2 3 True by (auto simp: process_segment_def Let_def)
next
  case False
  then show ?thesis by (simp add: process_segment_def)
qed

text \<open>What input from the peer \<open>f\<close> does to an engine.\<close>

definition hears :: "KcpEngine \<Rightarrow> KcpEngine \<Rightarrow> KcpEngine \<Rightarrow> bool" where
  "hears f e e' \<longleftrightarrow> advances e e' \<and> e_snd_nxt e' = e_snd_nxt e
     \<and> holds e' \<subseteq> {..<e_snd_nxt f} \<and> to_ack e \<subseteq> to_ack e'
     \<and> to_ack e' \<subseteq> holds e'
     \<and> kept e' \<subseteq> kept e \<and> unacked e \<subseteq> unacked e' \<union> holds f"

lemma hears_trans: "hears f e e1 \<Longrightarrow> hears f e1 e2 \<Longrightarrow> hears f e e2"
  by (auto simp: hears_def advances_def)

definition receptive :: "KcpEngine \<Rightarrow> KcpEngine \<Rightarrow> bool" where
  "receptive f e \<longleftrightarrow> proto_inv e \<and> unat (w_rcv (e_wnd e)) \<le> 1073741824
     \<and> holds e \<subseteq> {..<e_snd_nxt f} \<and> small (e_snd_nxt f) \<and> to_ack e \<subseteq> holds e
     \<and> unacked e \<subseteq> {..<e_snd_nxt e} \<and> small (e_snd_nxt e) \<and> holds f \<subseteq> {..<e_snd_nxt e}"

lemma process_segment_hears:
  assumes r: "receptive f (fst st)" and seg: "true_of f seg"
  shows "hears f (fst st) (fst (process_segment k t seg st))" "receptive f (fst (process_segment k t seg st))"
proof -
  let ?st = "process_segment k t seg st"
  note r' = r [unfolded receptive_def]
  have receives: "e_rcv_nxt (fst st) \<le> e_rcv_nxt (fst ?st)"
    "holds (fst ?st) = holds (fst st) \<union> (if accepts_push seg (fst st) then {s_sn seg} else {})"
    "to_ack (fst ?st) = to_ack (fst st) \<union> (if accepts_push seg (fst st) then {s_sn seg} else {})"
    using process_segment_receives [of st f seg k t] r' seg by blast+
  have releases: "unacked (fst st) \<subseteq> unacked (fst ?st) \<union> holds f"
    using process_segment_releases [of st "e_snd_nxt (fst st)" f "e_snd_nxt (fst st)" seg k t] r' seg by blast
  have b: "e_snd_nxt (fst ?st) = e_snd_nxt (fst st)" "set (e_snd_buf (fst ?st)) \<subseteq> set (e_snd_buf (fst st))"
    using process_segment_send_fields [of st k t seg] r' by blast+
  have "holds (fst ?st) \<subseteq> {..<e_snd_nxt f}"
    using receives r' seg by (auto simp: accepts_push_def true_of_def split: if_splits)
  moreover have "kept (fst ?st) \<subseteq> kept (fst st)" "unacked (fst ?st) \<subseteq> unacked (fst st)"
    using b(2) by (auto simp: kept_def unacked_def)
  ultimately show "hears f (fst st) (fst ?st)" "receptive f (fst ?st)"
    using receives releases b(1) r' process_segment_proto_inv [of st k t seg]
    by (auto simp: hears_def advances_def receptive_def split: if_splits)
qed

lemma process_segments_hears:
  assumes "receptive f (fst st)" "\<forall>seg\<in>set segs. true_of f seg"
  shows "hears f (fst st) (fst (process_segments ring t i segs st))
    \<and> receptive f (fst (process_segments ring t i segs st))"
  using assms
proof (induction segs arbitrary: i st)
  case Nil
  then show ?case by (simp add: hears_def advances_def receptive_def)
next
  case (Cons seg segs)
  have "true_of f seg" using Cons.prems(2) by simp
  note s = process_segment_hears [OF Cons.prems(1) this, of "ring i" t]
  show ?case
    using hears_trans [OF s(1)] Cons.IH [OF s(2), of "Suc i"] Cons.prems(2) by simp
qed

lemma finish_input_kept:
  "kept (finish_input p st) = kept (fst st)" "e_snd_nxt (finish_input p st) = e_snd_nxt (fst st)"
proof -
  have "(\<lambda>s. (h_cmd (s_header s), s_sn s)) ` set (fastack_loop sn ts segs) = (\<lambda>s. (h_cmd (s_header s), s_sn s)) ` set segs"
    for sn ts segs
    by (induction segs) auto
  then show "kept (finish_input p st) = kept (fst st)" "e_snd_nxt (finish_input p st) = e_snd_nxt (fst st)"
    by (simp_all add: finish_input_def Let_def kept_def to_ack_def parse_fastack_def)
qed

text \<open>The numbers \<open>e\<close> has given out are those \<open>f\<close> holds and those \<open>e\<close> still keeps.\<close>

definition feeds :: "KcpEngine \<Rightarrow> KcpEngine \<Rightarrow> bool" where
  "feeds e f \<longleftrightarrow> {..<e_snd_nxt e} = holds f \<union> unacked e"

text \<open>An end that has put the datagrams \<open>X\<close> into the network.\<close>

definition end_ok :: "buf_api \<Rightarrow> KcpCoreConfig \<Rightarrow> bytes set \<Rightarrow> KcpEngine \<Rightarrow> bool" where
  "end_ok B c X e \<longleftrightarrow> engine_ok B c e \<and> core_config_ok c \<and> small (e_snd_nxt e)
     \<and> kept e \<subseteq> {IKCP_CMD_PUSH} \<times> {..<e_snd_nxt e} \<and> to_ack e \<subseteq> holds e
     \<and> output_made_of B (true_of e) e \<and> (\<forall>d\<in>X. made_of B (true_of e) d)"

lemma end_okD:
  assumes "end_ok B c X e"
  shows "engine_ok B c e" "core_config_ok c" "small (e_snd_nxt e)" "unacked e \<subseteq> {..<e_snd_nxt e}"
    "\<forall>s\<in>set (e_snd_buf e). h_cmd (s_header s) = IKCP_CMD_PUSH" "to_ack e \<subseteq> holds e"
    "output_made_of B (true_of e) e" "\<forall>d\<in>X. made_of B (true_of e) d" "unat (w_rcv (e_wnd e)) \<le> 1073741824"
  using assms engine_okD(9) [of B c e]
  by (auto simp: end_ok_def unacked_kept kept_def to_ack_def core_config_ok_def word_le_nat_alt)

text \<open>What every operation has to show: it advances, and its new output is true.\<close>

lemma end_ok_step:
  assumes "end_ok B c X e" "engine_ok B c e'" "advances e e'" "small (e_snd_nxt e')"
    and "kept e' \<subseteq> {IKCP_CMD_PUSH} \<times> {..<e_snd_nxt e'}" "to_ack e' \<subseteq> holds e'" "output_made_of B (true_of e') e'"
  shows "end_ok B c X e'"
proof -
  have "made_of B (true_of e') d" if "d \<in> X" for d
    by (rule made_of_mono [OF bspec [OF end_okD(8) [OF assms(1)] that] true_of_advances [OF assms(3)]])
  then show ?thesis using assms(2,4-7) end_okD(2) [OF assms(1)] by (simp add: end_ok_def)
qed

definition linked :: "buf_api \<Rightarrow> KcpCoreConfig \<Rightarrow> bytes set \<Rightarrow> KcpEngine \<Rightarrow> KcpEngine \<Rightarrow> bool" where
  "linked B c X e f \<longleftrightarrow> end_ok B c X e \<and> feeds e f \<and> feeds f e"

text \<open>Input starts from a receptive engine.\<close>

lemma linked_receptive:
  assumes "linked B c X e f" "small (e_snd_nxt f)"
  shows "receptive f (e\<lparr>e_last_activity := t\<rparr>)"
proof -
  have ok: "end_ok B c X e" "feeds e f" "feeds f e" using assms(1) by (simp_all add: linked_def)
  have same: "holds (e\<lparr>e_last_activity := t\<rparr>) = holds e" "to_ack (e\<lparr>e_last_activity := t\<rparr>) = to_ack e"
    "unacked (e\<lparr>e_last_activity := t\<rparr>) = unacked e"
    by (simp_all add: holds_def unacked_def to_ack_def)
  have "holds e \<subseteq> {..<e_snd_nxt f}" "holds f \<subseteq> {..<e_snd_nxt e}" using ok(2,3) unfolding feeds_def by blast+
  then show ?thesis
    using engine_okD(3) [OF end_okD(1) [OF ok(1)]] end_okD(3,4,6,9) [OF ok(1)] assms(2)
    by (simp add: receptive_def same)
qed

context buf_codec
begin

lemma input_hears:
  assumes l: "linked B c X e f" and f: "small (e_snd_nxt f)" and data: "made_of B (true_of f) data"
  shows "hears f e (fst (input B ring clk data e))"
proof -
  let ?st = "(e\<lparr>e_last_activity := clk 0\<rparr>, no_acks)"
  let ?r = "process_segments ring (clk 0) 0 (packet_segments B data) ?st"
  have same: "holds (fst ?st) = holds e" "to_ack (fst ?st) = to_ack e" "unacked (fst ?st) = unacked e" "kept (fst ?st) = kept e"
    by (simp_all add: holds_def unacked_def kept_def to_ack_def)
  have rec: "receptive f (fst ?st)" using linked_receptive [OF l f] by simp
  have "\<forall>seg\<in>set (packet_segments B data). true_of f seg"
    using made_of_segments [OF data] by (metis true_of_received)
  then have h: "hears f (fst ?st) (fst ?r)" using process_segments_hears [OF rec] by blast
  have after: "holds (count_packet (finish_input p st)) = holds (fst st)"
    "kept (count_packet (finish_input p st)) = kept (fst st)"
    "to_ack (count_packet (finish_input p st)) = to_ack (fst st)"
    "e_rcv_nxt (count_packet (finish_input p st)) = e_rcv_nxt (fst st)"
    "e_snd_nxt (count_packet (finish_input p st)) = e_snd_nxt (fst st)" for p st
    using finish_input_kept [of p st] by (simp_all add: holds_def count_packet_def kept_def to_ack_def)
  show ?thesis
    using h rec same after by (simp add: input_eq hears_def advances_def receptive_def unacked_kept)
qed

end

section \<open>Operations\<close>

lemma linkedD:
  assumes "linked B c X e f"
  shows "end_ok B c X e" "feeds e f" "feeds f e" "engine_ok B c e" "holds e \<subseteq> {..<e_snd_nxt f}"
    "holds f \<subseteq> {..<e_snd_nxt e}"
  using assms end_okD(1) by (auto simp: linked_def feeds_def)

lemma linked_hears:
  assumes l: "linked B c X e f" and h: "hears f e e'" and "engine_ok B c e'"
    and "e_output_queue e' = e_output_queue e" "e_out_buf e' = e_out_buf e"
  shows "linked B c X e' f"
proof -
  note ok = linkedD [OF l]
  have adv: "advances e e'" "e_snd_nxt e' = e_snd_nxt e" and h': "holds e \<subseteq> holds e'" "holds e' \<subseteq> {..<e_snd_nxt f}"
    "to_ack e' \<subseteq> holds e'" "kept e' \<subseteq> kept e" "unacked e' \<subseteq> unacked e" "unacked e \<subseteq> unacked e' \<union> holds f"
    using h by (auto simp: hears_def advances_def unacked_kept)
  have "output_made_of B (true_of e') e'"
    using output_made_of_mono [OF end_okD(7) [OF ok(1)] true_of_advances [OF adv(1)]] output_made_of_cong [OF assms(4,5)]
    by simp
  then have "end_ok B c X e'"
    using ok(1) adv h' assms(3) by (intro end_ok_step [OF ok(1)]) (auto simp: end_ok_def)
  moreover have "feeds e' f" "feeds f e'" using ok(2,3) adv(2) h' unfolding feeds_def by auto
  ultimately show ?thesis by (simp add: linked_def)
qed

lemma linked_same:
  assumes l: "linked B c X e f" and same: "same_recv e e'" "e_snd_nxt e' = e_snd_nxt e" "e_snd_buf e' = e_snd_buf e"
    "e_ack_list e' = e_ack_list e" and "engine_ok B c e'"
    and "e_output_queue e' = e_output_queue e" "e_out_buf e' = e_out_buf e"
  shows "linked B c X e' f"
proof (rule linked_hears [OF l _ assms(6-)])
  show "hears f e e'"
    using same holds_cong [OF same(1)] linkedD(5) [OF l] end_okD(6) [OF linkedD(1) [OF l]]
    by (simp add: hears_def advances_def kept_def to_ack_def unacked_def same_recv_def)
qed

lemma linked_send:
  assumes l: "linked B c X e f" shows "linked B c X (fst (send clk data e)) f"
proof (rule linked_same [OF l same_recv_send])
  show "engine_ok B c (fst (send clk data e))" by (rule engine_ok_send [OF linkedD(4) [OF l]])
qed (use send_frame [of e clk data] in \<open>auto simp: same_but_queue_def\<close>)

lemma linked_set_conv: "linked B c X e f \<Longrightarrow> linked B c X (set_conv conv e) f"
proof -
  assume l: "linked B c X e f"
  have "hears f e (set_conv conv e)"
    using linkedD(5) [OF l] end_okD(6) [OF linkedD(1) [OF l]]
    by (auto simp: hears_def advances_def kept_def to_ack_def unacked_def holds_def set_conv_def)
  from linked_hears [OF l this] show ?thesis
    using set_conv_ok [OF linkedD(4) [OF l]] by (simp add: set_conv_def)
qed

lemma holds_recv:
  assumes inv: "recv_inv e" and sub: "holds e \<subseteq> {..<N}"
  shows "holds (fst (recv e)) = holds e" "e_rcv_nxt e \<le> e_rcv_nxt (fst (recv e))"
proof -
  have "e_rcv_nxt e \<le> e_rcv_nxt (fst (recv e)) \<and> holds (fst (recv e)) = holds e"
  proof (cases rule: recv_takes [of e])
    case (none j)
    then show ?thesis by (simp add: holds_def)
  next
    case (some j)
    let ?e = "e\<lparr>e_rcv_queue := drop j (e_rcv_queue e), e_stats := (e_stats e)\<lparr>st_bytes_received :=
       st_bytes_received (e_stats e) + word_of_nat (length (payload (take j (e_rcv_queue e))))\<rparr>\<rparr>"
    have "holds ?e \<subseteq> {..<N}" using sub by (simp add: holds_def)
    moreover have "recv_inv ?e" by (rule recv_inv_shorter(1) [OF inv]) simp
    ultimately have "holds (move_to_recv_queue ?e) = holds e" "e_rcv_nxt e \<le> e_rcv_nxt (move_to_recv_queue ?e)"
      using holds_move [of ?e] by (simp_all add: holds_def)
    then show ?thesis
      unfolding some(2) after_recv_def Let_def fst_conv by (simp add: holds_def)
  qed
  then show "holds (fst (recv e)) = holds e" "e_rcv_nxt e \<le> e_rcv_nxt (fst (recv e))" by blast+
qed

lemma linked_recv:
  assumes l: "linked B c X e f" shows "linked B c X (fst (recv e)) f"
proof -
  have "hears f e (fst (recv e))"
    using holds_recv [OF engine_okD(7) [OF linkedD(4) [OF l]] linkedD(5) [OF l]] linkedD(5) [OF l] end_okD(6) [OF linkedD(1) [OF l]]
    by (simp add: hears_def advances_def kept_def to_ack_def unacked_def recv_other_fields)
  from linked_hears [OF l this engine_ok_recv [OF linkedD(4) [OF l]]] show ?thesis by (simp add: recv_other_fields)
qed

lemma linked_drain_output:
  assumes l: "linked B c X e f" and D: "D \<subseteq> set (e_output_queue e)"
  shows "linked B c (X \<union> D) (snd (drain_output e)) f"
proof -
  let ?e = "snd (drain_output e)"
  have "holds ?e = holds e" "kept ?e = kept e" "to_ack ?e = to_ack e" "advances e ?e" "unacked ?e = unacked e"
    "true_of ?e = true_of e"
    by (auto simp: drain_output_def holds_def kept_def to_ack_def advances_def unacked_def true_of_def fun_eq_iff)
  then show ?thesis
    using l engine_ok_drain [OF linkedD(4) [OF l]] D
    by (auto simp: linked_def end_ok_def feeds_def drain_output_def output_made_of_def)
qed

context buf_codec
begin

lemma linked_input:
  assumes l: "linked B c X e f" and f: "small (e_snd_nxt f)" and "made_of B (true_of f) data"
  shows "linked B c X (fst (input B ring clk data e)) f"
proof (rule linked_hears [OF l input_hears [OF l f assms(3)] engine_ok_input [OF linkedD(4) [OF l]]])
  show "e_output_queue (fst (input B ring clk data e)) = e_output_queue e" "e_out_buf (fst (input B ring clk data e)) = e_out_buf e"
    by (auto simp: input_eq count_packet_def finish_input_def Let_def process_segments_output_fields)
qed

end

section \<open>Flushing\<close>

text \<open>The numbers a flush gives out follow \<open>snd_nxt\<close> without a gap.\<close>

lemma numbered_kept:
  assumes "unat (e_snd_nxt e) + length segs < 4294967296"
  shows "(\<lambda>s. (h_cmd (s_header s), s_sn s)) ` set (numbered now e segs) =
    {IKCP_CMD_PUSH} \<times> {e_snd_nxt e..<e_snd_nxt e + word_of_nat (length segs)}"
  using assms
proof (induction segs arbitrary: e)
  case (Cons seg segs)
  let ?n = "e_snd_nxt e" and ?e = "e\<lparr>e_snd_nxt := e_snd_nxt e + 1\<rparr>"
  have len: "unat (word_of_nat (length segs) :: u32) = length segs" "unat (1 + word_of_nat (length segs) :: u32) = 1 + length segs"
    using Cons.prems by (simp_all add: unat_word_of_nat_u32 unat_word_ariths)
  have n: "unat (?n + 1) = unat ?n + 1" using Cons.prems by (simp add: unat_word_ariths)
  have "unat (?n + (1 + word_of_nat (length segs))) = unat ?n + (1 + length segs)"
    "unat (?n + 1 + word_of_nat (length segs)) = unat ?n + 1 + length segs"
    using Cons.prems len n by (simp_all add: unat_word_ariths)
  then have "{?n..<?n + (1 + word_of_nat (length segs))} = insert ?n {?n + 1..<?n + 1 + word_of_nat (length segs)}"
    using n by (auto simp: word_less_nat_alt word_le_nat_alt word_unat_eq_iff)
  moreover have "(\<lambda>s. (h_cmd (s_header s), s_sn s)) ` set (numbered now ?e segs) =
      {IKCP_CMD_PUSH} \<times> {?n + 1..<?n + 1 + word_of_nat (length segs)}"
    using Cons.IH [of ?e] Cons.prems n by simp
  ultimately show ?case by (simp add: number_segment_def)
qed simp

lemma flush_kept:
  assumes inv: "send_inv e" and small: "small (e_snd_nxt e)"
  shows "e_snd_nxt e \<le> e_snd_nxt (fst (flush B clk e))"
    "kept (fst (flush B clk e)) = kept e \<union> {IKCP_CMD_PUSH} \<times> {e_snd_nxt e..<e_snd_nxt (fst (flush B clk e))}"
    "kept (move_to_send_buf (clk 0) e) = kept (fst (flush B clk e))"
proof -
  note eff = flush_effects [where B = B and clk = clk, OF inv]
  note mv = move_to_send_buf_eq [OF inv]
  let ?n = "e_snd_nxt e" and ?k = "move_count e"
  have k: "?k < 2147483648" using move_count_le(2) [OF inv] inv by (simp add: send_inv_def)
  have len: "length (take ?k (e_snd_queue e)) = ?k" using move_count_le(3) [OF inv] by simp
  have "unat (?n + word_of_nat ?k) = unat ?n + ?k"
    using k small by (simp add: unat_word_ariths unat_word_of_nat_u32 small_def)
  then show "?n \<le> e_snd_nxt (fst (flush B clk e))" by (simp add: eff(4) mv word_le_nat_alt)
  have "(\<lambda>s. (h_cmd (s_header s), s_sn s)) ` set (marked e1 t r x b) = (\<lambda>s. (h_cmd (s_header s), s_sn s)) ` set b" for e1 t r x b
    by (simp add: image_image)
  then show same: "kept (move_to_send_buf (clk 0) e) = kept (fst (flush B clk e))"
    by (simp add: kept_def to_ack_def eff(2))
  have "unat ?n + length (take ?k (e_snd_queue e)) < 4294967296" using k small len by (simp add: small_def)
  from numbered_kept [OF this] show "kept (fst (flush B clk e)) = kept e \<union> {IKCP_CMD_PUSH} \<times> {?n..<e_snd_nxt (fst (flush B clk e))}"
    unfolding same [symmetric] using move_count_le(3) [OF inv]
    by (simp add: kept_def to_ack_def mv eff(4) image_Un min_absorb2)
qed

lemma sent_segment_una:
  "snd (mark_segment e now r x s) \<noteq> Keep \<Longrightarrow> h_una (s_header (fst (mark_segment e now r x s))) = e_rcv_nxt e"
  by (auto simp: mark_segment_def stamp_def Let_def split: if_splits)

lemma ack_segs_tell:
  "s \<in> set (ack_segs clk i conv wnd una acks) \<Longrightarrow>
   h_una (s_header s) = una \<and> h_cmd (s_header s) = IKCP_CMD_ACK \<and> s_sn s \<in> fst ` set acks"
  by (induction acks arbitrary: i)
    (auto simp: make_ack_def KcpSegment_ack_def KcpSegment_new_def KcpHeader_new_def Let_def)

lemma pass_probes_tell:
  "s \<in> set (pass_probes clk e) \<Longrightarrow> h_una (s_header s) = e_rcv_nxt e \<and> h_cmd (s_header s) \<in> {IKCP_CMD_WASK, IKCP_CMD_WINS}"
  by (auto simp: pass_probes_def create_probe_segment_def KcpSegment_new_def KcpHeader_new_def Let_def split: if_splits)

text \<open>Everything a flush emits is true.\<close>

lemma pass_segments_true:
  assumes ok: "end_ok B c X e" and s: "s \<in> set (pass_segments clk e)"
  shows "true_of (fst (flush B clk e)) s"
proof -
  note inv = engine_okD(6) [OF end_okD(1) [OF ok]]
  let ?e' = "fst (flush B clk e)" and ?e1 = "move_to_send_buf (clk 0) e"
  note eff = flush_effects [where B = B and clk = clk, OF inv]
  note k = flush_kept [where B = B and clk = clk, OF inv end_okD(3) [OF ok]]
  have held: "holds ?e' = holds e" by (rule holds_cong [OF same_recv_flush [OF inv]])
  have kept: "kept ?e' \<subseteq> {IKCP_CMD_PUSH} \<times> {..<e_snd_nxt ?e'}"
    using k(1,2) ok by (auto simp: end_ok_def)
  consider "s \<in> set (pass_acks clk e)" | "s \<in> set (pass_probes clk e)" | "s \<in> set (pass_selected (clk 0) ?e1)"
    using s upto_dead_subset by (auto simp: pass_segments_def)
  then show ?thesis
  proof cases
    case 1
    then have "h_una (s_header s) = e_rcv_nxt e \<and> h_cmd (s_header s) = IKCP_CMD_ACK \<and> s_sn s \<in> to_ack e"
      unfolding pass_acks_def to_ack_def by (rule ack_segs_tell)
    then show ?thesis using end_okD(6) [OF ok] by (auto simp: true_of_def eff(10) held)
  next
    case 2
    then show ?thesis using pass_probes_tell [of s clk e] by (auto simp: true_of_def eff(10))
  next
    case 3
    then obtain s0 where s0: "s0 \<in> set (e_snd_buf ?e1)" "s = fst (mark_segment ?e1 (clk 0) (resend_limit ?e1) (rto_slack ?e1) s0)"
      "snd (mark_segment ?e1 (clk 0) (resend_limit ?e1) (rto_slack ?e1) s0) \<noteq> Keep"
      by (auto simp: pass_selected_def selected_def)
    then have "(h_cmd (s_header s), s_sn s) \<in> kept ?e1" by (auto simp: kept_def to_ack_def intro!: image_eqI [of _ _ s0])
    then have "h_cmd (s_header s) = IKCP_CMD_PUSH \<and> s_sn s < e_snd_nxt ?e'" using kept unfolding k(3) by auto
    moreover have "h_una (s_header s) = e_rcv_nxt e"
      using sent_segment_una [OF s0(3)] s0(2) by (simp add: move_to_send_buf_eq [OF inv])
    ultimately show ?thesis by (simp add: true_of_def eff(10))
  qed
qed

context buf_codec
begin

lemma linked_flush:
  assumes l: "linked B c X e f" and small: "small (e_snd_nxt (fst (flush B clk e)))"
  shows "linked B c X (fst (flush B clk e)) f"
proof -
  let ?e' = "fst (flush B clk e)"
  note ok = linkedD(1) [OF l] and eng = linkedD(4) [OF l]
  note inv = engine_okD(6) [OF eng]
  note k = flush_kept [where B = B and clk = clk, OF inv end_okD(3) [OF ok]]
  note eff = flush_effects [where B = B and clk = clk, OF inv]
  have held: "holds ?e' = holds e" by (rule holds_cong [OF same_recv_flush [OF inv]])
  have adv: "advances e ?e'" using k(1) by (simp add: advances_def held eff(10))
  have "output_made_of B (true_of ?e') ?e'"
    using output_made_of_mono [OF end_okD(7) [OF ok] true_of_advances [OF adv]] pass_segments_true [OF ok]
    by (intro flush_made_of [OF eng]) simp_all
  moreover have "kept ?e' \<subseteq> {IKCP_CMD_PUSH} \<times> {..<e_snd_nxt ?e'}" using k(1,2) ok by (auto simp: end_ok_def)
  ultimately have "end_ok B c X ?e'"
    by (intro end_ok_step [OF ok engine_ok_flush [OF eng] adv small]) (simp_all add: eff(16) to_ack_def)
  moreover have "{..<e_snd_nxt ?e'} = {..<e_snd_nxt e} \<union> {e_snd_nxt e..<e_snd_nxt ?e'}" using k(1) by auto
  then have "feeds ?e' f"
    using linkedD(2) [OF l] by (simp add: feeds_def unacked_kept k(2) image_Un Un_assoc)
  moreover have "feeds f ?e'" using linkedD(3) [OF l] by (simp add: feeds_def held)
  ultimately show ?thesis by (simp add: linked_def)
qed

lemma linked_update:
  assumes l: "linked B c X e f" and small: "small (e_snd_nxt (fst (update B clk e)))"
  shows "linked B c X (fst (update B clk e)) f"
proof -
  have base: "linked B c X (e\<lparr>e_last_update := t\<rparr>) f" for t
    using engine_ok_last_update [OF linkedD(4) [OF l]] by (intro linked_same [OF l]) (simp_all add: same_recv_def)
  show ?thesis using small linked_flush [OF base] base by (cases rule: update_cases [of B clk e]) simp_all
qed

lemma linked_keep_alive:
  assumes l: "linked B c X e f" and small: "small (e_snd_nxt (fst (keep_alive_probe B clk e)))"
  shows "linked B c X (fst (keep_alive_probe B clk e)) f"
proof -
  let ?e = "e\<lparr>e_probe := (e_probe e)\<lparr>p_flags := p_flags (e_probe e) OR IKCP_ASK_SEND\<rparr>\<rparr>"
  have "linked B c X ?e f"
    using linkedD(4) [OF l] engine_inv_cong [of B e ?e]
    by (intro linked_same [OF l]) (simp_all add: same_recv_def engine_ok_def)
  from linked_flush [OF this] small show ?thesis by (simp add: keep_alive_probe_def)
qed

end

end
