(* ===== verification/Kcp_Link.thy ===== *)
theory Kcp_Link
  imports Kcp_Reliability
begin

text \<open>
  Two ends and a network. The calls of two engines, and the turns of two event loops, interleave in any
  way; a datagram that either end has put into the network may arrive at the other any number of times,
  at any later moment, or never. In every state so reached the invariant \<open>linked\<close> holds in both
  directions, as long as each side has taken at most \<open>2\<^sup>3\<^sup>0\<close> bytes from its application.
\<close>

section \<open>Numbers given out and bytes taken\<close>

text \<open>Every number given out, and every byte in the send queue, comes from a byte taken from the application.\<close>

definition counted :: "peer \<Rightarrow> bool" where
  "counted p \<longleftrightarrow> unat (e_snd_nxt (p_engine p)) + length (queue_bytes (p_engine p)) \<le> length (concat (p_taken p))"

lemma send_queue_bytes_le:
  assumes "mtu_ok e" "snd_queue_ok e"
  shows "length (queue_bytes (fst (send clk data e))) \<le> length (queue_bytes e) + length data"
proof (cases "snd (send clk data e)")
  case (Inr u)
  then show ?thesis using send_appends [OF assms, of clk data] by simp
next
  case (Inl r)
  then have ne: "data \<noteq> []" by (auto simp: send_def Let_def)
  have base: "queue_bytes (e\<lparr>e_last_activity := t\<rparr>) = queue_bytes e" for t by (simp add: queue_bytes_def)
  note m = mss_pos [OF assms(1)]
  from assms(1) ne show ?thesis
  proof (cases rule: send_cases [where clk = clk])
    case (merged e')
    then show ?thesis using Inl by simp
  next
    case (extended e' rest n)
    obtain x where x: "send_fragments clk (unat (mss e)) rest e' = (x, Err r)" using extended(3) Inl by (metis prod.collapse)
    then have "queue_bytes (fst (send clk data e)) = queue_bytes e @ take n data"
      using send_fragments_Err [OF m extended(2) x] stream_merge_SomeD [OF extended(1)] extended(3) base by simp
    then show ?thesis by simp
  next
    case plain
    obtain x where x: "send_fragments clk (unat (mss e)) data (e\<lparr>e_last_activity := clk 0\<rparr>) = (x, Err r)"
      using plain(2) Inl by (metis prod.collapse)
    then show ?thesis using send_fragments_Err [OF m ne x] plain(2) base by simp
  qed
qed

text \<open>A flush gives out at most one number for each byte that leaves the queue.\<close>

lemma length_le_bytes: "\<forall>s\<in>set segs. s_data s \<noteq> [] \<Longrightarrow> length segs \<le> length (concat (map s_data segs))"
proof (induction segs)
  case (Cons s segs)
  then have "1 \<le> length (s_data s)" by (cases "s_data s") auto
  then show ?case using Cons by simp
qed simp

lemma flush_counts:
  assumes "send_inv e" "snd_queue_ok e"
  shows "unat (e_snd_nxt (fst (flush B clk e))) + length (queue_bytes (fst (flush B clk e)))
    \<le> unat (e_snd_nxt e) + length (queue_bytes e)"
proof -
  note mv = move_to_send_buf_eq [OF assms(1)] and eff = flush_effects [where B = B and clk = clk, OF assms(1)]
  let ?k = "move_count e" and ?q = "e_snd_queue e"
  have "unat (e_snd_nxt e + word_of_nat ?k) \<le> unat (e_snd_nxt e) + ?k"
    by (simp add: unat_word_ariths unat_of_nat)
  moreover have "\<forall>s\<in>set (take ?k ?q). s_data s \<noteq> []"
    using assms(2) in_set_takeD by (fastforce simp: snd_queue_ok_def data_seg_ok_def)
  from length_le_bytes [OF this] have "?k \<le> length (concat (map s_data (take ?k ?q)))"
    using move_count_le(3) [OF assms(1)] by simp
  moreover have "queue_bytes e = concat (map s_data (take ?k ?q)) @ concat (map s_data (drop ?k ?q))"
    unfolding queue_bytes_def by (metis append_take_drop_id concat_append map_append)
  then have "length (queue_bytes e) =
      length (concat (map s_data (take ?k ?q))) + length (queue_bytes (fst (flush B clk e)))"
    by (simp add: queue_bytes_def eff(3) mv)
  ultimately show ?thesis by (simp add: eff(4) mv)
qed

lemma update_counts:
  assumes "send_inv e" "snd_queue_ok e"
  shows "unat (e_snd_nxt (fst (update B clk e))) + length (queue_bytes (fst (update B clk e)))
    \<le> unat (e_snd_nxt e) + length (queue_bytes e)"
proof -
  have "send_inv (e\<lparr>e_last_update := t\<rparr>)" "snd_queue_ok (e\<lparr>e_last_update := t\<rparr>)" for t
    using assms snd_queue_ok_cong [of "e\<lparr>e_last_update := t\<rparr>" e] by simp_all
  note flushed = flush_counts [where B = B, OF this]
  show ?thesis
  proof (cases rule: update_cases [of B clk e])
    case (tick t)
    then show ?thesis by (simp add: queue_bytes_def)
  next
    case (pass clk' t)
    then show ?thesis using flushed [of clk' t] by (simp add: queue_bytes_def)
  qed
qed

lemma keep_alive_counts:
  assumes "send_inv e" "snd_queue_ok e"
  shows "unat (e_snd_nxt (fst (keep_alive_probe B clk e))) + length (queue_bytes (fst (keep_alive_probe B clk e)))
    \<le> unat (e_snd_nxt e) + length (queue_bytes e)"
proof -
  let ?e = "e\<lparr>e_probe := (e_probe e)\<lparr>p_flags := p_flags (e_probe e) OR IKCP_ASK_SEND\<rparr>\<rparr>"
  have "send_inv ?e" "snd_queue_ok ?e"
    using assms snd_queue_ok_cong [of ?e e] by (simp_all add: send_inv_def in_flight_def)
  from flush_counts [where B = B and clk = clk, OF this] show ?thesis by (simp add: keep_alive_probe_def queue_bytes_def)
qed

context buf_codec
begin

lemma counted_step:
  assumes ok: "engine_ok B c (p_engine p)" and "counted p" "peer_step B A p p'"
  shows "counted p'"
proof -
  note queue = proto_invD(8) [OF engine_okD(3) [OF ok]]
  from assms(3) show ?thesis
  proof (cases rule: peer_stepE)
    case (peer_send data clk)
    have "e_snd_nxt (fst (send clk data (p_engine p))) = e_snd_nxt (p_engine p)"
      using send_frame [of "p_engine p" clk data] by (auto simp: same_but_queue_def)
    then show ?thesis
      using send_queue_bytes_le [OF engine_okD(8) [OF ok] queue, of clk data] assms(2) peer_send
      by (simp add: counted_def)
  next
    case peer_recv
    then show ?thesis using assms(2) by (simp add: counted_def queue_bytes_def recv_other_fields)
  next
    case (peer_input data ring clk)
    then show ?thesis using assms(2) input_snd_nxt [OF engine_okD(3) [OF ok]]
      by (simp add: counted_def queue_bytes_def input_snd_queue)
  qed (use assms(2) le_trans [OF flush_counts [OF engine_okD(6) [OF ok] queue]] le_trans [OF update_counts [OF engine_okD(6) [OF ok] queue]]
      le_trans [OF keep_alive_counts [OF engine_okD(6) [OF ok] queue]] in
      \<open>simp_all add: counted_def set_conv_def drain_output_def, simp_all add: queue_bytes_def\<close>)
qed

end

section \<open>Steps of the pair\<close>

text \<open>A step of one end. What arrives is a datagram that the other end has ever put into the network.\<close>

abbreviation sent_by :: "peer \<Rightarrow> KcpEngine \<Rightarrow> bytes \<Rightarrow> bool" where
  "sent_by p \<equiv> \<lambda>e d. d \<in> p_wire p"

definition few_bytes :: "bytes list \<Rightarrow> bool" where
  "few_bytes M \<longleftrightarrow> length (concat M) \<le> 1073741824"

lemma counted_small: "counted p \<Longrightarrow> few_bytes (p_taken p) \<Longrightarrow> small (e_snd_nxt (p_engine p))"
  by (simp add: counted_def few_bytes_def small_def)

inductive link_step :: "buf_api \<Rightarrow> peer \<times> peer \<Rightarrow> peer \<times> peer \<Rightarrow> bool" for B where
  link_left: "peer_step B (sent_by b) a a' \<Longrightarrow> few_bytes (p_taken a') \<Longrightarrow> link_step B (a, b) (a', b)"
| link_right: "peer_step B (sent_by a) b b' \<Longrightarrow> few_bytes (p_taken b') \<Longrightarrow> link_step B (a, b) (a, b')"

definition link_ok :: "buf_api \<Rightarrow> KcpCoreConfig \<Rightarrow> KcpCoreConfig \<Rightarrow> peer \<times> peer \<Rightarrow> bool" where
  "link_ok B ca cb l \<longleftrightarrow> linked B ca (p_wire (fst l)) (p_engine (fst l)) (p_engine (snd l))
     \<and> linked B cb (p_wire (snd l)) (p_engine (snd l)) (p_engine (fst l)) 
     \<and> counted (fst l) \<and> counted (snd l) \<and> few_bytes (p_taken (fst l)) \<and> few_bytes (p_taken (snd l))"

lemma link_ok_swap: "link_ok B ca cb (p, q) \<longleftrightarrow> link_ok B cb ca (q, p)"
  by (auto simp: link_ok_def)

lemma linked_swap: "linked B c X e f \<Longrightarrow> end_ok B c' Y f \<Longrightarrow> linked B c' Y f e"
  by (simp add: linked_def)

lemma new_peer_linked:
  assumes "validate config = Ok ()"
  shows "linked B (KcpCoreConfig_from config) {} (KcpEngine_new clk conv (KcpCoreConfig_from config))
     (KcpEngine_new clk' conv' c')"
  using new_engine_ok [OF assms, of B clk conv] validate_core_config_ok [OF assms]
  by (auto simp: linked_def end_ok_def feeds_def holds_def unacked_def kept_def to_ack_def small_def output_made_of_def
      KcpEngine_new_def Let_def bt_empty_def)

text \<open>A pair of new engines with validated configurations.\<close>

definition new_peer :: "clock \<Rightarrow> ConvId \<Rightarrow> KcpConfig \<Rightarrow> peer" where
  "new_peer clk conv config = start_peer (KcpEngine_new clk conv (KcpCoreConfig_from config))"

lemma new_peers_ok:
  "validate ca = Ok () \<Longrightarrow> validate cb = Ok () \<Longrightarrow>
   link_ok B (KcpCoreConfig_from ca) (KcpCoreConfig_from cb) (new_peer clk conv ca, new_peer clk' conv' cb)"
  using new_peer_linked
  by (simp add: link_ok_def new_peer_def start_peer_def counted_def few_bytes_def KcpEngine_new_def queue_bytes_def Let_def)

lemma step_taken: "peer_step B A p p' \<Longrightarrow> length (concat (p_taken p)) \<le> length (concat (p_taken p'))"
  by (erule peer_stepE) simp_all

context buf_codec
begin

lemma linked_step:
  assumes "linked B c (p_wire p) (p_engine p) f" "peer_step B A p p'" "small (e_snd_nxt (p_engine p'))"
    and "small (e_snd_nxt f)" "\<And>d. A (p_engine p) d \<Longrightarrow> made_of B (true_of f) d"
  shows "linked B c (p_wire p') (p_engine p') f"
  using assms(2)
proof (cases rule: peer_stepE)
  case (peer_input data ring clk)
  then show ?thesis using linked_input [OF assms(1,4)] assms(5) by simp
qed (use assms(1,3) linked_send linked_recv linked_flush linked_update linked_keep_alive linked_set_conv linked_drain_output
      in simp_all)

lemma left_step_ok:
  assumes l: "link_ok B ca cb (p, q)" and step: "peer_step B (sent_by q) p p'" and few: "few_bytes (p_taken p')"
  shows "link_ok B ca cb (p', q)"
proof -
  have ok: "linked B ca (p_wire p) (p_engine p) (p_engine q)" "end_ok B cb (p_wire q) (p_engine q)" "counted p" "counted q"
    "few_bytes (p_taken q)"
    using l linkedD(1) by (auto simp: link_ok_def)
  have c: "counted p'" by (rule counted_step [OF linkedD(4) [OF ok(1)] ok(3) step])
  then have "small (e_snd_nxt (p_engine p'))" using few by (rule counted_small)
  then have "linked B ca (p_wire p') (p_engine p') (p_engine q)"
    using linked_step [OF ok(1) step _ end_okD(3) [OF ok(2)]] end_okD(8) [OF ok(2)] by blast
  then show ?thesis using linked_swap ok(2,4,5) c few by (simp add: link_ok_def)
qed

lemma link_ok_step: "link_ok B ca cb l \<Longrightarrow> link_step B l l' \<Longrightarrow> link_ok B ca cb l'"
proof (erule link_step.cases)
  fix a b b' assume l: "link_ok B ca cb l" "l = (a, b)" "l' = (a, b')" and b: "peer_step B (sent_by a) b b'" "few_bytes (p_taken b')"
  have "link_ok B cb ca (b', a)" by (rule left_step_ok [OF _ b]) (use l link_ok_swap in simp)
  then show "link_ok B ca cb l'" using l(3) link_ok_swap by simp
qed (use left_step_ok in blast)

end

definition link_init :: "KcpConfig \<Rightarrow> KcpConfig \<Rightarrow> peer \<times> peer \<Rightarrow> bool" where
  "link_init ca cb l \<longleftrightarrow> validate ca = Ok () \<and> validate cb = Ok ()
     \<and> (\<exists>clk conv clk' conv'. l = (new_peer clk conv ca, new_peer clk' conv' cb))"

interpretation lnk: safe_system "link_init ca cb" "link_step le_buf_api"
  "link_ok le_buf_api (KcpCoreConfig_from ca) (KcpCoreConfig_from cb)" for ca cb
  by unfold_locales (auto simp: link_init_def new_peers_ok intro: le.link_ok_step)

text \<open>Any number of steps of one end; and what either end has done in a run of the pair.\<close>

lemma left_steps:
  assumes "peer_steps B (sent_by q) p p'" "few_bytes (p_taken p')"
  shows "(link_step B)\<^sup>*\<^sup>* (p, q) (p', q)"
  using assms
proof (induction rule: rtranclp_induct)
  case (step p1 p2)
  then have "few_bytes (p_taken p1)" using step_taken [OF step.hyps(2)] by (simp add: few_bytes_def)
  from rtranclp.rtrancl_into_rtrancl [OF step.IH [OF this] link_left [OF step.hyps(2) step.prems]] show ?case .
qed simp

lemma right_steps:
  assumes "peer_steps B (sent_by p) q q'" "few_bytes (p_taken q')"
  shows "(link_step B)\<^sup>*\<^sup>* (p, q) (p, q')"
  using assms
proof (induction rule: rtranclp_induct)
  case (step q1 q2)
  then have "few_bytes (p_taken q1)" using step_taken [OF step.hyps(2)] by (simp add: few_bytes_def)
  from rtranclp.rtrancl_into_rtrancl [OF step.IH [OF this] link_right [OF step.hyps(2) step.prems]] show ?case .
qed simp

lemma step_wire: "peer_step B A p p' \<Longrightarrow> p_wire p \<subseteq> p_wire p'"
  by (erule peer_stepE) auto

lemma steps_sent_by: "peer_steps B (sent_by q) p p' \<Longrightarrow> p_wire q \<subseteq> p_wire q' \<Longrightarrow> peer_steps B (sent_by q') p p'"
  by (erule mono_rtranclp [rule_format, rotated]) (blast intro: peer_step_mono)

lemma link_runs:
  assumes "(link_step B)\<^sup>*\<^sup>* l l'"
  shows "peer_steps B (sent_by (snd l')) (fst l) (fst l') \<and> peer_steps B (sent_by (fst l')) (snd l) (snd l')"
  using assms
proof (induction rule: rtranclp_induct)
  case (step l1 l2)
  show ?case
    using step(2)
  proof cases
    case (link_left b a a')
    then show ?thesis
      using step.IH steps_sent_by [OF _ step_wire [OF link_left(3)]] by (auto intro: rtranclp.rtrancl_into_rtrancl)
  next
    case (link_right a b b')
    then show ?thesis
      using step.IH steps_sent_by [OF _ step_wire [OF link_right(3)]] by (auto intro: rtranclp.rtrancl_into_rtrancl)
  qed
qed simp

section \<open>Two event loops\<close>

text \<open>
  The reachable states of a connection: a client starts; a peer starts, either a server, with a datagram the
  client has sent, or another client; from then on both event loops take turns in any order, over
  any events whose packets the other end has sent. Each end is recorded with the messages it
  has taken. Turns after the loop has stopped are included, although the code makes none.
\<close>

type_synonym loop = "bytes list \<times> actor"

definition from_wire :: "event \<Rightarrow> loop option \<Rightarrow> bool" where
  "from_wire v q \<longleftrightarrow> (\<forall>data. v_packet v = Some (Some data) \<longrightarrow> (\<exists>N b. q = Some (N, b) \<and> data \<in> set (a_wire b)))"

inductive connects :: "actor_args \<Rightarrow> actor_args \<Rightarrow> KcpConfig \<Rightarrow> KcpConfig \<Rightarrow> loop \<Rightarrow> loop option \<Rightarrow> bool" for ga gb ca cb where
  client_starts: "new_with_conv clk conv ca = Ok (e, args, s) \<Longrightarrow>
    connects ga gb ca cb ([], actor_start le_buf_api ga v e) None"
| peer_starts: "connects ga gb ca cb (M, a) None \<Longrightarrow> endpoint (set (a_wire a)) cb f \<Longrightarrow>
    connects ga gb ca cb (M, a) (Some ([], actor_start le_buf_api gb v f))"
| client_turn: "connects ga gb ca cb (M, a) q \<Longrightarrow> from_wire v q \<Longrightarrow>
    connects ga gb ca cb (M @ taken ga v a, fst (turn le_buf_api ga v a)) q"
| peer_turn: "connects ga gb ca cb (M, a) (Some (N, b)) \<Longrightarrow> from_wire v (Some (M, a)) \<Longrightarrow>
    connects ga gb ca cb (M, a) (Some (N @ taken gb v b, fst (turn le_buf_api gb v b)))"

text \<open>The engine an end starts with is reached by calls of a new one.\<close>

lemma endpoint_steps:
  assumes "endpoint X config e"
  obtains clk conv where "peer_steps le_buf_api (\<lambda>_ d. d \<in> X) (new_peer clk conv config) (start_peer e)"
  using assms
proof cases
  case (client_end clk conv args s)
  then show ?thesis using client_engine [OF client_end] that by (metis new_peer_def rtranclp.rtrancl_refl)
next
  case (server_end ring clk client_conv server_conv data args s)
  let ?step = "peer_step le_buf_api (\<lambda>_ d. d \<in> X)"
  let ?n = "KcpEngine_new (clk 0) client_conv (KcpCoreConfig_from config)"
  obtain e1 where e1: "e1 = fst (input le_buf_api ring (clk 1) data ?n)"
    and e: "e = fst (flush le_buf_api (clk 3) (fst (update le_buf_api (clk 2)
       (if client_conv \<noteq> server_conv then set_conv server_conv e1 else e1))))"
    by (rule server_engine_steps [OF server_end(1)])
  let ?e2 = "if client_conv \<noteq> server_conv then set_conv server_conv e1 else e1"
  have "?step (start_peer ?n) (start_peer e1)"
    using peer_input [of "\<lambda>_ d. d \<in> X" "start_peer ?n" data] server_end(2) by (simp add: start_peer_def e1)
  moreover have "?step\<^sup>*\<^sup>* (start_peer e1) (start_peer ?e2)"
    using peer_set_conv [of le_buf_api "\<lambda>_ d. d \<in> X" "start_peer e1"] by (auto simp: start_peer_def)
  moreover have "?step (start_peer ?e2) (start_peer (fst (update le_buf_api (clk 2) ?e2)))"
    using peer_update [of le_buf_api "\<lambda>_ d. d \<in> X" "start_peer ?e2"] by (simp add: start_peer_def)
  moreover have "?step (start_peer (fst (update le_buf_api (clk 2) ?e2))) (start_peer e)"
    using peer_flush [of le_buf_api "\<lambda>_ d. d \<in> X" "start_peer (fst (update le_buf_api (clk 2) ?e2))"]
    by (simp add: start_peer_def e)
  ultimately have "?step\<^sup>*\<^sup>* (start_peer ?n) (start_peer e)"
    by (meson converse_rtranclp_into_rtranclp rtranclp.rtrancl_into_rtrancl)
  then show ?thesis using that by (simp add: new_peer_def)
qed

text \<open>The event loops are a refinement of the pair of engines: a reachable state is reached by calls of the engines.\<close>

definition reached :: "KcpConfig \<Rightarrow> KcpConfig \<Rightarrow> peer \<Rightarrow> peer \<Rightarrow> bool" where
  "reached ca cb p q \<longleftrightarrow> (\<exists>l. link_init ca cb l \<and> (link_step le_buf_api)\<^sup>*\<^sup>* l (p, q))"

lemma reached_left: "reached ca cb p q \<Longrightarrow> peer_steps le_buf_api (sent_by q) p p' \<Longrightarrow> few_bytes (p_taken p') \<Longrightarrow> reached ca cb p' q"
  unfolding reached_def using left_steps rtranclp_trans by metis

lemma reached_right: "reached ca cb p q \<Longrightarrow> peer_steps le_buf_api (sent_by p) q q' \<Longrightarrow> few_bytes (p_taken q') \<Longrightarrow> reached ca cb p q'"
  unfolding reached_def using right_steps rtranclp_trans by metis

lemma reached_new: "validate ca = Ok () \<Longrightarrow> validate cb = Ok () \<Longrightarrow> reached ca cb (new_peer clk conv ca) (new_peer clk' conv' cb)"
  unfolding reached_def link_init_def by blast

lemma connects_reached:
  assumes "connects ga gb ca cb l q" "few_bytes (fst l)" "\<And>r. q = Some r \<Longrightarrow> few_bytes (fst r)"
  shows "case q of None \<Rightarrow> \<forall>clk conv. validate cb = Ok () \<longrightarrow> reached ca cb (peer_of (fst l) (snd l)) (new_peer clk conv cb)
    | Some r \<Rightarrow> reached ca cb (peer_of (fst l) (snd l)) (peer_of (fst r) (snd r))"
  using assms
proof (induction rule: connects.induct)
  case (client_starts clk conv e args s v)
  have e: "validate ca = Ok ()" "start_peer e = new_peer clk conv ca"
    using client_engine [OF client_starts(1)] by (simp_all add: new_peer_def)
  have steps: "peer_steps le_buf_api A (new_peer clk conv ca) (peer_of [] (actor_start le_buf_api ga v e))" for A
    using start_steps [of le_buf_api A e ga v] unfolding e(2) [symmetric] start_peer_def .
  show ?case using reached_left [OF reached_new [OF e(1)] steps] by (simp add: few_bytes_def)
next
  case (peer_starts M a f v)
  have v: "validate cb = Ok ()" by (rule endpoint_engine(1) [OF peer_starts(2)])
  obtain clk conv where "peer_steps le_buf_api (\<lambda>_ d. d \<in> set (a_wire a)) (new_peer clk conv cb) (start_peer f)"
    by (rule endpoint_steps [OF peer_starts(2)])
  then have steps: "peer_steps le_buf_api (sent_by (peer_of M a)) (new_peer clk conv cb) (peer_of [] (actor_start le_buf_api gb v f))"
    using start_steps [of le_buf_api "sent_by (peer_of M a)" f gb v] by (simp add: start_peer_def)
  have "reached ca cb (peer_of M a) (new_peer clk conv cb)" using peer_starts.IH peer_starts.prems(1) v by simp
  from reached_right [OF this steps] show ?case by (simp add: few_bytes_def)
next
  case (client_turn M a q v)
  have few: "few_bytes M" "few_bytes (M @ taken ga v a)" using client_turn.prems(1) by (simp_all add: few_bytes_def)
  have go: "reached ca cb (peer_of (M @ taken ga v a) (fst (turn le_buf_api ga v a))) p"
    if "reached ca cb (peer_of M a) p" "\<forall>data. v_packet v = Some (Some data) \<longrightarrow> data \<in> p_wire p" for p
    by (rule reached_left [OF that(1) turn_steps]) (use that(2) few(2) in simp_all)
  show ?case
  proof (cases q)
    case None
    then show ?thesis using go client_turn.IH few(1) client_turn.hyps(2) by (auto simp: from_wire_def)
  next
    case (Some r)
    then have "reached ca cb (peer_of M a) (peer_of (fst r) (snd r))" using client_turn.IH client_turn.prems(2) few(1) by simp
    from go [OF this] show ?thesis using client_turn.hyps(2) Some by (cases r) (auto simp: from_wire_def)
  qed
next
  case (peer_turn M a N b v)
  have few: "few_bytes N" "few_bytes (N @ taken gb v b)"
    using peer_turn.prems(2) by (simp_all add: few_bytes_def)
  have steps: "peer_steps le_buf_api (sent_by (peer_of M a)) (peer_of N b) (peer_of (N @ taken gb v b) (fst (turn le_buf_api gb v b)))"
    by (rule turn_steps) (use peer_turn.hyps(2) in \<open>auto simp: from_wire_def\<close>)
  have "reached ca cb (peer_of M a) (peer_of N b)" using peer_turn.IH peer_turn.prems(1) few(1) by simp
  from reached_right [OF this steps] show ?case using few(2) by simp
qed

text \<open>What holds of the pair of engines.\<close>

lemma reached_link: "reached ca cb p q \<Longrightarrow> link_ok le_buf_api (KcpCoreConfig_from ca) (KcpCoreConfig_from cb) (p, q)"
  using lnk.reachable_inv unfolding reached_def by blast

section \<open>Properties\<close>

text \<open>
  C5. Nothing is forgotten. In every reachable state of two event loops, whatever the network has lost, repeated
  or reordered, the sequence numbers an end has given out are exactly those its peer has received
  and those it still keeps for retransmission: a segment leaves the send buffer only after the peer has got it. Each side
  has taken at most \<open>2\<^sup>3\<^sup>0\<close> bytes, so that numbers do not come round while old datagrams are in the network.
\<close>

theorem nothing_is_forgotten:
  assumes "connects ga gb ca cb (M, a) (Some (N, b))"
    and "length (concat M) \<le> 1073741824" "length (concat N) \<le> 1073741824"
  shows "{..<e_snd_nxt (a_engine a)} = holds (a_engine b) \<union> unacked (a_engine a)
    \<and> {..<e_snd_nxt (a_engine b)} = holds (a_engine a) \<union> unacked (a_engine b)"
  using connects_reached [OF assms(1)] assms(2,3) reached_link [of ca cb "peer_of M a" "peer_of N b"]
  by (simp add: few_bytes_def link_ok_def linked_def feeds_def)

text \<open>Two clients with the same conversation id; one is given a message and flushes it.\<close>

definition hello_state :: actor where
  "hello_state = fst (turn le_buf_api some_args (quiet\<lparr>v_data := Some (Some [1, 2, 3])\<rparr>)
     (actor_start le_buf_api some_args quiet hello_engine))"

lemma hello_alone: "connects some_args some_args KcpConfig_default KcpConfig_default ([[1, 2, 3]], hello_state) None"
proof -
  let ?v = "quiet\<lparr>v_data := Some (Some [1, 2, 3])\<rparr>" and ?a = "actor_start le_buf_api some_args quiet hello_engine"
  have "taken some_args ?v ?a = [[1, 2, 3]]"
    using hello_taken by (simp split: prod.splits flow.splits)
  moreover have new: "new_with_conv (\<lambda>_. 0) 7 KcpConfig_default =
      Ok (hello_engine, stream_args KcpConfig_default, stream_value True KcpConfig_default)"
    by (simp add: new_with_conv_def default_validates start_def hello_engine_def)
  have "from_wire ?v None" by (simp add: from_wire_def quiet_def)
  from client_turn [OF client_starts [OF new] this]
  have "connects some_args some_args KcpConfig_default KcpConfig_default
      ([] @ taken some_args ?v ?a, fst (turn le_buf_api some_args ?v ?a)) None" .
  ultimately show ?thesis by (simp add: hello_state_def)
qed

lemma hello_connects: "connects some_args some_args KcpConfig_default KcpConfig_default ([[1, 2, 3]], hello_state)
    (Some ([], actor_start le_buf_api some_args quiet hello_engine))"
  by (rule peer_starts [OF hello_alone hello_endpoint])

theorem nothing_is_forgotten_witness:
  "{..<e_snd_nxt (a_engine hello_state)} =
     holds (a_engine (actor_start le_buf_api some_args quiet hello_engine)) \<union> unacked (a_engine hello_state)"
  using nothing_is_forgotten [OF hello_connects] by simp

end
