(* ===== verification/Kcp_Recovery.thy ===== *)
theory Kcp_Recovery
  imports Kcp_Link
begin

text \<open>
  Retransmission makes up for loss. Whatever the network has lost so far: when an end flushes with its
  retransmission timers expired, the datagrams of the flush arrive, and the datagrams of the peer's next
  flush come back, then the peer has received every segment numbered so far that fits its window, and the
  send buffer is empty.
\<close>

section \<open>The segments in the output\<close>

text \<open>The segments a receiver will cut out of what an engine has put out, in order.\<close>

definition sent_segments :: "buf_api \<Rightarrow> KcpEngine \<Rightarrow> KcpSegment list" where
  "sent_segments B e = concat (map (packet_segments B) (e_output_queue e @ [e_out_buf e]))"

lemma sent_segments_cong:
  "e_output_queue e' = e_output_queue e \<Longrightarrow> e_out_buf e' = e_out_buf e \<Longrightarrow> sent_segments B e' = sent_segments B e"
  by (simp add: sent_segments_def)

context buf_codec
begin

lemma packet_segments_Nil [simp]: "packet_segments B [] = []"
  using packet_segments_concat [of "[]"] by simp

lemma packet_segments_snoc:
  assumes "made_of B Q d" "unat (h_len (s_header seg)) = length (s_data seg)"
  shows "packet_segments B (KcpSegment_encode B seg d) = packet_segments B d @ [received seg]"
proof -
  obtain segs where segs: "d = concat (map (\<lambda>s. KcpSegment_encode B s []) segs)"
    "\<forall>s\<in>set segs. unat (h_len (s_header s)) = length (s_data s) \<and> Q s"
    using assms(1) by (auto simp: made_of_def)
  have "KcpSegment_encode B seg d = concat (map (\<lambda>s. KcpSegment_encode B s []) (segs @ [seg]))"
    using segment_encode_append [of seg d] segs(1) by simp
  then have "packet_segments B (KcpSegment_encode B seg d) = map received (segs @ [seg])"
    using segs(2) assms(2) by (simp only:) (rule packet_segments_concat, auto)
  moreover have "packet_segments B d = map received segs"
    unfolding segs(1) using segs(2) by (intro packet_segments_concat) auto
  ultimately show ?thesis by simp
qed

lemma sent_segments_output:
  "output_made_of B (\<lambda>_. True) e \<Longrightarrow> \<forall>s\<in>set segs. unat (h_len (s_header s)) = length (s_data s) \<Longrightarrow>
   sent_segments B (output_segments B segs e) = sent_segments B e @ map received segs"
proof (induction segs arbitrary: e)
  case (Cons seg segs)
  let ?e = "fst (output_segment B seg e)"
  have ok: "output_made_of B (\<lambda>_. True) ?e"
    using output_segments_made_of [OF Cons.prems(1), of "[seg]"] Cons.prems(2) by simp
  have "made_of B (\<lambda>_. True) (e_out_buf e)" "made_of B (\<lambda>_. True) []" "unat (h_len (s_header seg)) = length (s_data seg)"
    using Cons.prems by (simp_all add: output_made_of_def)
  then have "sent_segments B ?e = sent_segments B e @ [received seg]"
    using packet_segments_snoc by (simp add: sent_segments_def output_segment_def Let_def)
  then show ?case using Cons.IH [OF ok] Cons.prems(2) by simp
qed simp

lemma sent_segments_flush_out_buf: "sent_segments B (flush_out_buf e) = sent_segments B e"
  by (simp add: sent_segments_def flush_out_buf_def)

lemma flush_sends:
  assumes ok: "engine_ok B c e" and out: "output_made_of B (\<lambda>_. True) e"
  shows "sent_segments B (fst (flush B clk e)) = sent_segments B e @ map received (pass_segments clk e)"
proof (rule flush_keeps_output [OF engine_okD(6) [OF ok]])
  show "sent_segments B (output_segments B (pass_segments clk e) e) =
      sent_segments B e @ map received (pass_segments clk e)"
    using pass_segments_fits [OF engine_okD(6,8) [OF ok] proto_invD(8,9) [OF engine_okD(3) [OF ok]], of clk]
    by (intro sent_segments_output [OF out]) (simp add: seg_fits_def)
qed (simp only: sent_segments_flush_out_buf, metis sent_segments_cong)

text \<open>A flush that succeeds has every segment of its pass in a datagram of the output queue.\<close>

lemma flush_delivers_pass:
  assumes "end_ok B c X e" "snd (flush B clk e) = Ok ()" "s \<in> set (pass_segments clk e)"
  obtains d where "d \<in> set (e_output_queue (fst (flush B clk e)))" "received s \<in> set (packet_segments B d)"
proof -
  note ok = end_okD(1) [OF assms(1)]
  have "output_made_of B (\<lambda>_. True) e" by (rule output_made_of_mono [OF end_okD(7) [OF assms(1)]]) simp
  from flush_sends [OF ok this, of clk] have "received s \<in> set (sent_segments B (fst (flush B clk e)))"
    using assms(3) by simp
  moreover have "e_out_buf (fst (flush B clk e)) = []"
    using flush_effects(1,19) [where B = B and clk = clk, OF engine_okD(6) [OF ok]] assms(2) by (simp split: if_splits)
  ultimately show thesis using that by (auto simp: sent_segments_def)
qed

end

section \<open>Datagrams that arrive\<close>

text \<open>A data segment of the packet that is below the window end is acknowledged.\<close>

definition window_end :: "KcpEngine \<Rightarrow> nat" where
  "window_end e = unat (e_rcv_nxt e) + unat (w_rcv (e_wnd e))"

lemma below_window_end:
  assumes "small sn" "unat sn < window_end e" "small (e_rcv_nxt e)" "unat (w_rcv (e_wnd e)) \<le> 1073741824"
  shows "seq_before sn (e_rcv_nxt e + w_rcv (e_wnd e))"
proof -
  have "unat (e_rcv_nxt e + w_rcv (e_wnd e)) = window_end e"
    using assms(3,4) by (simp add: window_end_def small_def unat_word_ariths)
  then show ?thesis
    using assms seq_before_small [of sn "e_rcv_nxt e + w_rcv (e_wnd e)"]
    by (simp add: word_less_nat_alt window_end_def small_def)
qed

lemma receptive_below_window_end:
  assumes "receptive f e" "true_of f s" "h_cmd (s_header s) = IKCP_CMD_PUSH" "h_conv (s_header s) = e_conv e"
    and "unat (s_sn s) < window_end e"
  shows "accepts_push s e"
proof -
  have "e_rcv_nxt e \<le> e_snd_nxt f" using assms(1) by (auto simp: receptive_def holds_def)
  then have "small (e_rcv_nxt e)" "unat (w_rcv (e_wnd e)) \<le> 1073741824"
    using assms(1) small_mono by (auto simp: receptive_def)
  moreover have "small (s_sn s)" using assms(1-3) small_mono by (fastforce simp: receptive_def true_of_def)
  ultimately show ?thesis using below_window_end assms(3-5) by (simp add: accepts_push_def)
qed

lemma process_segments_accepts:
  assumes "receptive f (fst st)" "\<forall>seg\<in>set segs. true_of f seg"
    and "s \<in> set segs" "h_cmd (s_header s) = IKCP_CMD_PUSH" "h_conv (s_header s) = e_conv (fst st)"
    and "unat (s_sn s) < window_end (fst st)"
  shows "s_sn s \<in> to_ack (fst (process_segments ring t i segs st))"
  using assms
proof (induction segs arbitrary: i st)
  case (Cons seg segs)
  have seg: "true_of f seg" using Cons.prems(2) by simp
  let ?st = "process_segment (ring i) t seg st"
  note h = process_segment_hears [OF Cons.prems(1) seg, of "ring i" t]
  have tl: "\<forall>seg\<in>set segs. true_of f seg" using Cons.prems(2) by simp
  show ?case
  proof (cases "s = seg")
    case True
    then have acc: "accepts_push s (fst st)"
      using receptive_below_window_end [OF Cons.prems(1) _ Cons.prems(4-6)] seg by simp
    then have "s_sn s \<in> to_ack (fst ?st)"
      using process_segment_push [OF acc, of "ring i" t] True by (simp add: to_ack_def)
    then show ?thesis
      using process_segments_hears [OF h(2) tl, of ring t "Suc i"] by (auto simp: hears_def)
  next
    case False
    have "window_end (fst st) \<le> window_end (fst ?st)"
      using h(1) by (simp add: hears_def advances_def window_end_def word_le_nat_alt)
    then show ?thesis using Cons.IH [OF h(2) tl, of "Suc i"] Cons.prems(3-6) False by simp
  qed
qed simp

text \<open>An acknowledgement takes its segment out of the send buffer, and nothing puts it back.\<close>

lemma process_segments_releases:
  assumes "receptive f (fst st)" "\<forall>seg\<in>set segs. true_of f seg"
    and "s \<in> set segs" "h_cmd (s_header s) = IKCP_CMD_ACK" "h_conv (s_header s) = e_conv (fst st)"
  shows "s_sn s \<notin> unacked (fst (process_segments ring t i segs st))"
  using assms
proof (induction segs arbitrary: i st)
  case (Cons seg segs)
  have seg: "true_of f seg" using Cons.prems(2) by simp
  let ?st = "process_segment (ring i) t seg st"
  note h = process_segment_hears [OF Cons.prems(1) seg, of "ring i" t]
  have tl: "\<forall>seg\<in>set segs. true_of f seg" using Cons.prems(2) by simp
  show ?case
  proof (cases "s = seg")
    case True
    let ?e1 = "parse_una (h_una (s_header seg)) ((fst st)\<lparr>e_wnd := (e_wnd (fst st))\<lparr>w_rmt := ucast (h_wnd (s_header seg))\<rparr>\<rparr>)"
    have inv1: "send_inv ?e1"
      by (intro proto_invD(1) parse_una_proto_inv proto_inv_rmt) (use Cons.prems(1) in \<open>simp add: receptive_def\<close>)
    then have "send_inv (update_ack j ?e1)" for j by (simp add: send_inv_def in_flight_def)
    then have "s_sn seg \<notin> unacked (input_ack (ring i) t seg ?e1)"
      using inv1 by (auto simp: input_ack_def Let_def parse_ack_filter unacked_def)
    then have "s_sn s \<notin> unacked (fst ?st)"
      using Cons.prems(4,5) True by (simp add: process_segment_def Let_def)
    then show ?thesis
      using process_segments_hears [OF h(2) tl, of ring t "Suc i"] by (auto simp: hears_def unacked_kept)
  next
    case False
    then show ?thesis using Cons.IH [OF h(2) tl, of "Suc i"] Cons.prems(3-5) by simp
  qed
qed simp

section \<open>Several datagrams\<close>

text \<open>The datagrams of a list, each with its own ring position and clock.\<close>

fun input_all :: "buf_api \<Rightarrow> ((nat \<Rightarrow> usize) \<times> clock \<times> bytes) list \<Rightarrow> KcpEngine \<Rightarrow> KcpEngine" where
  "input_all B [] e = e"
| "input_all B ((ring, clk, data) # xs) e = input_all B xs (fst (input B ring clk data e))"

context buf_codec
begin

lemma input_frame: "e_conv (fst (input B ring clk data e)) = e_conv e" "w_rcv (e_wnd (fst (input B ring clk data e))) = w_rcv (e_wnd e)"
proof -
  have "e_conv (fst (process_segments ring t i segs st)) = e_conv (fst st)
    \<and> w_rcv (e_wnd (fst (process_segments ring t i segs st))) = w_rcv (e_wnd (fst st))" for t i segs st
    by (induction segs arbitrary: i st) simp_all
  moreover have "e_conv (finish_input p st) = e_conv (fst st)" for p st by (simp add: finish_input_def Let_def)
  ultimately show "e_conv (fst (input B ring clk data e)) = e_conv e" "w_rcv (e_wnd (fst (input B ring clk data e))) = w_rcv (e_wnd e)"
    by (simp_all add: input_eq count_packet_def)
qed

lemma input_segments:
  assumes l: "linked B c X e f" "small (e_snd_nxt f)" and data: "made_of B (true_of f) data"
    and s: "s \<in> set (packet_segments B data)" "h_conv (s_header s) = e_conv e"
  shows "h_cmd (s_header s) = IKCP_CMD_PUSH \<Longrightarrow> unat (s_sn s) < window_end e \<Longrightarrow>
      s_sn s \<in> to_ack (fst (input B ring clk data e))"
    "h_cmd (s_header s) = IKCP_CMD_ACK \<Longrightarrow> s_sn s \<notin> unacked (fst (input B ring clk data e))"
proof -
  let ?st = "(e\<lparr>e_last_activity := clk 0\<rparr>, no_acks)"
  have rec: "receptive f (fst ?st)" using linked_receptive [OF l] by simp
  have true: "\<forall>seg\<in>set (packet_segments B data). true_of f seg"
    using made_of_segments [OF data] by (metis true_of_received)
  have conv: "h_conv (s_header s) = e_conv (fst ?st)" "window_end (fst ?st) = window_end e"
    using s(2) by (simp_all add: window_end_def)
  have "24 \<le> length data"
    using s(1) packet_segments.simps [of B data] by (auto simp: next_segment_def split: if_splits)
  moreover have "to_ack (count_packet (finish_input p st)) = to_ack (fst st)"
    "unacked (count_packet (finish_input p st)) = unacked (fst st)" for p st
    using finish_input_kept(1) [of p st] by (simp_all add: count_packet_def to_ack_def unacked_kept kept_def)
  ultimately show "h_cmd (s_header s) = IKCP_CMD_PUSH \<Longrightarrow> unat (s_sn s) < window_end e \<Longrightarrow>
      s_sn s \<in> to_ack (fst (input B ring clk data e))"
    "h_cmd (s_header s) = IKCP_CMD_ACK \<Longrightarrow> s_sn s \<notin> unacked (fst (input B ring clk data e))"
    using process_segments_accepts [OF rec true s(1) _ conv(1)] process_segments_releases [OF rec true s(1) _ conv(1)] conv(2)
    by (simp_all add: input_eq)
qed

text \<open>The same for a list of datagrams, all of them true of the peer.\<close>

lemma input_all_hears:
  assumes "linked B c X e f" "small (e_snd_nxt f)" "\<forall>(r, t, d)\<in>set xs. made_of B (true_of f) d"
  shows "linked B c X (input_all B xs e) f \<and> hears f e (input_all B xs e)
    \<and> e_conv (input_all B xs e) = e_conv e \<and> w_rcv (e_wnd (input_all B xs e)) = w_rcv (e_wnd e)"
  using assms
proof (induction xs arbitrary: e)
  case Nil
  have "hears f e e"
    using linkedD(5) [OF Nil(1)] end_okD(6) [OF linkedD(1) [OF Nil(1)]] by (simp add: hears_def advances_def)
  then show ?case using Nil(1) by simp
next
  case (Cons x xs)
  obtain r t d where x: "x = (r, t, d)" by (cases x)
  have d: "made_of B (true_of f) d" using Cons.prems(3) x by simp
  note l = linked_input [OF Cons.prems(1,2) d, of r t]
  show ?case
    using Cons.IH [OF l Cons.prems(2)] hears_trans [OF input_hears [OF Cons.prems(1,2) d, of r t]] Cons.prems(3)
    by (simp add: x input_frame)
qed

lemma input_all_segments:
  assumes "linked B c X e f" "small (e_snd_nxt f)" "\<forall>(r, t, d)\<in>set xs. made_of B (true_of f) d"
    and "d \<in> snd ` snd ` set xs" "s \<in> set (packet_segments B d)" "h_conv (s_header s) = e_conv e"
  shows "(h_cmd (s_header s) = IKCP_CMD_PUSH \<longrightarrow> unat (s_sn s) < window_end e \<longrightarrow> s_sn s \<in> to_ack (input_all B xs e))
    \<and> (h_cmd (s_header s) = IKCP_CMD_ACK \<longrightarrow> s_sn s \<notin> unacked (input_all B xs e))"
  using assms
proof (induction xs arbitrary: e)
  case (Cons x xs)
  obtain r t d' where x: "x = (r, t, d')" by (cases x)
  have d': "made_of B (true_of f) d'" using Cons.prems(3) x by simp
  let ?e = "fst (input B r t d' e)"
  note l = linked_input [OF Cons.prems(1,2) d', of r t]
  note h = input_hears [OF Cons.prems(1,2) d', of r t]
  have tl: "\<forall>(r, t, d)\<in>set xs. made_of B (true_of f) d" using Cons.prems(3) by simp
  have rest: "to_ack ?e \<subseteq> to_ack (input_all B xs ?e)" "unacked (input_all B xs ?e) \<subseteq> unacked ?e"
    using input_all_hears [OF l Cons.prems(2) tl] by (auto simp: hears_def unacked_kept)
  show ?case
  proof (cases "d = d'")
    case True
    then show ?thesis
      using input_segments [OF Cons.prems(1,2) d' _ Cons.prems(6), of r t] Cons.prems(5) rest by (auto simp: x)
  next
    case False
    have "window_end e \<le> window_end ?e"
      using h by (simp add: hears_def advances_def window_end_def word_le_nat_alt input_frame)
    then show ?thesis
      using Cons.IH [OF l Cons.prems(2) tl _ Cons.prems(5)] Cons.prems(4,6) False by (auto simp: x input_frame)
  qed
qed simp

end

section \<open>A round trip\<close>

lemma ack_segs_complete:
  assumes "sn \<in> fst ` set acks"
  obtains s where "s \<in> set (ack_segs clk i conv wnd una acks)" "h_cmd (s_header s) = IKCP_CMD_ACK" "s_sn s = sn"
    "h_conv (s_header s) = conv"
proof -
  have "\<exists>s\<in>set (ack_segs clk i conv wnd una acks). h_cmd (s_header s) = IKCP_CMD_ACK \<and> s_sn s = sn \<and> h_conv (s_header s) = conv"
    using assms
    by (induction acks arbitrary: i) (auto simp: make_ack_def KcpSegment_ack_def KcpSegment_new_def KcpHeader_new_def Let_def)
  then show thesis using that by blast
qed

context buf_codec
begin

lemma output_true: "linked B c X e f \<Longrightarrow> d \<in> set (e_output_queue e) \<Longrightarrow> made_of B (true_of e) d"
  using end_okD(7) [OF linkedD(1)] by (simp add: output_made_of_def)

lemma round_trip:
  fixes e f clk clk' xs ys
  defines "e1 \<equiv> fst (flush B clk e)" and "f1 \<equiv> input_all B xs f"
  defines "f2 \<equiv> fst (flush B clk' f1)" and "e2 \<equiv> input_all B ys (snd (drain_output e1))"
  assumes link: "linked B c X e f" "end_ok B c' Y f"
    and out: "snd (flush B clk e) = Ok ()" "small (e_snd_nxt e1)" "map (snd \<circ> snd) xs = e_output_queue e1"
    and ret: "snd (flush B clk' f1) = Ok ()" "small (e_snd_nxt f2)" "map (snd \<circ> snd) ys = e_output_queue f2"
    and conv: "e_conv e = e_conv f"
  shows "hears e1 f f1" "hears f2 (snd (drain_output e1)) e2"
    and "s \<in> set (pass_segments clk e) \<Longrightarrow> h_cmd (s_header s) = IKCP_CMD_PUSH \<Longrightarrow> h_conv (s_header s) = e_conv f \<Longrightarrow>
      unat (s_sn s) < window_end f \<Longrightarrow> s_sn s \<in> holds f1 \<and> s_sn s \<notin> unacked e2"
proof -
  have e1: "linked B c X e1 f" unfolding e1_def by (rule linked_flush [OF link(1) out(2) [unfolded e1_def]])
  have f: "linked B c' Y f e1" by (rule linked_swap [OF e1 link(2)])
  have xs: "\<forall>(r, t, d)\<in>set xs. made_of B (true_of e1) d" "snd ` snd ` set xs = set (e_output_queue e1)"
    using output_true [OF e1] arg_cong [OF out(3), of set] by (force simp: image_image)+
  note arrive = input_all_hears [OF f out(2) xs(1), folded f1_def]
  show "hears e1 f f1" using arrive by blast
  have f2: "linked B c' Y f2 e1" using arrive unfolding f2_def by (intro linked_flush ret(2) [unfolded f2_def]) blast
  have "linked B c X e1 f2" by (rule linked_swap [OF f2 linkedD(1) [OF e1]])
  then have e1': "linked B c (X \<union> {}) (snd (drain_output e1)) f2" by (rule linked_drain_output) simp
  have ys: "\<forall>(r, t, d)\<in>set ys. made_of B (true_of f2) d" "snd ` snd ` set ys = set (e_output_queue f2)"
    using output_true [OF f2] arg_cong [OF ret(3), of set] by (force simp: image_image)+
  show "hears f2 (snd (drain_output e1)) e2" using input_all_hears [OF e1' ret(2) ys(1), folded e2_def] by blast
  assume s: "s \<in> set (pass_segments clk e)" "h_cmd (s_header s) = IKCP_CMD_PUSH" "h_conv (s_header s) = e_conv f"
    "unat (s_sn s) < window_end f"
  obtain d where d: "d \<in> set (e_output_queue e1)" "received s \<in> set (packet_segments B d)"
    unfolding e1_def by (rule flush_delivers_pass [OF linkedD(1) [OF link(1)] out(1) s(1)])
  have r: "s_header (received x) = s_header x" "s_sn (received x) = s_sn x" for x by (simp_all add: received_def)
  have acked: "s_sn s \<in> to_ack f1"
    using input_all_segments [OF f out(2) xs(1), of d "received s"] d s(2-4) unfolding xs(2) f1_def by (simp add: r)
  then have held: "s_sn s \<in> holds f1" using arrive by (auto simp: hears_def)
  obtain a where a: "a \<in> set (pass_acks clk' f1)" "h_cmd (s_header a) = IKCP_CMD_ACK" "s_sn a = s_sn s"
    "h_conv (s_header a) = e_conv f1"
    using acked unfolding pass_acks_def to_ack_def by (rule ack_segs_complete)
  have f1: "linked B c' Y f1 e1" using arrive by blast
  have "a \<in> set (pass_segments clk' f1)" using a(1) by (simp add: pass_segments_def)
  then obtain d' where d': "d' \<in> set (e_output_queue f2)" "received a \<in> set (packet_segments B d')"
    unfolding f2_def by (rule flush_delivers_pass [OF linkedD(1) [OF f1] ret(1)])
  have "e_conv (snd (drain_output e1)) = e_conv f1"
    using conv arrive flush_effects(6) [where B = B and clk = clk, OF engine_okD(6) [OF linkedD(4) [OF link(1)]]]
    by (simp add: e1_def drain_output_def)
  then have "s_sn s \<notin> unacked e2"
    using input_all_segments [OF e1' ret(2) ys(1), of d' "received a"] d' a unfolding ys(2) e2_def by (simp add: r)
  with held show "s_sn s \<in> holds f1 \<and> s_sn s \<notin> unacked e2" by blast
qed

end

text \<open>With expired timers a flush that succeeds sends the whole send buffer.\<close>

definition due :: "Timestamp \<Rightarrow> KcpSegment \<Rightarrow> bool" where
  "due now s \<longleftrightarrow> s_xmit s = 0 \<or> time_diff now (s_resendts s) \<ge> 0"

lemma numbered_conv: "s \<in> set (numbered now e segs) \<Longrightarrow> s_xmit s = 0 \<and> h_conv (s_header s) = e_conv e"
  by (induction segs arbitrary: e) (auto simp: number_segment_def)

lemma flush_sends_all:
  assumes inv: "send_inv e" and small: "small (e_snd_nxt e)" and ok: "snd (flush B clk e) = Ok ()"
    and due: "\<forall>s\<in>set (e_snd_buf e). due (clk 0) s \<and> h_conv (s_header s) = e_conv e"
    and sn: "sn \<in> unacked (fst (flush B clk e))"
    and push: "kept (fst (flush B clk e)) \<subseteq> {IKCP_CMD_PUSH} \<times> UNIV"
  obtains s where "s \<in> set (pass_segments clk e)" "s_sn s = sn" "h_conv (s_header s) = e_conv e" "h_cmd (s_header s) = IKCP_CMD_PUSH"
proof -
  let ?e1 = "move_to_send_buf (clk 0) e"
  let ?mark = "mark_segment ?e1 (clk 0) (resend_limit ?e1) (rto_slack ?e1)"
  obtain s where s: "s \<in> set (e_snd_buf ?e1)" "s_sn s = sn"
    using sn unfolding unacked_kept flush_kept(3) [OF inv small, symmetric] by (auto simp: kept_def)
  have "due (clk 0) s \<and> h_conv (s_header s) = e_conv e"
    using s(1) due numbered_conv by (auto simp: move_to_send_buf_eq [OF inv] due_def)
  moreover from this have "snd (?mark s) \<noteq> Keep" by (auto simp: due_def mark_segment_def Let_def)
  ultimately have "fst (?mark s) \<in> set (pass_selected (clk 0) ?e1)" "h_conv (s_header (fst (?mark s))) = e_conv e"
    using s(1) by (auto simp: pass_selected_def selected_def)
  moreover have "\<not> pass_dead (clk 0) ?e1"
    using ok flush_effects(1) [where B = B and clk = clk, OF inv] by (auto split: if_splits)
  then have "upto_dead (e_dead_link e) (pass_selected (clk 0) ?e1) = pass_selected (clk 0) ?e1"
    by (intro upto_dead_all) (simp add: pass_dead_def move_to_send_buf_eq [OF inv])
  moreover have "h_cmd (s_header s) = IKCP_CMD_PUSH"
    using push s(1) unfolding flush_kept(3) [OF inv small, symmetric] by (auto simp: kept_def)
  ultimately show thesis using that [of "fst (?mark s)"] s(2) by (simp add: pass_segments_def)
qed

lemma recovery:
  fixes e f clk clk' xs ys
  defines "e1 \<equiv> fst (flush le_buf_api clk e)" and "f1 \<equiv> input_all le_buf_api xs f"
  defines "f2 \<equiv> fst (flush le_buf_api clk' f1)" and "e2 \<equiv> input_all le_buf_api ys (snd (drain_output e1))"
  assumes link: "linked le_buf_api c X e f" "end_ok le_buf_api c' Y f"
    and out: "snd (flush le_buf_api clk e) = Ok ()" "small (e_snd_nxt e1)" "map (snd \<circ> snd) xs = e_output_queue e1"
    and ret: "snd (flush le_buf_api clk' f1) = Ok ()" "small (e_snd_nxt f2)" "map (snd \<circ> snd) ys = e_output_queue f2"
    and conv: "e_conv e = e_conv f"
    and due: "\<forall>s\<in>set (e_snd_buf e). due (clk 0) s \<and> h_conv (s_header s) = e_conv e"
    and wnd: "unat (e_snd_nxt e1) \<le> window_end f"
  shows "holds f1 = {..<e_snd_nxt e1}" "e_snd_buf e2 = []" "e_snd_nxt e2 = e_snd_nxt e1"
proof -
  note rt = le.round_trip [OF link out [unfolded e1_def] ret [unfolded f1_def f2_def] conv,
      folded e1_def f1_def f2_def e2_def]
  note inv = engine_okD(6) [OF linkedD(4) [OF link(1)]] and small = end_okD(3) [OF linkedD(1) [OF link(1)]]
  have e1: "linked le_buf_api c X e1 f" unfolding e1_def by (rule le.linked_flush [OF link(1) out(2) [unfolded e1_def]])
  have sub: "unacked e1 \<subseteq> {..<e_snd_nxt e1}" by (rule end_okD(4) [OF linkedD(1) [OF e1]])
  have all: "sn \<in> holds f1 \<and> sn \<notin> unacked e2" if sn: "sn \<in> unacked e1" for sn
  proof -
    have "kept e1 \<subseteq> {IKCP_CMD_PUSH} \<times> UNIV" using linkedD(1) [OF e1] by (auto simp: end_ok_def)
    then obtain s where s: "s \<in> set (pass_segments clk e)" "s_sn s = sn" "h_conv (s_header s) = e_conv e"
      "h_cmd (s_header s) = IKCP_CMD_PUSH"
      using flush_sends_all [OF inv small out(1) due sn [unfolded e1_def]] unfolding e1_def by metis
    have "sn < e_snd_nxt e1" using sub sn by blast
    then have "unat (s_sn s) < window_end f" using wnd s(2) by (simp add: word_less_nat_alt)
    then show ?thesis using rt(3) [OF s(1,4)] s(2,3) conv by simp
  qed
  have drained: "kept (snd (drain_output e1)) = kept e1" "e_snd_nxt (snd (drain_output e1)) = e_snd_nxt e1"
    by (simp_all add: drain_output_def kept_def)
  have "unacked e2 \<subseteq> unacked e1" using rt(2) by (auto simp: hears_def unacked_kept drained)
  then have "unacked e2 = {}" using all by blast
  then show "e_snd_buf e2 = []" by (simp add: unacked_def)
  show "e_snd_nxt e2 = e_snd_nxt e1" using rt(2) by (simp add: hears_def drained)
  have "{..<e_snd_nxt e1} = holds f \<union> unacked e1" using linkedD(2) [OF e1] by (simp add: feeds_def)
  then show "holds f1 = {..<e_snd_nxt e1}" using rt(1) all by (auto simp: hears_def advances_def)
qed

lemma input_all_steps: "peer_steps B (\<lambda>_ _. True) p (p\<lparr>p_engine := input_all B xs (p_engine p)\<rparr>)"
proof (induction xs arbitrary: p)
  case (Cons x xs)
  obtain r t d where x: "x = (r, t, d)" by (cases x)
  have "peer_step B (\<lambda>_ _. True) p (p\<lparr>p_engine := fst (input B r t d (p_engine p))\<rparr>)" by (rule peer_input) simp
  from converse_rtranclp_into_rtranclp [of "peer_step B (\<lambda>_ _. True)", OF this Cons.IH] show ?case by (simp add: x)
qed simp

text \<open>Calls that take nothing from the application keep the numbers small.\<close>

context buf_codec
begin

lemma counted_steps: "peer_steps B A p p' \<Longrightarrow> engine_ok B c (p_engine p) \<Longrightarrow> counted p \<Longrightarrow> counted p'"
  by (rule peer_steps_keep [of c counted]) (use counted_step in blast)+

lemma small_after:
  assumes "peer_steps B A p (p\<lparr>p_engine := e'\<rparr>)" "engine_ok B c (p_engine p)" "counted p" "few_bytes (p_taken p)"
  shows "small (e_snd_nxt e')"
  using counted_small [OF counted_steps [OF assms(1-3)]] assms(4) by simp

end

section \<open>Properties\<close>

text \<open>
  C6. Retransmission makes up for loss. Take any state that two ends can reach over a network that has lost,
  repeated and reordered datagrams, both ends with the same conversation id. One end flushes with its
  retransmission timers expired and no segment at the retry limit; the datagrams of this flush arrive, in their order; the
  peer flushes, and its datagrams come back. Then the peer has received every segment numbered so far,
  the ones lost before included, and the send buffer of the first end is empty. The segments fit the window of the peer.
\<close>

theorem retransmission_recovers:
  assumes "link_init ca cb l" "(link_step le_buf_api)\<^sup>*\<^sup>* l (p, q)" "e_conv (p_engine p) = e_conv (p_engine q)"
    and "\<forall>s\<in>set (e_snd_buf (p_engine p)). due (clk 0) s \<and> h_conv (s_header s) = e_conv (p_engine p)"
    and "flush le_buf_api clk (p_engine p) = (e1, Ok ())" "drain_output e1 = (map (snd \<circ> snd) xs, e1')"
    and "unat (e_snd_nxt e1) \<le> window_end (p_engine q)"
    and "flush le_buf_api clk' (input_all le_buf_api xs (p_engine q)) = (f2, Ok ())"
    and "drain_output f2 = (map (snd \<circ> snd) ys, f2')"
  shows "holds (input_all le_buf_api xs (p_engine q)) = {..<e_snd_nxt e1}
    \<and> e_snd_buf (input_all le_buf_api ys e1') = []"
proof -
  let ?f1 = "input_all le_buf_api xs (p_engine q)"
  have ok: "link_ok le_buf_api (KcpCoreConfig_from ca) (KcpCoreConfig_from cb) (p, q)"
    using lnk.reachable_inv assms(1,2) by blast
  then have l: "linked le_buf_api (KcpCoreConfig_from ca) (p_wire p) (p_engine p) (p_engine q)"
    "linked le_buf_api (KcpCoreConfig_from cb) (p_wire q) (p_engine q) (p_engine p)"
    and n: "counted p" "counted q" "few_bytes (p_taken p)" "few_bytes (p_taken q)"
    by (simp_all add: link_ok_def)
  have "peer_step le_buf_api (\<lambda>_ _. True) p (p\<lparr>p_engine := e1\<rparr>)"
    using peer_flush [of le_buf_api "\<lambda>_ _. True" p clk] assms(5) by simp
  then have e1: "small (e_snd_nxt e1)"
    using le.small_after [OF r_into_rtranclp linkedD(4) [OF l(1)] n(1,3)] by blast
  have "peer_step le_buf_api (\<lambda>_ _. True) (q\<lparr>p_engine := ?f1\<rparr>) (q\<lparr>p_engine := f2\<rparr>)"
    using peer_flush [of le_buf_api "\<lambda>_ _. True" "q\<lparr>p_engine := ?f1\<rparr>" clk'] assms(8) by simp
  then have f2: "small (e_snd_nxt f2)"
    using le.small_after [OF rtranclp.rtrancl_into_rtrancl [OF input_all_steps] linkedD(4) [OF l(2)] n(2,4)] by blast
  have d: "map (snd \<circ> snd) xs = e_output_queue e1" "map (snd \<circ> snd) ys = e_output_queue f2" "e1' = snd (drain_output e1)"
    using assms(6,9) by (auto simp: drain_output_def)
  show ?thesis
    using recovery [OF l(1) linkedD(1) [OF l(2)], of clk xs clk' ys] assms(3-5,7,8) e1 f2 d by simp
qed

text \<open>
  A message is sent and flushed at time 0, and all its datagrams are lost. A flush 100 seconds later repeats
  them; these arrive, and the answer comes back.
\<close>

definition first_flush :: KcpEngine where
  "first_flush = fst (flush le_buf_api (\<lambda>_. 0) (fst (send (\<lambda>_. 0) [1, 2, 3] hello_engine)))"

definition lossy_peer :: peer where
  "lossy_peer = \<lparr>p_engine = snd (drain_output first_flush), p_wire = {}, p_taken = [[1, 2, 3]], p_delivered = []\<rparr>"

abbreviation hello_peer :: peer where
  "hello_peer \<equiv> new_peer (\<lambda>_. 0) 7 KcpConfig_default"

lemma hello_link: "link_init KcpConfig_default KcpConfig_default (hello_peer, hello_peer)"
  by (auto simp: link_init_def default_validates)

lemma lossy_steps: "(link_step le_buf_api)\<^sup>*\<^sup>* (hello_peer, hello_peer) (lossy_peer, hello_peer)"
proof -
  let ?step = "peer_step le_buf_api (sent_by hello_peer)"
  let ?p = "\<lambda>e. \<lparr>p_engine = e, p_wire = {}, p_taken = [[1, 2, 3]], p_delivered = []\<rparr>"
  let ?e = "fst (send (\<lambda>_. 0) [1, 2, 3] hello_engine)"
  have new: "hello_peer = \<lparr>p_engine = hello_engine, p_wire = {}, p_taken = [], p_delivered = []\<rparr>"
    by (simp add: new_peer_def start_peer_def hello_engine_def)
  have "?step hello_peer (?p ?e)"
    using peer_send [where p = hello_peer and clk = "\<lambda>_. 0" and data = "[1, 2, 3]"] by (simp add: new)
  moreover have "?step (?p ?e) (?p first_flush)"
    using peer_flush [where p = "?p ?e" and clk = "\<lambda>_. 0" and B = le_buf_api] by (simp add: first_flush_def)
  moreover have "?step (?p first_flush) lossy_peer"
    using peer_drain [where p = "?p first_flush" and D = "{}"] by (simp add: lossy_peer_def)
  ultimately have "link_step le_buf_api (hello_peer, hello_peer) (?p ?e, hello_peer)"
    "link_step le_buf_api (?p ?e, hello_peer) (?p first_flush, hello_peer)"
    "link_step le_buf_api (?p first_flush, hello_peer) (lossy_peer, hello_peer)"
    by (auto intro!: link_left simp: few_bytes_def lossy_peer_def)
  then show ?thesis by (meson rtranclp.rtrancl_into_rtrancl rtranclp.rtrancl_refl)
qed

lemma lossy_ok:
  "engine_ok le_buf_api (KcpCoreConfig_from KcpConfig_default) (p_engine lossy_peer)" "counted lossy_peer"
  using lnk.reachable_inv [OF hello_link lossy_steps] linkedD(4) by (auto simp: link_ok_def)

lemma lossy_engine:
  "e_conv (p_engine lossy_peer) = 7" "e_dead_link (p_engine lossy_peer) = 20"
  "\<forall>s\<in>set (e_snd_buf (p_engine lossy_peer)). due 100000 s \<and> h_conv (s_header s) = 7 \<and> s_xmit s = 1"
proof -
  let ?e = "fst (send (\<lambda>_. 0) [1, 2, 3] hello_engine)"
  let ?m = "move_to_send_buf 0 ?e"
  have e: "e_conv ?e = 7" "e_dead_link ?e = 20" "e_snd_buf ?e = []" "r_rto (e_rtt ?e) = 200"
    "n_nodelay (c_nodelay (e_config ?e)) = False"
    using send_frame [of hello_engine "\<lambda>_. 0" "[1, 2, 3]"] by (auto simp: same_but_queue_def hello_engine_def
        KcpEngine_new_def KcpCoreConfig_from_def KcpConfig_default_def NodeDelayConfig_normal_def Let_def)
  have inv: "send_inv ?e"
    by (rule engine_okD(6) [OF engine_ok_send [OF endpoint_engine(2) [OF hello_endpoint]]])
  note eff = flush_effects [where B = le_buf_api and clk = "\<lambda>_. 0", OF inv, folded first_flush_def]
  have m: "\<forall>s\<in>set (e_snd_buf ?m). s_xmit s = 0 \<and> h_conv (s_header s) = 7" "r_rto (e_rtt ?m) = 200" "rto_slack ?m = 25"
    using numbered_conv e by (fastforce simp: move_to_send_buf_eq [OF inv] rto_slack_def)+
  show "e_conv (p_engine lossy_peer) = 7" "e_dead_link (p_engine lossy_peer) = 20"
    using eff(6,9) e by (simp_all add: lossy_peer_def drain_output_def)
  show "\<forall>s\<in>set (e_snd_buf (p_engine lossy_peer)). due 100000 s \<and> h_conv (s_header s) = 7 \<and> s_xmit s = 1"
    using m by (auto simp: lossy_peer_def drain_output_def eff(2) mark_segment_def stamp_def due_def time_diff_def u32_as_i32_def Let_def)
qed

lemma second_flush: "snd (flush le_buf_api (\<lambda>_. 100000) (p_engine lossy_peer)) = Ok ()"
proof -
  let ?e = "p_engine lossy_peer"
  let ?m = "move_to_send_buf 100000 ?e"
  note inv = engine_okD(6) [OF lossy_ok(1)]
  have xmit: "unat (s_xmit (fst (mark_segment e1 t r x s))) \<le> 2" if "unat (s_xmit s) \<le> 1" for e1 t r x s
  proof -
    have "unat (s_xmit s + 1) \<le> unat (s_xmit s) + 1" by (simp add: unat_word_ariths)
    then show ?thesis using that by (simp add: mark_segment_def stamp_def Let_def)
  qed
  have "unat (s_xmit s) \<le> 1" if "s \<in> set (e_snd_buf ?m)" for s
    using that lossy_engine(3) numbered_conv by (fastforce simp: move_to_send_buf_eq [OF inv])
  then have "\<forall>s\<in>set (pass_selected 100000 ?m). unat (s_xmit s) \<le> 2"
    using xmit by (auto simp: pass_selected_def selected_def)
  then have "\<not> pass_dead 100000 ?m"
    using lossy_engine(2) by (auto simp: pass_dead_def move_to_send_buf_eq [OF inv] word_le_nat_alt)
  then show ?thesis using flush_effects(1) [where B = le_buf_api and clk = "\<lambda>_. 100000", OF inv] by simp
qed

lemma answer_flush: "snd (flush le_buf_api clk (input_all le_buf_api xs hello_engine)) = Ok ()"
proof -
  have "engine_ok le_buf_api (KcpCoreConfig_from KcpConfig_default) (input_all le_buf_api xs e) \<and> \<not> has_unsent_data (input_all le_buf_api xs e)"
    if "engine_ok le_buf_api (KcpCoreConfig_from KcpConfig_default) e" "\<not> has_unsent_data e" for e
    using that
  proof (induction xs arbitrary: e)
    case (Cons x xs)
    obtain r t d where x: "x = (r, t, d)" by (cases x)
    show ?case using Cons.IH [OF engine_ok_input [OF Cons.prems(1)] input_no_data [OF Cons.prems(2)]] by (simp add: x)
  qed simp
  moreover have "\<not> has_unsent_data hello_engine" by (simp add: has_unsent_data_def hello_engine_def KcpEngine_new_def Let_def)
  ultimately have "engine_ok le_buf_api (KcpCoreConfig_from KcpConfig_default) (input_all le_buf_api xs hello_engine)"
    "\<not> has_unsent_data (input_all le_buf_api xs hello_engine)"
    using endpoint_engine(2) [OF hello_endpoint] by blast+
  from flush_no_data(1) [OF engine_okD(6) [OF this(1)] this(2)] show ?thesis .
qed

theorem retransmission_recovers_witness:
  "\<exists>xs ys. let e1 = fst (flush le_buf_api (\<lambda>_. 100000) (p_engine lossy_peer)); f1 = input_all le_buf_api xs hello_engine
    in e_output_queue (p_engine lossy_peer) = [] \<and> holds f1 = {..<e_snd_nxt e1}
      \<and> e_snd_buf (input_all le_buf_api ys (snd (drain_output e1))) = []"
proof -
  let ?e1 = "fst (flush le_buf_api (\<lambda>_. 100000) (p_engine lossy_peer))"
  let ?xs = "map (\<lambda>d. (\<lambda>_. 0, \<lambda>_. 100000, d)) (e_output_queue ?e1)"
  let ?f1 = "input_all le_buf_api ?xs (p_engine hello_peer)"
  let ?f2 = "fst (flush le_buf_api (\<lambda>_. 100000) ?f1)"
  let ?ys = "map (\<lambda>d. (\<lambda>_. 0, \<lambda>_. 100000, d)) (e_output_queue ?f2)"
  have hello: "p_engine hello_peer = hello_engine" by (simp add: new_peer_def start_peer_def hello_engine_def)
  have e1: "flush le_buf_api (\<lambda>_. 100000) (p_engine lossy_peer) = (?e1, Ok ())"
    using second_flush by (metis prod.collapse)
  have f2: "flush le_buf_api (\<lambda>_. 100000) ?f1 = (?f2, Ok ())"
    using answer_flush unfolding hello by (metis prod.collapse)
  have "peer_step le_buf_api (\<lambda>_ _. True) lossy_peer (lossy_peer\<lparr>p_engine := ?e1\<rparr>)" by (rule peer_flush)
  from le.counted_step [OF lossy_ok this] have "unat (e_snd_nxt ?e1) \<le> 3"
    by (simp add: counted_def) (simp add: lossy_peer_def)
  moreover have w: "window_end hello_engine = 128" "e_conv hello_engine = 7"
    by (simp_all add: window_end_def hello_engine_def KcpEngine_new_def KcpCoreConfig_from_def KcpConfig_default_def Let_def)
  ultimately have fit: "unat (e_snd_nxt ?e1) \<le> window_end (p_engine hello_peer)" by (simp add: hello)
  have conv: "e_conv (p_engine lossy_peer) = e_conv (p_engine hello_peer)" by (simp add: hello lossy_engine w)
  have due: "\<forall>s\<in>set (e_snd_buf (p_engine lossy_peer)). due ((\<lambda>_. 100000) (0 :: nat)) s \<and> h_conv (s_header s) = e_conv (p_engine lossy_peer)"
    using lossy_engine by simp
  have d: "drain_output e = (map (snd \<circ> snd) (map (\<lambda>d. (\<lambda>_. 0, \<lambda>_. 100000, d)) (e_output_queue e)), snd (drain_output e))" for e
    by (simp add: comp_def drain_output_def)
  have "holds ?f1 = {..<e_snd_nxt ?e1} \<and> e_snd_buf (input_all le_buf_api ?ys (snd (drain_output ?e1))) = []"
    by (rule retransmission_recovers [OF hello_link lossy_steps conv due e1 d fit f2 d])
  moreover have "e_output_queue (p_engine lossy_peer) = []" by (simp add: lossy_peer_def drain_output_def)
  ultimately show ?thesis unfolding hello Let_def by blast
qed

end
