(* ===== verification/Kcp_Delivery.thy ===== *)
theory Kcp_Delivery
  imports Kcp_Recovery
begin

text \<open>
  Everything arrives. A sender without unsent data has been heard in full: the application at the other end
  gets every message that was written, by reading on. That is what the event loop waits for before
  it ends a graceful close.
\<close>

section \<open>Nothing waits that could move\<close>

text \<open>
  A segment that is next in order stays in the receive buffer only when the receive queue is full.
\<close>

definition settled :: "KcpEngine \<Rightarrow> bool" where
  "settled e \<longleftrightarrow> bt_get (e_rcv_buf e) (e_rcv_nxt e) = None \<or> unat (w_rcv (e_wnd e)) \<le> length (e_rcv_queue e)"

lemma settled_cong: "same_recv e e' \<Longrightarrow> settled e' = settled e"
  by (simp add: settled_def same_recv_def)

lemma settled_move: "bt_invar (e_rcv_buf e) \<Longrightarrow> settled (move_to_recv_queue e)"
  by (induction rule: move_induct) (auto simp: settled_def)

lemma settled_parse_data: "recv_inv e \<Longrightarrow> settled e \<Longrightarrow> settled (parse_data seg e)"
  by (simp add: parse_data_def Let_def settled_move bt_invar_or_insert recv_inv_def)

lemma settled_process_segment:
  assumes "recv_inv (fst st)" "settled (fst st)"
  shows "settled (fst (process_segment k t seg st))"
proof (cases "accepts_push seg (fst st)")
  case True
  from process_segment_push [OF this, of k t] settled_parse_data [OF assms, of seg] show ?thesis
    by (simp add: settled_def)
next
  case False
  then show ?thesis using assms(2) process_segment_other [OF False, of k t] by (simp add: settled_def)
qed

lemma settled_input:
  assumes ok: "engine_ok B c e" and s: "settled e"
  shows "settled (fst (input B ring clk data e))"
proof -
  have segs: "proto_inv (fst st) \<Longrightarrow> settled (fst st) \<Longrightarrow> settled (fst (process_segments ring t i segs st))" for t i segs st
    by (induction segs arbitrary: i st) (auto simp: settled_process_segment process_segment_proto_inv proto_invD(2))
  have "settled (e\<lparr>e_last_activity := t\<rparr>)" for t using s by (simp add: settled_def)
  moreover have "settled (count_packet (finish_input p st)) = settled (fst st)" for p st
    by (simp add: settled_def count_packet_def finish_input_def Let_def)
  ultimately show ?thesis using segs engine_okD(3) [OF ok] by (simp add: input_eq)
qed

lemma settled_recv:
  assumes ok: "engine_ok B c e" and s: "settled e" and ne: "\<forall>x\<in>set (map content (e_rcv_queue e)). snd x \<noteq> []"
  shows "settled (fst (recv e))"
proof (cases rule: recv_takes [of e])
  case (none j)
  have "\<forall>x\<in>set (take j (e_rcv_queue e)). s_data x \<noteq> []" using ne in_set_takeD by (fastforce simp: content_def)
  then have "take j (e_rcv_queue e) = []"
    using none(1) by (cases "take j (e_rcv_queue e)") (auto simp: payload_def)
  then have "drop j (e_rcv_queue e) = e_rcv_queue e" by (metis append_Nil append_take_drop_id)
  then show ?thesis using none(2) s by (simp add: settled_def)
next
  case (some j)
  have "bt_invar (e_rcv_buf e)" using engine_okD(7) [OF ok] by (simp add: recv_inv_def)
  then have "settled (move_to_recv_queue (e\<lparr>e_rcv_queue := q, e_stats := x\<rparr>))" for q x by (intro settled_move) simp
  moreover have "settled (set_flag i e') = settled e'" for i e' by (simp add: settled_def)
  ultimately show ?thesis unfolding some(2) after_recv_def Let_def fst_conv by (simp split: if_split)
qed

section \<open>Reading on\<close>

lemma messages_queue_nonempty:
  assumes "messages_rel c H ms groups e ds" shows "\<forall>x\<in>set (map content (e_rcv_queue e)). snd x \<noteq> []"
proof (rule messages_relE [OF assms])
  fix n assume "map content (e_rcv_queue e) = take (n - length (concat (take (length ds) groups))) (concat (drop (length ds) groups))"
  moreover have "\<forall>x\<in>set (concat (drop (length ds) groups)). snd x \<noteq> []"
    using assms in_set_dropD by (fastforce simp: messages_rel_def groups_of_def)
  ultimately show ?thesis by (metis in_set_takeD)
qed

interpretation settling: receive_side le_buf_api c "\<lambda>e ds. messages_rel c H ms groups e ds \<and> settled e"
  "\<lambda>e. datagram_of le_buf_api H" for c H ms groups
proof
  fix e e' ds assume "same_recv e e'" "messages_rel c H ms groups e ds \<and> settled e"
  then show "messages_rel c H ms groups e' ds \<and> settled e'" using msgs.unchanged settled_cong by blast
next
  fix e ds assume ok: "engine_ok le_buf_api c e" and R: "messages_rel c H ms groups e ds \<and> settled e"
  then show "messages_rel c H ms groups (fst (recv e)) (ds @ message_of (snd (recv e))) \<and> settled (fst (recv e))"
    using settled_recv [OF ok _ messages_queue_nonempty] messages_rel_recv [OF ok] by blast
next
  fix e ds data ring clk
  assume "engine_ok le_buf_api c e" "messages_rel c H ms groups e ds \<and> settled e" "datagram_of le_buf_api H data"
  then show "messages_rel c H ms groups (fst (input le_buf_api ring clk data e)) ds
      \<and> settled (fst (input le_buf_api ring clk data e))"
    using settled_input msgs.put_in by blast
qed

text \<open>
  When the whole history is held, and no message has more fragments than the receive queue has room for,
  the next message is complete in the queue.
\<close>

lemma next_complete:
  assumes ok: "engine_ok le_buf_api c e" and R: "messages_rel c H ms groups e ds" and s: "settled e"
    and all: "concat groups = H" "holds e = {..<word_of_nat (length H)}"
    and fit: "\<forall>g\<in>set groups. length g \<le> unat (c_rcv_wnd c)" and j: "length ds < length ms"
  shows "length (groups ! length ds) \<le> length (e_rcv_queue e)"
proof (rule messages_relE [OF R])
  let ?j = "length ds" let ?k = "length (concat (take ?j groups))"
  fix n assume n: "rcv_rel (filled H 0) n ?k e" "?k \<le> n" "n \<le> length H"
    and q: "map content (e_rcv_queue e) = take (n - ?k) (concat (drop ?j groups))"
  have len: "length H \<le> 1073741824" using R by (simp add: messages_rel_def history_rel_def)
  have g: "length groups = length ms"
    using R by (auto simp: messages_rel_def groups_of_def dest: list_all2_lengthD)
  then have gj: "groups ! ?j \<in> set groups" "concat (drop ?j groups) = groups ! ?j @ concat (drop (Suc ?j) groups)"
    using j by (simp_all flip: Cons_nth_drop_Suc)
  have nxt: "e_rcv_nxt e = word_of_nat n" using n(1) by (simp add: rcv_rel_def tracks_def)
  show ?thesis
  proof (cases "n < length H")
    case True
    then have "unat (e_rcv_nxt e) < unat (word_of_nat (length H) :: u32)"
      using len by (simp add: nxt unat_word_of_nat_u32)
    then have "e_rcv_nxt e \<in> holds e" by (simp add: all(2) word_less_nat_alt)
    then have "bt_get (e_rcv_buf e) (e_rcv_nxt e) \<noteq> None" by (auto simp: holds_def)
    then have "unat (c_rcv_wnd c) \<le> length (e_rcv_queue e)" using s engine_okD(9) [OF ok] by (auto simp: settled_def)
    then show ?thesis using fit gj(1) by fastforce
  next
    case False
    have "length H = ?k + length (concat (drop ?j groups))"
      using all(1) by (metis append_take_drop_id concat_append length_append)
    then have "length (e_rcv_queue e) = length (concat (drop ?j groups))"
      using False n(3) arg_cong [OF q, of length] by simp
    then show ?thesis using gj(2) by simp
  qed
qed

lemma drain_loop_all:
  assumes "engine_ok le_buf_api c e" "messages_rel c H ms groups e ds" "settled e"
    and "concat groups = H" "holds e = {..<word_of_nat (length H)}" "\<forall>g\<in>set groups. length g \<le> unat (c_rcv_wnd c)"
    and "length ms \<le> length ds + i"
  shows "ds @ snd (drain_loop i e) = ms"
  using assms
proof (induction i arbitrary: e ds)
  case 0
  show ?case by (rule messages_relE [OF "0.prems"(2)]) (use "0.prems"(7) in simp)
next
  case (Suc i)
  note ok = Suc.prems(1) and R = Suc.prems(2)
  show ?case
  proof (cases "length ds < length ms")
    case True
    have got: "snd (recv e) = Ok (Some (ms ! length ds))"
      using messages_rel_next [OF R] next_complete [OF ok R Suc.prems(3-6) True] True by simp
    have R': "messages_rel c H ms groups (fst (recv e)) (ds @ [ms ! length ds]) \<and> settled (fst (recv e))"
      using settling.taken_out [OF ok, of H ms groups ds] R Suc.prems(3) got by (simp add: message_of_def)
    have held: "holds (fst (recv e)) = {..<word_of_nat (length H)}"
      using holds_recv(1) [OF engine_okD(7) [OF ok], of "word_of_nat (length H)"] Suc.prems(5) by simp
    have "(ds @ [ms ! length ds]) @ snd (drain_loop i (fst (recv e))) = ms"
      by (rule Suc.IH [OF engine_ok_recv [OF ok] _ _ Suc.prems(4) held Suc.prems(6)]) (use R' Suc.prems(7) in simp_all)
    then show ?thesis by (simp add: drain_loop_step got)
  next
    case False
    then have "snd (recv e) = Ok None" using messages_rel_next [OF R] by simp
    moreover have "ds = ms" by (rule messages_relE [OF R]) (use False in simp)
    ultimately show ?thesis by (simp add: drain_loop_step)
  qed
qed

section \<open>The two ends\<close>

text \<open>The messages as the receiver will read them: those that were written, or in stream mode the segments.\<close>

definition split_as :: "KcpCoreConfig \<Rightarrow> bytes list \<Rightarrow> bytes list \<Rightarrow> bool" where
  "split_as c M ms \<longleftrightarrow> concat ms = concat M \<and> (\<not> c_stream_mode c \<longrightarrow> ms = nonempty M)"

lemma stream_history:
  assumes snd: "sending B H e" "snd_queue_ok e" and c: "core_config_ok c" "c_stream_mode c" and few: "few_bytes M"
  defines "T \<equiv> H @ map content (e_snd_queue e)"
  assumes T: "concat (map snd T) = concat M" "\<forall>x\<in>set T. fst x = 0"
  obtains ms groups where "concat groups = T" "groups_of ms groups" "\<forall>g\<in>set groups. length g \<le> frag_limit c"
    "length H \<le> 1073741824" "split_as c M ms"
proof -
  let ?ms = "map snd T" and ?groups = "map (\<lambda>x. [x]) T"
  have len: "length (concat ?ms) \<le> 1073741824" unfolding T(1) using few by (simp add: few_bytes_def)
  have ne: "\<forall>x\<in>set T. snd x \<noteq> []"
    using snd by (auto simp: T_def sending_def snd_queue_ok_def data_seg_ok_def content_def)
  have short: "length m < 2147483648" if "m \<in> set ?ms" for m using member_le_concat [OF that] len by simp
  have "\<forall>x\<in>set T. fragments_of (snd x) [x]" using T(2) by (simp add: fragments_of_def)
  then have frags: "list_all2 fragments_of ?ms ?groups" unfolding list.rel_map list_all2_same .
  have "concat (map (\<lambda>x. [x]) xs) = xs" for xs :: "(u8 \<times> bytes) list" by (induction xs) simp_all
  then have g: "concat ?groups = T" by blast
  have groups: "groups_of ?ms ?groups" unfolding groups_of_def g using frags ne short by auto
  have "length T \<le> length (concat ?ms)" by (rule history_length [OF ne])
  then have H_len: "length H \<le> 1073741824" using len by (simp add: T_def)
  have single: "\<forall>g\<in>set ?groups. length g \<le> frag_limit c"
    using c(1) by (auto simp: frag_limit_def core_config_ok_def min_def word_less_nat_alt)
  have "split_as c M ?ms" using T(1) c(2) by (simp add: split_as_def)
  then show thesis by (rule that [OF g groups single H_len])
qed

lemma message_history:
  assumes steps: "peer_steps le_buf_api A (start_peer e) p" and ok: "engine_ok le_buf_api c e" "core_config_ok c"
    and snd: "sender le_buf_api {} [] e" and fit: "\<forall>msg\<in>set (p_taken p). length msg \<le> message_limit c"
    and few: "few_bytes (p_taken p)"
  obtains H ms groups where "sending le_buf_api H (p_engine p)" "\<forall>d\<in>p_wire p. datagram_of le_buf_api H d"
    "concat groups = H @ map content (e_snd_queue (p_engine p))" "groups_of ms groups"
    "\<forall>g\<in>set groups. length g \<le> frag_limit c" "length H \<le> 1073741824" "split_as c (p_taken p) ms"
proof -
  have "engine_ok le_buf_api c (p_engine p)" by (rule le.peer_steps_ok [OF steps]) (simp add: start_peer_def ok(1))
  then have queue: "snd_queue_ok (p_engine p)" by (intro proto_invD(8) engine_okD(3))
  show thesis
  proof (cases "c_stream_mode c")
    case False
    then have "\<not> c_stream_mode c \<and> grouped (frag_limit c) [] []" by (simp add: grouped_def nonempty_def)
    then obtain H where H: "sending le_buf_api H (p_engine p)" "\<forall>d\<in>p_wire p. datagram_of le_buf_api H d"
      "grouped (frag_limit c) (p_taken p) (H @ map content (e_snd_queue (p_engine p)))"
      using msg_send.history_of_steps [OF steps ok(1) snd _ fit] by blast
    have "concat (nonempty (p_taken p)) = concat (p_taken p)" unfolding nonempty_def by (rule concat_filter_nonempty)
    then have split: "split_as c (p_taken p) (nonempty (p_taken p))" by (simp add: split_as_def)
    obtain groups where g: "concat groups = H @ map content (e_snd_queue (p_engine p))" "groups_of (nonempty (p_taken p)) groups"
      "\<forall>g\<in>set groups. length g \<le> frag_limit c" "length H \<le> 1073741824"
      by (rule grouped_history [OF H(1) queue H(3) few [unfolded few_bytes_def]])
    show thesis by (rule that [OF H(1,2) g split])
  next
    case True
    then have start: "c_stream_mode c \<and> concat (map snd ([] :: (u8 \<times> bytes) list)) = concat ([] :: bytes list)
        \<and> (\<forall>x\<in>set ([] :: (u8 \<times> bytes) list). fst x = 0)"
      by simp
    obtain H where H: "sending le_buf_api H (p_engine p)" "\<forall>d\<in>p_wire p. datagram_of le_buf_api H d"
      "c_stream_mode c \<and> concat (map snd (H @ map content (e_snd_queue (p_engine p)))) = concat (p_taken p)
        \<and> (\<forall>x\<in>set (H @ map content (e_snd_queue (p_engine p))). fst x = 0)"
      by (rule str_send.history_of_steps [OF steps ok(1) snd start fit])
    show thesis
      by (rule stream_history [OF H(1) queue ok(2) True few H(3) [THEN conjunct2, THEN conjunct1]
            H(3) [THEN conjunct2, THEN conjunct2] that [OF H(1,2)]])
  qed
qed

text \<open>In a reachable pair the left end has a history, and the right end has received a part of it.\<close>

lemma reached_history:
  assumes r: "reached ca cb p q" and fit: "\<forall>msg\<in>set (p_taken p). length msg \<le> message_limit (KcpCoreConfig_from ca)"
  obtains H ms groups where "sending le_buf_api H (p_engine p)" "concat groups = H @ map content (e_snd_queue (p_engine p))"
    "\<forall>g\<in>set groups. length g \<le> frag_limit (KcpCoreConfig_from ca)" "split_as (KcpCoreConfig_from ca) (p_taken p) ms"
    "messages_rel (KcpCoreConfig_from cb) H ms groups (p_engine q) (p_delivered q)" "settled (p_engine q)"
proof -
  let ?c = "KcpCoreConfig_from ca" and ?c' = "KcpCoreConfig_from cb"
  obtain clk conv clk' conv' where v: "validate ca = Ok ()" "validate cb = Ok ()"
    and l: "(link_step le_buf_api)\<^sup>*\<^sup>* (new_peer clk conv ca, new_peer clk' conv' cb) (p, q)"
    using r by (auto simp: reached_def link_init_def)
  let ?e = "KcpEngine_new clk conv ?c" and ?e' = "KcpEngine_new clk' conv' ?c'"
  have runs: "peer_steps le_buf_api (sent_by q) (start_peer ?e) p" "peer_steps le_buf_api (sent_by p) (start_peer ?e') q"
    using link_runs [OF l] by (simp_all add: new_peer_def)
  have few: "few_bytes (p_taken p)" using reached_link [OF r] by (simp add: link_ok_def)
  obtain H ms groups where H: "sending le_buf_api H (p_engine p)" "\<forall>d\<in>p_wire p. datagram_of le_buf_api H d"
    "concat groups = H @ map content (e_snd_queue (p_engine p))" "groups_of ms groups"
    "\<forall>g\<in>set groups. length g \<le> frag_limit ?c" "length H \<le> 1073741824" "split_as ?c (p_taken p) ms"
    by (rule message_history [OF runs(1) new_engine_ok [OF v(1)] validate_core_config_ok [OF v(1)] sender_new fit few])
  have "history_rel ?c' H ?e' []" by (rule history_rel_new [OF validate_core_config_ok [OF v(2)] H(6)])
  then have "messages_rel ?c' H ms groups ?e' []" using H(3,4) unfolding messages_rel_def by (metis take0)
  moreover have "settled ?e'" by (simp add: settled_def KcpEngine_new_def Let_def bt_empty_def)
  moreover have "peer_steps le_buf_api (\<lambda>e. datagram_of le_buf_api H) (start_peer ?e') q"
    using runs(2) by (rule mono_rtranclp [rule_format, rotated]) (use H(2) in \<open>blast intro: peer_step_mono\<close>)
  ultimately have "messages_rel ?c' H ms groups (p_engine q) (p_delivered q) \<and> settled (p_engine q)"
    using settling.steps_keep [of H "start_peer ?e'" q ?c' ms groups] new_engine_ok [OF v(2)] by (simp add: start_peer_def)
  then show thesis using that H(1,3,5,7) by blast
qed

lemma all_delivered:
  assumes r: "reached ca cb p q" and fit: "\<forall>msg\<in>set (p_taken p). length msg \<le> message_limit (KcpCoreConfig_from ca)"
    and wnd: "min (k_rcv_wnd ca) 128 \<le> k_rcv_wnd cb" and sent: "\<not> has_unsent_data (p_engine p)"
    and n: "length (concat (p_taken p)) \<le> n"
  shows "split_as (KcpCoreConfig_from ca) (p_taken p) (p_delivered q @ snd (drain_loop n (p_engine q)))"
proof (rule reached_history [OF r fit])
  fix H ms groups
  assume H: "sending le_buf_api H (p_engine p)" "concat groups = H @ map content (e_snd_queue (p_engine p))"
    "\<forall>g\<in>set groups. length g \<le> frag_limit (KcpCoreConfig_from ca)" "split_as (KcpCoreConfig_from ca) (p_taken p) ms"
    "messages_rel (KcpCoreConfig_from cb) H ms groups (p_engine q) (p_delivered q)" "settled (p_engine q)"
  have l: "linked le_buf_api (KcpCoreConfig_from ca) (p_wire p) (p_engine p) (p_engine q)"
    "linked le_buf_api (KcpCoreConfig_from cb) (p_wire q) (p_engine q) (p_engine p)"
    using reached_link [OF r] by (simp_all add: link_ok_def)
  have empty: "e_snd_queue (p_engine p) = []" "unacked (p_engine p) = {}"
    using sent by (simp_all add: has_unsent_data_def unacked_def)
  have held: "holds (p_engine q) = {..<word_of_nat (length H)}"
    using linkedD(2) [OF l(1)] H(1) empty(2) by (simp add: feeds_def sending_def)
  have room: "\<forall>g\<in>set groups. length g \<le> unat (c_rcv_wnd (KcpCoreConfig_from cb))"
    using H(3) wnd by (auto simp: KcpCoreConfig_from_def frag_limit_def word_le_nat_alt dest: le_trans)
  have "\<forall>m\<in>set ms. m \<noteq> []" using H(5) by (simp add: messages_rel_def groups_of_def)
  then have "length ms \<le> length (concat ms)" using history_length [of "map (Pair 0) ms"] by (simp add: o_def)
  then have "length ms \<le> length (p_delivered q) + n" using H(4) n by (simp add: split_as_def)
  from drain_loop_all [OF linkedD(4) [OF l(2)] H(5,6) _ held room this] show ?thesis
    using H(2,4) empty(1) by simp
qed

text \<open>So for two event loops, in any state they reach.\<close>

lemma loops_deliver:
  assumes "connects ga gb ca cb (M, a) (Some (N, b))"
    and "length (concat M) \<le> 1073741824" "length (concat N) \<le> 1073741824"
    and "\<forall>msg\<in>set M. length msg \<le> message_limit (KcpCoreConfig_from ca)"
    and "min (k_rcv_wnd ca) 128 \<le> k_rcv_wnd cb"
    and "\<not> has_unsent_data (a_engine a)" "length (concat M) \<le> n"
  shows "concat (a_delivered b @ snd (drain_loop n (a_engine b))) = concat M"
proof -
  have "reached ca cb (peer_of M a) (peer_of N b)"
    using connects_reached [OF assms(1)] assms(2,3) by (simp add: few_bytes_def)
  from all_delivered [OF this] assms(4-7) show ?thesis by (simp add: split_as_def)
qed

section \<open>Properties\<close>

text \<open>
  C4. Everything arrives. When a sender has no unsent data left, which is what the event loop waits for before
  it ends a graceful close, every byte it has ever taken from its application has reached the
  other end: together with what was delivered before, reading on (\<open>recv\<close> until nothing is left)
  gives exactly the bytes that were written, whatever the network has lost, repeated and reordered. Outside stream mode
  it gives exactly the messages that were written. The receive window of the other end must have room for a
  message, which the sender checks only against its own window.
\<close>

theorem everything_sent_arrives:
  assumes "link_init ca cb l" "(link_step le_buf_api)\<^sup>*\<^sup>* l (p, q)"
    and "\<forall>msg\<in>set (p_taken p). length msg \<le> message_limit (KcpCoreConfig_from ca)"
    and "min (k_rcv_wnd ca) 128 \<le> k_rcv_wnd cb"
    and "\<not> has_unsent_data (p_engine p)" "length (concat (p_taken p)) \<le> n"
  shows "concat (p_delivered q @ snd (drain_loop n (p_engine q))) = concat (p_taken p)
    \<and> (\<not> k_stream_mode ca \<longrightarrow> p_delivered q @ snd (drain_loop n (p_engine q)) = filter (\<lambda>msg. msg \<noteq> []) (p_taken p))"
proof -
  have "reached ca cb p q" using assms(1,2) unfolding reached_def by blast
  from all_delivered [OF this assms(3-6)] show ?thesis
    by (simp add: split_as_def nonempty_def KcpCoreConfig_from_def)
qed

text \<open>The datagrams that an end has put into the network may arrive together.\<close>

lemma input_all_sent:
  assumes "\<forall>(r, t, d)\<in>set xs. A d"
  shows "peer_steps B (\<lambda>_. A) p (p\<lparr>p_engine := input_all B xs (p_engine p)\<rparr>)"
  using assms
proof (induction xs arbitrary: p)
  case (Cons x xs)
  obtain r t d where x: "x = (r, t, d)" by (cases x)
  have "peer_step B (\<lambda>_. A) p (p\<lparr>p_engine := fst (input B r t d (p_engine p))\<rparr>)"
    by (rule peer_input) (use Cons.prems x in simp)
  from converse_rtranclp_into_rtranclp [of "peer_step B (\<lambda>_. A)", OF this Cons.IH] Cons.prems show ?case by (simp add: x)
qed simp

text \<open>A flush, and all its datagrams put into the network.\<close>

definition sends_all :: "peer \<Rightarrow> peer" where
  "sends_all p = (let e = fst (flush le_buf_api (\<lambda>_. 100000) (p_engine p))
     in p\<lparr>p_engine := snd (drain_output e), p_wire := p_wire p \<union> set (e_output_queue e)\<rparr>)"

lemma sends_all_steps: "peer_steps le_buf_api A p (sends_all p)"
proof -
  let ?p = "p\<lparr>p_engine := fst (flush le_buf_api (\<lambda>_. 100000) (p_engine p))\<rparr>"
  have "peer_step le_buf_api A p ?p" by (rule peer_flush)
  moreover have "peer_step le_buf_api A ?p (sends_all p)"
    using peer_drain [of "set (e_output_queue (p_engine ?p))" ?p le_buf_api A] by (simp add: sends_all_def Let_def)
  ultimately show ?thesis by (rule converse_rtranclp_into_rtranclp [OF _ r_into_rtranclp])
qed

definition arriving :: "KcpEngine \<Rightarrow> ((nat \<Rightarrow> usize) \<times> clock \<times> bytes) list" where
  "arriving e = map (\<lambda>d. (\<lambda>_. 0, \<lambda>_. 100000, d)) (e_output_queue (fst (flush le_buf_api (\<lambda>_. 100000) e)))"

definition hears_all :: "peer \<Rightarrow> peer \<Rightarrow> peer" where
  "hears_all p q = q\<lparr>p_engine := input_all le_buf_api (arriving (p_engine p)) (p_engine q)\<rparr>"

lemma hears_all_steps: "peer_steps le_buf_api (sent_by (sends_all p)) q (hears_all p q)"
  unfolding hears_all_def
  by (rule input_all_sent) (auto simp: arriving_def sends_all_def Let_def)

text \<open>After the lost message: the second flush arrives, and so does the answer.\<close>

definition late_reader :: peer where
  "late_reader = hears_all lossy_peer hello_peer"

definition late_writer :: peer where
  "late_writer = hears_all late_reader (sends_all lossy_peer)"

lemma taken_all [simp]: "p_taken (sends_all p) = p_taken p" "p_taken (hears_all p q) = p_taken q"
  "p_delivered (sends_all p) = p_delivered p" "p_delivered (hears_all p q) = p_delivered q"
  by (simp_all add: sends_all_def hears_all_def Let_def)

lemma late_steps: "(link_step le_buf_api)\<^sup>*\<^sup>* (hello_peer, hello_peer) (late_writer, sends_all late_reader)"
proof -
  have few: "few_bytes (p_taken lossy_peer)" "few_bytes (p_taken hello_peer)"
    by (simp_all add: few_bytes_def lossy_peer_def new_peer_def start_peer_def)
  note lossy_steps
  also have "(link_step le_buf_api)\<^sup>*\<^sup>* (lossy_peer, hello_peer) (sends_all lossy_peer, hello_peer)"
    by (rule left_steps [OF sends_all_steps]) (simp add: few)
  also have "(link_step le_buf_api)\<^sup>*\<^sup>* (sends_all lossy_peer, hello_peer) (sends_all lossy_peer, late_reader)"
    unfolding late_reader_def by (rule right_steps [OF hears_all_steps]) (simp add: few)
  also have "(link_step le_buf_api)\<^sup>*\<^sup>* (sends_all lossy_peer, late_reader) (sends_all lossy_peer, sends_all late_reader)"
    by (rule right_steps [OF sends_all_steps]) (simp add: few late_reader_def)
  also have "(link_step le_buf_api)\<^sup>*\<^sup>* (sends_all lossy_peer, sends_all late_reader) (late_writer, sends_all late_reader)"
    unfolding late_writer_def by (rule left_steps [OF hears_all_steps]) (simp add: few)
  finally show ?thesis .
qed

text \<open>The message is one segment, and the first flush sends it.\<close>

lemma lossy_queue: "e_snd_queue (p_engine lossy_peer) = []"
proof -
  let ?e = "fst (send (\<lambda>_. 0) [1, 2, 3] hello_engine)"
  have ok: "engine_ok le_buf_api (KcpCoreConfig_from KcpConfig_default) hello_engine" by (rule endpoint_engine(2) [OF hello_endpoint])
  have new: "e_snd_queue hello_engine = []" "e_snd_buf hello_engine = []"
    by (simp_all add: hello_engine_def KcpEngine_new_def Let_def)
  have c: "e_config hello_engine = KcpCoreConfig_from KcpConfig_default" by (rule engine_okD(2) [OF ok])
  have "unat (mss hello_engine) = 1376"
    by (simp add: mss_def c KcpCoreConfig_from_def KcpConfig_default_def)
  then have "length (e_snd_queue ?e) = 1"
    using message_fragments [OF engine_okD(8) [OF ok] _ _ refl, of "[1, 2, 3]" "\<lambda>_. 0"] new
    by (auto simp: c KcpCoreConfig_from_def KcpConfig_default_def div_ceil_usize_def)
  moreover have "e_wnd ?e = e_wnd hello_engine" "e_config ?e = e_config hello_engine" "in_flight ?e = 0"
    using send_frame [of hello_engine "\<lambda>_. 0" "[1, 2, 3]"]
    by (auto simp: same_but_queue_def in_flight_def hello_engine_def KcpEngine_new_def Let_def)
  then have "unat (effective_cwnd ?e) = 32" "in_flight ?e = 0"
    by (simp_all add: effective_cwnd_def hello_engine_def KcpEngine_new_def KcpCoreConfig_from_def KcpConfig_default_def
        NodeDelayConfig_normal_def Let_def)
  ultimately have "move_count ?e = 1" by (simp add: move_count_def)
  moreover have inv: "send_inv ?e" by (rule engine_okD(6) [OF engine_ok_send [OF ok]])
  ultimately have "e_snd_queue first_flush = drop 1 (e_snd_queue ?e)"
    using flush_effects(3) [where B = le_buf_api and clk = "\<lambda>_. 0", OF inv]
    by (simp add: first_flush_def move_to_send_buf_eq [OF inv])
  then show ?thesis using \<open>length (e_snd_queue ?e) = 1\<close> by (simp add: lossy_peer_def drain_output_def)
qed

lemma late_writer_done: "\<not> has_unsent_data (p_engine late_writer)"
proof -
  let ?e1 = "fst (flush le_buf_api (\<lambda>_. 100000) (p_engine lossy_peer))"
  have hello: "p_engine hello_peer = hello_engine" by (simp add: new_peer_def start_peer_def hello_engine_def)
  have queue_input: "e_snd_queue (input_all le_buf_api xs e) = e_snd_queue e" for xs e
    by (induction xs arbitrary: e) (auto simp: input_snd_queue split_paired_all)
  have "e_snd_queue ?e1 = []"
    using flush_queue_shorter [where B = le_buf_api and clk = "\<lambda>_. 100000", OF engine_okD(6) [OF lossy_ok(1)]] lossy_queue by simp
  then have queue: "e_snd_queue (p_engine late_writer) = []"
    by (simp add: late_writer_def hears_all_def sends_all_def queue_input drain_output_def Let_def)
  have l: "link_ok le_buf_api (KcpCoreConfig_from KcpConfig_default) (KcpCoreConfig_from KcpConfig_default) (lossy_peer, hello_peer)"
    by (rule lnk.reachable_inv [OF hello_link lossy_steps])
  have "peer_step le_buf_api (\<lambda>_ _. True) lossy_peer (lossy_peer\<lparr>p_engine := ?e1\<rparr>)" by (rule peer_flush)
  from le.counted_step [OF lossy_ok this] have e1: "unat (e_snd_nxt ?e1) \<le> 3"
    by (simp add: counted_def) (simp add: lossy_peer_def)
  have w: "window_end hello_engine = 128" "e_conv hello_engine = 7"
    by (simp_all add: window_end_def hello_engine_def KcpEngine_new_def KcpCoreConfig_from_def KcpConfig_default_def Let_def)
  let ?f1 = "input_all le_buf_api (arriving (p_engine lossy_peer)) hello_engine"
  have f1: "p_engine late_reader = ?f1" by (simp add: late_reader_def hears_all_def hello)
  have "e_snd_queue ?f1 = []" by (simp add: queue_input hello_engine_def KcpEngine_new_def Let_def)
  have "peer_step le_buf_api (\<lambda>_ _. True) (hello_peer\<lparr>p_engine := ?f1\<rparr>)
      (hello_peer\<lparr>p_engine := fst (flush le_buf_api (\<lambda>_. 100000) ?f1)\<rparr>)"
    using peer_flush [of le_buf_api "\<lambda>_ _. True" "hello_peer\<lparr>p_engine := ?f1\<rparr>"] by simp
  moreover have "peer_steps le_buf_api (\<lambda>_ _. True) hello_peer (hello_peer\<lparr>p_engine := ?f1\<rparr>)"
    using input_all_steps [of le_buf_api hello_peer] by (simp add: hello)
  ultimately have steps: "peer_steps le_buf_api (\<lambda>_ _. True) hello_peer
      (hello_peer\<lparr>p_engine := fst (flush le_buf_api (\<lambda>_. 100000) ?f1)\<rparr>)"
    by (rule rtranclp.rtrancl_into_rtrancl [rotated])
  have l2: "linked le_buf_api (KcpCoreConfig_from KcpConfig_default) (p_wire hello_peer) (p_engine hello_peer) (p_engine lossy_peer)"
    "counted hello_peer" "few_bytes (p_taken hello_peer)"
    using l by (simp_all add: link_ok_def)
  have f2: "small (e_snd_nxt (fst (flush le_buf_api (\<lambda>_. 100000) ?f1)))"
    by (rule le.small_after [OF steps linkedD(4) [OF l2(1)] l2(2,3)])
  have "e_snd_buf (input_all le_buf_api (arriving ?f1) (snd (drain_output ?e1))) = []"
    by (rule recovery(2) [where X = "p_wire lossy_peer" and Y = "p_wire hello_peer" and f = hello_engine
          and xs = "arriving (p_engine lossy_peer)" and clk' = "\<lambda>_. 100000"])
      (use l linkedD(1) second_flush answer_flush e1 f2 w lossy_engine in
        \<open>auto simp: link_ok_def hello small_def arriving_def comp_def\<close>)
  then have "e_snd_buf (p_engine late_writer) = []"
    by (simp add: late_writer_def hears_all_def sends_all_def f1 Let_def)
  with queue show ?thesis by (simp add: has_unsent_data_def)
qed

theorem everything_sent_arrives_witness:
  "snd (drain_loop 3 (p_engine (sends_all late_reader))) = [[1, 2, 3]]"
proof -
  have t: "p_taken late_writer = [[1, 2, 3]]" "p_delivered late_reader = []"
    by (simp_all add: late_writer_def late_reader_def lossy_peer_def new_peer_def start_peer_def)
  have "p_delivered (sends_all late_reader) @ snd (drain_loop 3 (p_engine (sends_all late_reader))) =
      filter (\<lambda>msg. msg \<noteq> []) (p_taken late_writer)"
    using everything_sent_arrives [OF hello_link late_steps _ _ late_writer_done, of 3] hello_fits t(1)
    by (simp add: KcpConfig_default_def)
  then show ?thesis by (simp add: t)
qed

end
