(* ===== verification/Kcp_Opening.thy ===== *)
theory Kcp_Opening
  imports Kcp_Recovery
begin

text \<open>
  What a client sends opens a connection. Every segment an engine puts out carries its conversation id and
  a command of the protocol, whatever the calls in between; so every datagram a client's event loop
  sends begins with a header that a listener takes for the start of a connection with the client's id.
\<close>

section \<open>The headers an engine puts out\<close>

abbreviation commands :: "u8 set" where
  "commands \<equiv> {IKCP_CMD_PUSH, IKCP_CMD_ACK, IKCP_CMD_WASK, IKCP_CMD_WINS}"

definition bears :: "ConvId \<Rightarrow> KcpSegment \<Rightarrow> bool" where
  "bears conv s \<longleftrightarrow> h_conv (s_header s) = conv \<and> h_cmd (s_header s) \<in> commands"

text \<open>An engine, and the datagrams it has sent, when the conversation id has been the same throughout.\<close>

definition speaks :: "buf_api \<Rightarrow> bytes set \<Rightarrow> KcpEngine \<Rightarrow> bool" where
  "speaks B X e \<longleftrightarrow> (\<forall>s\<in>set (e_snd_buf e). bears (e_conv e) s) \<and> output_made_of B (bears (e_conv e)) e
     \<and> (\<forall>d\<in>X. made_of B (bears (e_conv e)) d)"

lemma speaks_cong:
  assumes "speaks B X e" "e_conv e' = e_conv e" "e_output_queue e' = e_output_queue e" "e_out_buf e' = e_out_buf e"
    and "\<forall>s'\<in>set (e_snd_buf e'). \<exists>s\<in>set (e_snd_buf e). s_header s' = s_header s"
  shows "speaks B X e'"
  using assms output_made_of_cong [OF assms(3,4)] by (fastforce simp: speaks_def bears_def)

lemma numbered_bears: "s \<in> set (numbered now e segs) \<Longrightarrow> bears (e_conv e) s"
  by (induction segs arbitrary: e) (auto simp: number_segment_def bears_def)

lemma ack_segs_bear: "s \<in> set (ack_segs clk i conv wnd una acks) \<Longrightarrow> bears conv s"
  by (induction acks arbitrary: i)
    (auto simp: bears_def make_ack_def KcpSegment_ack_def KcpSegment_new_def KcpHeader_new_def Let_def)

lemma pass_probes_bear: "s \<in> set (pass_probes clk e) \<Longrightarrow> bears (e_conv e) s"
  by (auto simp: bears_def pass_probes_def create_probe_segment_def KcpSegment_new_def KcpHeader_new_def Let_def split: if_splits)

lemma mark_segment_bears [simp]: "bears conv (fst (mark_segment e now r x s)) = bears conv s"
  by (simp add: bears_def)

lemma moved_bear:
  assumes "send_inv e" "\<forall>s\<in>set (e_snd_buf e). bears (e_conv e) s"
  shows "\<forall>s\<in>set (e_snd_buf (move_to_send_buf now e)). bears (e_conv e) s"
  using assms(2) numbered_bears by (auto simp: move_to_send_buf_eq [OF assms(1)])

lemma pass_segments_bear:
  assumes "send_inv e" "\<forall>s\<in>set (e_snd_buf e). bears (e_conv e) s"
  shows "\<forall>s\<in>set (pass_segments clk e). bears (e_conv e) s"
proof -
  have "\<forall>s\<in>set (pass_selected (clk 0) (move_to_send_buf (clk 0) e)). bears (e_conv e) s"
    using moved_bear [OF assms, of "clk 0"] by (auto simp: pass_selected_def selected_def)
  then show ?thesis
    using upto_dead_subset ack_segs_bear pass_probes_bear unfolding pass_segments_def pass_acks_def by fastforce
qed

lemma fastack_loop_headers: "s' \<in> set (fastack_loop sn ts segs) \<Longrightarrow> \<exists>s\<in>set segs. s_header s' = s_header s"
  by (induction segs) (auto split: if_splits)

lemma speaks_input:
  assumes ok: "engine_ok B c e" and e: "speaks B X e"
  shows "speaks B X (fst (input B ring clk data e))"
proof -
  let ?st = "process_segments ring (clk 0) 0 (packet_segments B data) (e\<lparr>e_last_activity := clk 0\<rparr>, no_acks)"
  have "proto_inv (e\<lparr>e_last_activity := clk 0\<rparr>)" using engine_okD(3) [OF ok] by simp
  then have "set (e_snd_buf (fst ?st)) \<subseteq> set (e_snd_buf e)"
    using process_segments_send_fields [of "(e\<lparr>e_last_activity := clk 0\<rparr>, no_acks)"] by simp
  then have "\<forall>s'\<in>set (e_snd_buf (finish_input p ?st)). \<exists>s\<in>set (e_snd_buf e). s_header s' = s_header s" for p
    using fastack_loop_headers by (auto simp: finish_input_def Let_def parse_fastack_def) blast
  then show ?thesis
    by (intro speaks_cong [OF e])
      (auto simp: input_eq count_packet_def finish_input_def Let_def process_segments_conv process_segments_output_fields)
qed

text \<open>What every call of an engine keeps: its order, its headers, and that no empty datagram is sent.\<close>

definition introduces :: "buf_api \<Rightarrow> KcpCoreConfig \<Rightarrow> ConvId \<Rightarrow> peer \<Rightarrow> bool" where
  "introduces B c conv p \<longleftrightarrow> engine_ok B c (p_engine p) \<and> speaks B (p_wire p) (p_engine p) \<and> e_conv (p_engine p) = conv
     \<and> [] \<notin> p_wire p"

context buf_codec
begin

lemma speaks_flush:
  assumes ok: "engine_ok B c e" and e: "speaks B X e"
  shows "speaks B X (fst (flush B clk e))"
proof -
  note inv = engine_okD(6) [OF ok]
  note eff = flush_effects [where B = B and clk = clk, OF inv]
  have b: "\<forall>s\<in>set (e_snd_buf e). bears (e_conv e) s" "output_made_of B (bears (e_conv e)) e" "\<forall>d\<in>X. made_of B (bears (e_conv e)) d"
    using e by (simp_all add: speaks_def)
  have "output_made_of B (bears (e_conv e)) (fst (flush B clk e))"
    by (rule flush_made_of [OF ok b(2) pass_segments_bear [OF inv b(1)]])
  then show ?thesis using b(3) moved_bear [OF inv b(1)] by (auto simp: speaks_def eff(2,6))
qed

lemma speaks_call:
  assumes ok: "engine_ok B c (p_engine p)" and e: "speaks B (p_wire p) (p_engine p)" and step: "peer_call B A p p'"
  shows "speaks B (p_wire p') (p_engine p')"
proof -
  have flushed: "speaks B X (fst (flush B clk (x\<lparr>e_probe := (e_probe x)\<lparr>p_flags := q\<rparr>\<rparr>)))" "speaks B X (fst (flush B clk (x\<lparr>e_last_update := t\<rparr>)))"
    "speaks B X (x\<lparr>e_last_update := t\<rparr>)" if "engine_ok B c x" "speaks B X x" for X x q t clk
  proof -
    have "engine_ok B c (x\<lparr>e_probe := (e_probe x)\<lparr>p_flags := q\<rparr>\<rparr>)"
      using that(1) engine_inv_cong [of B x "x\<lparr>e_probe := (e_probe x)\<lparr>p_flags := q\<rparr>\<rparr>"] by (simp add: engine_ok_def)
    then show "speaks B X (fst (flush B clk (x\<lparr>e_probe := (e_probe x)\<lparr>p_flags := q\<rparr>\<rparr>)))"
      using speaks_flush speaks_cong [OF that(2), of "x\<lparr>e_probe := (e_probe x)\<lparr>p_flags := q\<rparr>\<rparr>"] by fastforce
    show "speaks B X (x\<lparr>e_last_update := t\<rparr>)" by (rule speaks_cong [OF that(2)]) auto
    then show "speaks B X (fst (flush B clk (x\<lparr>e_last_update := t\<rparr>)))"
      using speaks_flush engine_ok_last_update [OF that(1)] by blast
  qed
  show ?thesis
    using step
  proof (cases rule: peer_call.cases)
    case (call_send data clk)
    have "speaks B (p_wire p) (fst (send clk data (p_engine p)))"
      using send_frame [of "p_engine p" clk data] by (intro speaks_cong [OF e]) (auto simp: same_but_queue_def)
    then show ?thesis using call_send by simp
  next
    case call_recv
    have "speaks B (p_wire p) (fst (recv (p_engine p)))" by (rule speaks_cong [OF e]) (auto simp: recv_other_fields)
    then show ?thesis using call_recv by simp
  next
    case (call_update clk)
    then show ?thesis using flushed [OF ok e] e by (cases rule: update_cases [of B clk "p_engine p"]) simp_all
  next
    case (call_keep_alive clk)
    then show ?thesis using flushed(1) [OF ok e] by (simp add: keep_alive_probe_def)
  next
    case (call_drain D)
    then show ?thesis using e by (auto simp: speaks_def output_made_of_def drain_output_def)
  qed (use speaks_input [OF ok e] speaks_flush [OF ok e] in simp_all)
qed

text \<open>A datagram of such segments opens a connection.\<close>

lemma made_of_opens:
  assumes "made_of B (bears conv) d" "d \<noteq> []"
  shows "\<exists>h. opening_header B d = Some h \<and> h_conv h = conv"
proof -
  obtain segs where segs: "d = concat (map (\<lambda>s. KcpSegment_encode B s []) segs)" "\<forall>s\<in>set segs. bears conv s"
    using assms(1) by (auto simp: made_of_def)
  with assms(2) obtain s rest where d: "d = KcpSegment_encode B s [] @ rest" "bears conv s" by (cases segs) auto
  have "KcpHeader_decode B d = Some (s_header s, s_data s @ rest)"
    using header_decode_encode [of "s_header s" "s_data s @ rest"] by (simp add: d(1) KcpSegment_encode_def)
  moreover have "24 \<le> length d" using segment_encode_length [of s "[]"] by (simp add: d(1) KcpSegment_size_def)
  ultimately show ?thesis using d(2) by (auto simp: opening_header_def bears_def)
qed

lemma call_conv: "engine_ok B c (p_engine p) \<Longrightarrow> peer_call B A p p' \<Longrightarrow> e_conv (p_engine p') = e_conv (p_engine p)"
proof (erule peer_callE)
  fix clk assume ok: "engine_ok B c (p_engine p)" and p': "p' = p\<lparr>p_engine := fst (update B clk (p_engine p))\<rparr>"
  show ?thesis
    using p' flush_effects(6) [OF engine_okD(6) [OF engine_ok_last_update [OF ok]]]
    by (cases rule: update_cases [of B clk "p_engine p"]) simp_all
next
  fix clk data assume "p' = p\<lparr>p_engine := fst (send clk data (p_engine p)), p_taken := p_taken p @ [data]\<rparr>"
  then show ?thesis using send_frame [of "p_engine p" clk data] by (auto simp: same_but_queue_def)
next
  fix clk assume ok: "engine_ok B c (p_engine p)" and p': "p' = p\<lparr>p_engine := fst (keep_alive_probe B clk (p_engine p))\<rparr>"
  have "send_inv ((p_engine p)\<lparr>e_probe := q\<rparr>)" for q using engine_okD(6) [OF ok] by (simp add: send_inv_def in_flight_def)
  then show ?thesis using p' flush_effects(6) by (simp add: keep_alive_probe_def)
qed (auto simp: recv_other_fields input_conv drain_output_def flush_effects(6) dest: engine_okD(6))

lemma introduces_call: "introduces B c conv p \<Longrightarrow> peer_call B A p p' \<Longrightarrow> introduces B c conv p'"
proof -
  assume i: "introduces B c conv p" and step: "peer_call B A p p'"
  then have p: "engine_ok B c (p_engine p)" "speaks B (p_wire p) (p_engine p)" "e_conv (p_engine p) = conv" "[] \<notin> p_wire p"
    by (simp_all add: introduces_def)
  have "[] \<notin> set (e_output_queue (p_engine p))" using engine_okD(5) [OF p(1)] by (auto simp: output_ok_def)
  with step have "[] \<notin> p_wire p'" using p(4) by cases auto
  then show ?thesis
    using peer_step_ok [OF peer_call [OF step] p(1)] speaks_call [OF p(1,2) step] call_conv [OF p(1) step] p(3)
    by (simp add: introduces_def)
qed

lemma introduces_calls: "peer_calls B A p p' \<Longrightarrow> introduces B c conv p \<Longrightarrow> introduces B c conv p'"
  by (induction rule: rtranclp_induct) (simp_all add: introduces_call)

lemma introduces_opens: "introduces B c conv p \<Longrightarrow> d \<in> p_wire p \<Longrightarrow> \<exists>h. opening_header B d = Some h \<and> h_conv h = conv"
  using made_of_opens by (metis introduces_def speaks_def)

end

text \<open>So it is of the client of a connection.\<close>

lemma client_introduces:
  assumes "connects ga gb ca cb l q"
  shows "introduces le_buf_api (KcpCoreConfig_from ca) (e_conv (a_engine (snd l))) (peer_of (fst l) (snd l))"
  using assms
proof (induction rule: connects.induct)
  case (client_starts clk conv e args s v)
  let ?new = "KcpEngine_new clk conv (KcpCoreConfig_from ca)"
  have e: "e = ?new" "endpoint {} ca e" using client_engine [OF client_starts] client_end [OF client_starts] by blast+
  have "speaks le_buf_api {} ?new" "e_conv ?new = conv"
    by (simp_all add: speaks_def output_made_of_def KcpEngine_new_def Let_def)
  then have "introduces le_buf_api (KcpCoreConfig_from ca) conv (start_peer e)"
    using endpoint_engine(2) [OF e(2)] e(1) by (simp add: introduces_def start_peer_def)
  from le.introduces_calls [OF start_calls [of le_buf_api "\<lambda>_ _. True" e ga v, folded start_peer_def] this]
  show ?case by (simp add: introduces_def)
next
  case (client_turn M a q v)
  have "peer_calls le_buf_api (\<lambda>_ _. True) (peer_of M a) (peer_of (M @ taken ga v a) (fst (turn le_buf_api ga v a)))"
    by (rule turn_calls) simp
  from le.introduces_calls [OF this client_turn.IH [unfolded fst_conv snd_conv]] show ?case by (simp add: introduces_def)
qed simp_all

lemma client_opens:
  assumes "connects ga gb ca cb (M, a) q" "d \<in> set (a_wire a)"
  obtains h where "opening_header le_buf_api d = Some h" "h_conv h = e_conv (a_engine a)"
  using le.introduces_opens [OF client_introduces [OF assms(1)]] assms(2) by auto

section \<open>The first message\<close>

text \<open>An end with nothing to send whose window is open: the first message leaves with the flush that follows it.\<close>

definition idle :: "KcpEngine \<Rightarrow> bool" where
  "idle e \<longleftrightarrow> \<not> has_unsent_data e \<and> 0 < effective_cwnd e \<and> 1 < e_dead_link e"

lemma idle_cong:
  assumes "idle e" "e_snd_queue e' = e_snd_queue e" "e_snd_buf e' = e_snd_buf e" "e_wnd e' = e_wnd e" "e_config e' = e_config e"
    "e_dead_link e' = e_dead_link e"
  shows "idle e'"
proof -
  have "effective_cwnd e' = effective_cwnd e" unfolding effective_cwnd_def assms(4,5) ..
  then show ?thesis using assms by (simp add: idle_def has_unsent_data_def)
qed

lemma drain_loop_idle: "idle e \<Longrightarrow> idle (fst (drain_loop n e))"
proof (induction n arbitrary: e)
  case (Suc n)
  have "idle (fst (recv e))" by (rule idle_cong [OF Suc.prems]) (simp_all add: recv_other_fields)
  then show ?case using Suc.IH by (simp add: drain_loop_step split: sum.split option.split)
qed simp

lemma idle_flush:
  assumes "send_inv e" "idle e"
  shows "idle (fst (flush B clk e))"
proof -
  let ?e = "fst (flush B clk e)"
  have none: "\<not> has_unsent_data e" "1 < e_dead_link e" "0 < w_snd (e_wnd e)" "0 < w_rmt (e_wnd e)"
    using assms(2) by (auto simp: idle_def effective_cwnd_def Let_def split: if_splits)
  note eff = flush_effects [where B = B and clk = clk, OF assms(1)]
  have "\<not> pass_dead (clk 0) (move_to_send_buf (clk 0) e)"
    using flush_no_data(1) [OF assms(1) none(1), of B clk] unfolding eff(1) by (simp split: if_splits)
  then have "1 \<le> w_cwnd (e_wnd ?e)" using eff(19) by blast
  then have "0 < w_cwnd (e_wnd ?e)" by (simp add: word_le_nat_alt word_less_nat_alt)
  then have "0 < effective_cwnd ?e" using none(3,4) by (simp add: effective_cwnd_def eff(13,15) Let_def)
  then show ?thesis using flush_no_data(2) [OF assms(1) none(1), of B clk] none(2) by (simp add: idle_def eff(9))
qed

lemma start_idle:
  assumes "engine_ok B c e" "idle e"
  shows "idle (a_engine (actor_start B g v e))"
proof -
  have tick: "send_inv (e\<lparr>e_last_update := t\<rparr>)" "idle (e\<lparr>e_last_update := t\<rparr>)" for t
    using engine_okD(6) [OF engine_ok_last_update [OF assms(1)]] idle_cong [OF assms(2)] by simp_all
  have "idle (fst (update B (v_clk v 0) e))"
    using tick idle_flush by (cases rule: update_cases [of B "v_clk v 0" e]) simp_all
  then have "idle (snd (drain_output (fst (update B (v_clk v 0) e))))" by (rule idle_cong) (simp_all add: drain_output_def)
  then show ?thesis
    using drain_loop_idle by (simp add: actor_start_def flush_output_def drain_recv_def split_def Let_def)
qed

context buf_codec
begin

lemma first_message_sent:
  assumes ok: "engine_ok B c e" and idle: "idle e" and data: "data \<noteq> []" "length data \<le> message_limit c"
  shows "snd (flush B clk (fst (send clk' data e))) = Ok ()"
    "e_output_queue (fst (flush B clk (fst (send clk' data e)))) \<noteq> []"
proof -
  let ?e = "fst (send clk' data e)"
  let ?e1 = "move_to_send_buf (clk 0) ?e" and ?e2 = "fst (flush B clk ?e)"
  have ok1: "engine_ok B c ?e" by (rule engine_ok_send [OF ok])
  note inv = engine_okD(6) [OF ok1]
  have same: "e_snd_buf ?e = e_snd_buf e" "e_wnd ?e = e_wnd e" "e_config ?e = e_config e" "in_flight ?e = in_flight e"
    "e_dead_link ?e = e_dead_link e"
    using send_frame [of e clk' data] by (auto simp: same_but_queue_def in_flight_def)
  have empty: "e_snd_buf e = []" "e_snd_queue e = []" using idle by (simp_all add: idle_def has_unsent_data_def)
  then have "in_flight e = 0" using engine_okD(4) [OF ok] by (simp add: una_synced_def in_flight_def)
  moreover have "e_snd_queue ?e \<noteq> []"
    using send_unacked [OF ok send_within_limit [OF ok data(2)], of clk'] data(1) empty same(1) by (auto simp: unacked_bytes_def)
  moreover have "0 < unat (effective_cwnd ?e)" using idle unfolding idle_def effective_cwnd_def same by (simp add: word_less_nat_alt)
  ultimately have "0 < move_count ?e" by (simp add: move_count_def same)
  then obtain s segs where buf: "e_snd_buf ?e1 = s # segs"
    using empty same \<open>e_snd_queue ?e \<noteq> []\<close> by (cases "e_snd_queue ?e"; cases "move_count ?e") (auto simp: move_to_send_buf_eq [OF inv])
  have new: "\<forall>s\<in>set (e_snd_buf ?e1). s_xmit s = 0"
    using empty same numbered_conv by (auto simp: move_to_send_buf_eq [OF inv])
  then have marks: "\<forall>s\<in>set (e_snd_buf ?e1). snd (mark_segment e' t r x s) \<noteq> Keep \<and> s_xmit (fst (mark_segment e' t r x s)) = 1" for e' t r x
    by (simp add: mark_segment_def stamp_def Let_def)
  have sel: "pass_selected (clk 0) ?e1 \<noteq> []" "\<forall>s\<in>set (pass_selected (clk 0) ?e1). s_xmit s = 1"
    using marks buf by (auto simp: pass_selected_def selected_def)
  then have "\<not> pass_dead (clk 0) ?e1"
    using idle same(5) by (auto simp: idle_def pass_dead_def move_to_send_buf_eq [OF inv])
  then have out: "snd (flush B clk ?e) = Ok ()" "e_out_buf ?e2 = []"
    using flush_effects(1,19) [where B = B and clk = clk, OF inv] by simp_all
  show "snd (flush B clk ?e) = Ok ()" by (rule out(1))
  have "pass_segments clk ?e \<noteq> []" using sel(1) by (cases "pass_selected (clk 0) ?e1") (auto simp: pass_segments_def)
  then have "0 < sum_list (map size (pass_segments clk ?e))" by (cases "pass_segments clk ?e") (simp_all add: KcpSegment_size_def)
  then have "0 < length (emitted ?e2)" unfolding flush_emitted_size [OF inv] by simp
  then show "e_output_queue ?e2 \<noteq> []" using out(2) by (auto simp: emitted_def)
qed

end

text \<open>The client that is given one message has sent a datagram.\<close>

lemma hello_idle: "idle (a_engine (actor_start le_buf_api some_args quiet hello_engine))"
  by (rule start_idle [OF endpoint_engine(2) [OF hello_endpoint]])
    (simp add: idle_def has_unsent_data_def effective_cwnd_def hello_engine_def KcpEngine_new_def KcpCoreConfig_from_def
      KcpConfig_default_def NodeDelayConfig_normal_def Let_def)

lemma no_loss: "flush_loop None bits i bufs = bufs"
  by (induction bufs arbitrary: i) (simp_all add: dropped_def)

lemma hello_sent: "a_wire hello_state \<noteq> []"
proof -
  let ?v = "quiet\<lparr>v_data := Some (Some [1, 2, 3])\<rparr>" and ?a = "actor_start le_buf_api some_args quiet hello_engine"
  have "taken some_args ?v ?a = [[1, 2, 3]]" using hello_taken by (simp split: prod.splits flow.splits)
  then have b: "select_branch some_args ?v ?a = Data (Some [1, 2, 3])"
    by (auto simp: taken_def quiet_def split: branch.splits option.splits if_splits)
  have ok: "engine_ok le_buf_api (KcpCoreConfig_from KcpConfig_default) (a_engine ?a)"
    using le.actor_start_ok(1) [OF endpoint_engine(2) [OF hello_endpoint]] by (simp add: actor_ok_def)
  note m = le.first_message_sent [OF ok hello_idle _ hello_fits, where clk = "\<lambda>_. 0" and clk' = "\<lambda>_. 0"]
  have "\<not> a_closing ?a"
    by (simp add: actor_start_def drain_recv_def flush_output_def drain_output_def split_def Let_def)
  then show ?thesis
    using b m by (simp add: hello_state_def turn_def run_branch_def split_def Let_def quiet_def fatal_def after_select_def
      some_args_def flush_output_def drain_output_def no_loss)
qed

end
