(* ===== verification/Kcp_Server.thy ===== *)
theory Kcp_Server
  imports Kcp_Opening
begin

text \<open>
  From the listener to the connection. Datagrams reach a listener from many addresses. A connection that
  waits, and the stream that \<open>accept\<close> makes of it, come from a datagram of the address they are for;
  so an accepted stream is the other end of the client at that address, and what is proved of two event
  loops holds of them.
\<close>

section \<open>A listener and what it has received\<close>

text \<open>
  In a listener that receives from an address \<open>a\<close> only datagrams with \<open>R a\<close>, every connection that waits, is being
  registered or being accepted comes from such a datagram of its peer, wherever the listening task and \<open>accept\<close> are.
\<close>

definition heard_from :: "('addr \<Rightarrow> bytes \<Rightarrow> bool) \<Rightarrow> 'addr listener \<Rightarrow> bool" where
  "heard_from R l \<longleftrightarrow> (\<forall>i \<in> set (l_queue l). R (i_peer_addr i) (i_handshake_data i))"

fun task_heard :: "('addr \<Rightarrow> bytes \<Rightarrow> bool) \<Rightarrow> 'addr task_point \<Rightarrow> bool" where
  "task_heard R (Unrouted data peer) \<longleftrightarrow> R peer data"
| "task_heard R (Checked i) \<longleftrightarrow> R (i_peer_addr i) (i_handshake_data i)"
| "task_heard R (Inserted i) \<longleftrightarrow> R (i_peer_addr i) (i_handshake_data i)"
| "task_heard R t \<longleftrightarrow> True"

text \<open>The stream \<open>accept\<close> has made, until it returns it.\<close>

fun made_stream :: "'addr accept_point \<Rightarrow> new_stream option" where
  "made_stream (Created i s chan) = Some s"
| "made_stream (Activated i s chan) = Some s"
| "made_stream (Finishing i (Inr s)) = Some s"
| "made_stream p = None"

definition accept_heard :: "('addr \<Rightarrow> bytes \<Rightarrow> bool) \<Rightarrow> KcpConfig \<Rightarrow> 'addr accept_point \<Rightarrow> bool" where
  "accept_heard R config p \<longleftrightarrow> (\<forall>i \<in> working_on p. R (i_peer_addr i) (i_handshake_data i)
     \<and> (\<forall>e args s. made_stream p = Some (e, args, s) \<longrightarrow> endpoint {data. R (i_peer_addr i) data} config e))"

definition listener_heard :: "('addr \<Rightarrow> bytes \<Rightarrow> bool) \<Rightarrow> KcpConfig \<Rightarrow> 'addr listen_state \<Rightarrow> bool" where
  "listener_heard R config = (\<lambda>(l, t, p). l_config l = config \<and> heard_from R l \<and> task_heard R t \<and> accept_heard R config p)"

lemma listener_step_heard:
  assumes "listener_step le_buf_api R (l, t, p) ev (l', t', p')" "listener_heard R config (l, t, p)"
  shows "listener_heard R config (l', t', p')"
proof -
  note heard = assms(2) [unfolded listener_heard_def prod.case]
  show ?thesis
    using assms(1)
  proof (cases rule: listener_step.cases)
    case (accept_create ring clk i x chan)
    then have "endpoint {data. R (i_peer_addr i) data} config (fst x)"
      using heard server_end [of ring clk "i_client_conv i" "i_conv i" config "i_handshake_data i" "fst x"]
      by (cases x) (auto simp: accept_heard_def)
    then show ?thesis using heard accept_create by (auto simp: listener_heard_def accept_heard_def)
  qed (use heard in \<open>auto simp: listener_heard_def heard_from_def accept_heard_def piece_defs accept_finish_def
        on_receive_error_def cleanup_pending_connections_def remove_active_connection_def listener_close_def\<close>)
qed

lemma listen_start_heard:
  "with_transport cap per config addr = Some (Ok l) \<Longrightarrow> listener_heard R config (listen_start l)"
  by (auto simp: with_transport_def listen_start_def listener_heard_def heard_from_def accept_heard_def
      split: sum.splits if_splits)

interpretation srv: safe_system
  "\<lambda>\<sigma>. \<exists>cap per addr l. with_transport cap per config addr = Some (Ok l) \<and> \<sigma> = listen_start l"
  "listener_moves le_buf_api R" "listener_heard R config" for R config
proof
  fix \<sigma> \<sigma>'
  assume "listener_heard R config \<sigma>" "listener_moves le_buf_api R \<sigma> \<sigma>'"
  then show "listener_heard R config \<sigma>'"
    by (cases \<sigma>; cases \<sigma>') (auto simp: listener_moves_def intro: listener_step_heard)
qed (auto intro: listen_start_heard)

section \<open>Accepted streams\<close>

lemma accept_loop_Accepted:
  assumes "accept_loop B ring clk chan i queue l = (l', Accepted x peer)"
  shows "\<exists>incoming\<in>set queue. i_peer_addr incoming = peer
    \<and> (\<exists>k. new_server_stream B ring (clk k) (i_client_conv incoming) (i_conv incoming) (l_config l) (i_handshake_data incoming) = Ok x)"
  using assms
proof (induction queue arbitrary: i l)
  case (Cons incoming queue)
  let ?l1 = "accept_begin l"
  have r: "l_config (fst (create_stream_for_connection B ring (clk i) (chan i) incoming ?l1)) = l_config ?l1"
    by (simp add: create_stream_for_connection_def Let_def split: sum.split)
  show ?case
  proof (cases "i_peer_addr incoming \<in> n_active (l_state l)")
    case True
    then show ?thesis using Cons.IH [of "Suc i" ?l1] Cons.prems by (auto simp: Let_def)
  next
    case False
    let ?c = "create_stream_for_connection B ring (clk i) (chan i) incoming ?l1"
    show ?thesis
    proof (cases "snd ?c")
      case (Inl err)
      then have "accept_loop B ring clk chan (Suc i) queue (accept_finish incoming (fst ?c)) = (l', Accepted x peer)"
        using Cons.prems False by (simp add: Let_def split_def)
      from Cons.IH [OF this] show ?thesis using r by (auto simp: accept_finish_def)
    next
      case (Inr y)
      then have "y = x" "i_peer_addr incoming = peer" using Cons.prems False by (simp_all add: Let_def split_def)
      moreover have "new_server_stream B ring (clk i) (i_client_conv incoming) (i_conv incoming) (l_config l) (i_handshake_data incoming) = Ok y"
        using Inr by (auto simp: create_stream_for_connection_def Let_def split: sum.splits)
      ultimately show ?thesis by auto
    qed
  qed
qed simp

lemma accepted_endpoint:
  assumes "heard_from R l" "accept le_buf_api ring clk chan l = (l', Accepted (e, args, s) peer)"
  shows "endpoint {data. R peer data} (l_config l) e"
proof -
  obtain incoming k where i: "incoming \<in> set (l_queue l)" "i_peer_addr incoming = peer"
    "new_server_stream le_buf_api ring (clk k) (i_client_conv incoming) (i_conv incoming) (l_config l) (i_handshake_data incoming) = Ok (e, args, s)"
    using accept_loop_Accepted [of le_buf_api ring clk chan 0 "l_queue l" l] assms(2) unfolding accept_def by blast
  have "R peer (i_handshake_data incoming)" using assms(1) i(1,2) by (auto simp: heard_from_def)
  then show ?thesis using server_end [OF i(3)] by simp
qed

text \<open>A datagram that opens a connection, and the \<open>accept\<close> that serves it.\<close>

lemma opening_accepted:
  assumes "validate (l_config l) = Ok ()" "opening_header le_buf_api data = Some h" "h_conv h \<noteq> 0"
    and "map_of (l_active_streams l) peer = None" "admissible peer (k_max_pending_connections (l_config l)) (l_state l)"
    and "l_queue l = []"
  obtains l1 l2 e where "on_datagram le_buf_api rnd now True data peer l = Some (None, l1)"
    "accept le_buf_api ring clk chan l1 = (l2, Accepted (e, stream_args (l_config l), stream_value False (l_config l)) peer)"
    "endpoint {data} (l_config l) e" "e_conv e = h_conv h"
proof -
  let ?i = "\<lparr>i_peer_addr = peer, i_conv = h_conv h, i_client_conv = h_conv h, i_handshake_data = data, i_created_at = now\<rparr>"
  let ?l = "register_connection True ?i l"
  have on: "on_datagram le_buf_api rnd now True data peer l = Some (None, ?l)"
    using assms(2-5) by (simp add: on_datagram_def handle_incoming_packet_def server_conv_for_def)
  have l: "l_config ?l = l_config l" "l_queue ?l = [?i]" "i_peer_addr ?i \<notin> n_active (l_state ?l)"
    using assms(5,6) by (simp_all add: register_connection_def admissible_def Let_def)
  have "entry_ok le_buf_api ?i" using assms(2,3) by (simp add: entry_ok_def)
  with l obtain e where e: "accept le_buf_api ring clk chan ?l =
      (accept_finish ?i (fst (create_stream_for_connection le_buf_api ring (clk 0) (chan 0) ?i (accept_begin ?l))),
       Accepted (e, stream_args (l_config l), stream_value False (l_config l)) peer)"
    "new_server_stream le_buf_api ring (clk 0) (h_conv h) (h_conv h) (l_config l) data =
       Ok (e, stream_args (l_config l), stream_value False (l_config l))"
    "quiet_engine le_buf_api (KcpCoreConfig_from (l_config l)) (h_conv h) e"
    using accept_head [of ?l ?i "[]" ring clk chan] assms(1) by (metis incoming.select_convs)
  have "endpoint {data} (l_config l) e" by (rule server_end [OF e(2)]) simp
  with on e show thesis using that by (simp add: quiet_engine_def)
qed

section \<open>Routing\<close>

text \<open>
  A listener together with the channels of its streams: whom each channel was made for, and the datagrams that were
  forwarded to it. A channel is made when a stream is created, so it is new.
\<close>

type_synonym 'addr router = "'addr listen_state \<times> (nat \<times> 'addr) set \<times> (nat \<times> bytes) list"

inductive route_step :: "buf_api \<Rightarrow> ('addr \<Rightarrow> bytes \<Rightarrow> bool) \<Rightarrow> 'addr router \<Rightarrow> 'addr router \<Rightarrow> bool" for B R where
  route_silent: "listener_step B R \<sigma> Silent \<sigma>' \<Longrightarrow> route_step B R (\<sigma>, made, fed) (\<sigma>', made, fed)"
| route_forward: "listener_step B R \<sigma> (Forward chan data) \<sigma>' \<Longrightarrow>
    route_step B R (\<sigma>, made, fed) (\<sigma>', made, fed @ [(chan, data)])"
| route_made: "listener_step B R \<sigma> (Made chan peer) \<sigma>' \<Longrightarrow> chan \<notin> fst ` made \<Longrightarrow>
    route_step B R (\<sigma>, made, fed) (\<sigma>', insert (chan, peer) made, fed)"

lemma silent_run_routes: "silent_run B R \<sigma> \<sigma>' \<Longrightarrow> (route_step B R)\<^sup>*\<^sup>* (\<sigma>, made, fed) (\<sigma>', made, fed)"
  by (induction rule: rtranclp_induct) (auto intro: rtranclp.rtrancl_into_rtrancl route_silent)

text \<open>The channel \<open>accept\<close> has made and not yet entered into the map, with its peer.\<close>

fun unrouted_channel :: "'addr accept_point \<Rightarrow> (nat \<times> 'addr) set" where
  "unrouted_channel (Created i s chan) = {(chan, i_peer_addr i)}"
| "unrouted_channel (Activated i s chan) = {(chan, i_peer_addr i)}"
| "unrouted_channel p = {}"

definition routes_ok :: "('addr \<Rightarrow> bytes \<Rightarrow> bool) \<Rightarrow> 'addr router \<Rightarrow> bool" where
  "routes_ok R = (\<lambda>((l, t, p), made, fed). (\<forall>(peer, chan) \<in> set (l_active_streams l). (chan, peer) \<in> made)
     \<and> unrouted_channel p \<subseteq> made
     \<and> (\<forall>(chan, peer) \<in> made. \<forall>(chan', peer') \<in> made. chan' = chan \<longrightarrow> peer' = peer)
     \<and> (\<forall>(chan, data) \<in> set fed. \<exists>peer. (chan, peer) \<in> made \<and> R peer data))"

text \<open>A silent step only takes routes away, or enters the channel \<open>accept\<close> has made.\<close>

lemma update_elem: "x \<in> set (AList.update k v al) \<Longrightarrow> x = (k, v) \<or> x \<in> set al"
  by (induction al) (auto split: if_splits)

lemma silent_step_routes:
  assumes "listener_step B R (l, t, p) Silent (l', t', p')"
  shows "\<forall>(a, chan) \<in> set (l_active_streams l'). (a, chan) \<in> set (l_active_streams l) \<or> (chan, a) \<in> unrouted_channel p"
    "unrouted_channel p' \<subseteq> unrouted_channel p"
proof -
  show "\<forall>(a, chan) \<in> set (l_active_streams l'). (a, chan) \<in> set (l_active_streams l) \<or> (chan, a) \<in> unrouted_channel p"
    using assms
    by (cases rule: listener_step.cases)
      (auto simp: piece_defs accept_finish_def on_receive_error_def cleanup_pending_connections_def
        remove_active_connection_def listener_close_def dest: update_elem)
  show "unrouted_channel p' \<subseteq> unrouted_channel p"
    using assms by (cases rule: listener_step.cases) simp_all
qed

lemma route_step_ok: "routes_ok R r \<Longrightarrow> route_step B R r r' \<Longrightarrow> routes_ok R r'"
proof (erule route_step.cases)
  fix \<sigma> \<sigma>' made fed
  assume ok: "routes_ok R r" "r = (\<sigma>, made, fed)" and r': "r' = (\<sigma>', made, fed)" and step: "listener_step B R \<sigma> Silent \<sigma>'"
  obtain l t p l' t' p' where \<sigma>: "\<sigma> = (l, t, p)" "\<sigma>' = (l', t', p')" by (metis prod_cases3)
  note fewer = silent_step_routes [OF step [unfolded \<sigma>]]
  have "\<forall>(peer, chan) \<in> set (l_active_streams l). (chan, peer) \<in> made" "unrouted_channel p \<subseteq> made"
    using ok by (simp_all add: routes_ok_def \<sigma>)
  then have "\<forall>(peer, chan) \<in> set (l_active_streams l'). (chan, peer) \<in> made" "unrouted_channel p' \<subseteq> made"
    using fewer by blast+
  then show ?thesis using ok by (simp add: routes_ok_def \<sigma> r')
next
  fix \<sigma> chan data \<sigma>' made fed
  assume ok: "routes_ok R r" "r = (\<sigma>, made, fed)" and r': "r' = (\<sigma>', made, fed @ [(chan, data)])"
    and "listener_step B R \<sigma> (Forward chan data) \<sigma>'"
  from this(4) show ?thesis
  proof (cases rule: listener_step.cases)
    case (task_forward l peer p)
    then have "(chan, peer) \<in> made" using ok map_of_SomeD [OF task_forward(3)] by (auto simp: routes_ok_def)
    then show ?thesis using ok r' task_forward by (auto simp: routes_ok_def)
  qed
next
  fix \<sigma> chan peer \<sigma>' made fed
  assume ok: "routes_ok R r" "r = (\<sigma>, made, fed)" "chan \<notin> fst ` made"
    and r': "r' = (\<sigma>', insert (chan, peer) made, fed)" and "listener_step B R \<sigma> (Made chan peer) \<sigma>'"
  from this(5) show ?thesis
  proof (cases rule: listener_step.cases)
    case (accept_create ring clk i l s t)
    have old: "\<forall>(a, c)\<in>set (l_active_streams l). (c, a) \<in> made" "\<forall>(c, a)\<in>made. \<forall>(c', a')\<in>made. c' = c \<longrightarrow> a' = a"
      "\<forall>(c, d)\<in>set fed. \<exists>a. (c, a) \<in> made \<and> R a d"
      using ok(1,2) accept_create by (simp_all add: routes_ok_def)
    have "\<forall>(c, a)\<in>insert (chan, peer) made. \<forall>(c', a')\<in>insert (chan, peer) made. c' = c \<longrightarrow> a' = a"
      using old(2) ok(3) by force
    moreover have "\<forall>(c, d)\<in>set fed. \<exists>a. (c, a) \<in> insert (chan, peer) made \<and> R a d" using old(3) by blast
    ultimately show ?thesis using old(1) accept_create r' by (auto simp: routes_ok_def)
  qed
qed

definition new_router :: "'addr router \<Rightarrow> bool" where
  "new_router r \<longleftrightarrow> (\<exists>cap per config addr l. with_transport cap per config addr = Some (Ok l) \<and> r = (listen_start l, {}, []))"

lemma new_router_ok: "new_router r \<Longrightarrow> routes_ok R r"
proof -
  have "l_active_streams l = []" if "with_transport cap per config addr = Some (Ok l)" for cap per config addr and l :: "'a listener"
    using that by (auto simp: with_transport_def split: sum.splits if_splits)
  then show "new_router r \<Longrightarrow> routes_ok R r" by (auto simp: new_router_def routes_ok_def listen_start_def)
qed

interpretation rtr: safe_system new_router "route_step B R" "routes_ok R" for B R
  by unfold_locales (rule new_router_ok, assumption, rule route_step_ok)

section \<open>Properties\<close>

text \<open>
  C8. From \<open>accept\<close> to the connection. A client runs its event loop; a listener receives datagrams from any
  addresses, and from the client's address only datagrams that the client has sent. Whatever the listening
  task, \<open>accept\<close> and cleanup do in between, interleaved wherever the code releases its lock, a stream that \<open>accept\<close>
  then returns for that address is the other end of this client: the client's loop and a loop over the stream's engine
  are a connection as in the properties of two event loops, from its start. The call of \<open>accept\<close> may run alone or be one
  whose steps were interleaved with the listening task and that is about to return.
\<close>

theorem accepted_stream_meets_its_client:
  assumes "connects ga gb ca cb (M, a) None"
    and "with_transport capacity_ok period_ok cb local_addr = Some (Ok l0)"
    and "(listener_moves le_buf_api R)\<^sup>*\<^sup>* (listen_start l0) (l, t, p)"
    and "\<forall>data. R peer data \<longrightarrow> data \<in> set (a_wire a)"
    and "p = Accept_idle \<and> accept le_buf_api ring clk chan l = (l', Accepted (e, args, s) peer)
      \<or> (\<exists>i. p = Finishing i (Ok (e, args, s)) \<and> i_peer_addr i = peer)"
  shows "connects ga gb ca cb (M, a) (Some ([], actor_start le_buf_api gb v e))"
proof (rule peer_starts [OF assms(1)])
  have h: "listener_heard R cb (l, t, p)"
    using srv.reachable_inv [of cb "listen_start l0" R "(l, t, p)"] assms(2,3) by blast
  have "endpoint {data. R peer data} cb e"
    using assms(5)
  proof
    assume "p = Accept_idle \<and> accept le_buf_api ring clk chan l = (l', Accepted (e, args, s) peer)"
    then show ?thesis using accepted_endpoint [of R l ring clk chan l' e args s peer] h by (auto simp: listener_heard_def)
  next
    assume "\<exists>i. p = Finishing i (Ok (e, args, s)) \<and> i_peer_addr i = peer"
    then show ?thesis using h by (auto simp: listener_heard_def accept_heard_def)
  qed
  moreover have "{data. R peer data} \<subseteq> set (a_wire a)" using assms(4) by blast
  ultimately show "endpoint (set (a_wire a)) cb e" using endpoint_mono by blast
qed

text \<open>The listener receives the first datagram of a client, and \<open>accept\<close> takes it.\<close>

lemma hello_conv: "e_conv (a_engine hello_state) = 7"
proof -
  let ?v = "quiet\<lparr>v_data := Some (Some [1, 2, 3])\<rparr>" and ?a = "actor_start le_buf_api some_args quiet hello_engine"
  let ?c = "KcpCoreConfig_from KcpConfig_default"
  have "introduces le_buf_api ?c 7 (start_peer hello_engine)"
    using endpoint_engine(2) [OF hello_endpoint]
    by (simp add: introduces_def start_peer_def)
      (simp add: speaks_def output_made_of_def hello_engine_def KcpEngine_new_def Let_def)
  from le.introduces_calls [OF start_calls [of le_buf_api "\<lambda>_ _. True" hello_engine some_args quiet, folded start_peer_def] this]
  have a: "introduces le_buf_api ?c 7 (peer_of [] ?a)" .
  have "peer_calls le_buf_api (\<lambda>_ _. True) (peer_of [] ?a)
      (peer_of ([] @ taken some_args ?v ?a) (fst (turn le_buf_api some_args ?v ?a)))"
    by (rule turn_calls) simp
  from le.introduces_calls [OF this a] show ?thesis by (simp add: introduces_def hello_state_def)
qed

lemma some_listener_empty:
  "l_config some_listener = KcpConfig_default" "l_queue some_listener = []" "map_of (l_active_streams some_listener) a = None"
  "admissible a (k_max_pending_connections (l_config some_listener)) (l_state some_listener)"
  by (simp_all add: some_listener_def admissible_def ConnectionState_new_def KcpConfig_default_def)

theorem accepted_stream_meets_its_client_witness:
  "\<exists>e. connects some_args some_args KcpConfig_default KcpConfig_default ([[1, 2, 3]], hello_state)
     (Some ([], actor_start le_buf_api some_args quiet e))"
proof -
  obtain d where d: "d \<in> set (a_wire hello_state)" using hello_sent by (cases "a_wire hello_state") auto
  obtain h where h: "opening_header le_buf_api d = Some h" "h_conv h = 7"
    using client_opens [OF hello_alone d] hello_conv by auto
  have v: "validate (l_config some_listener) = Ok ()" "h_conv h \<noteq> 0"
    using h(2) by (simp_all add: some_listener_empty(1) default_validates)
  let ?R = "\<lambda>peer data. peer = (9 :: nat) \<and> data \<in> set (a_wire hello_state)"
  obtain l1 l2 e where l: "on_datagram le_buf_api (\<lambda>_. 0) 0 True d 9 some_listener = Some (None, l1)"
    "accept le_buf_api (\<lambda>_. 0) (\<lambda>_ _ _. 0) (\<lambda>i. i) l1 =
       (l2, Accepted (e, stream_args KcpConfig_default, stream_value False KcpConfig_default) 9)"
    by (rule opening_accepted [OF v(1) h(1) v(2) some_listener_empty(3,4,2)])
      (rule that, assumption, simp only: some_listener_empty(1))
  have steps: "(listener_moves le_buf_api ?R)\<^sup>*\<^sup>* (listen_start some_listener) (l1, Task_idle, Accept_idle)"
    using silent_moves [OF unrouted_datagram_run [OF l(1), of ?R Accept_idle]] d
    by (simp add: listen_start_def some_listener_def)
  from accepted_stream_meets_its_client [OF hello_alone some_listener_new steps, of 9] l(2) show ?thesis by blast
qed

text \<open>
  C7. Opening a connection. Any datagram that a client with a non-zero id has sent so far, arriving at a
  listener that does not know its address, has room and has nobody waiting, makes the next
  \<open>accept\<close> return a stream for this address: its engine has the client's conversation id, and its loop and the
  client's are the two ends of a connection from then on. So the first datagram that gets through is enough, whatever
  was lost before.
\<close>

theorem client_datagram_opens_its_connection:
  assumes "connects ga gb ca (l_config l) (M, a) None" "data \<in> set (a_wire a)" "e_conv (a_engine a) \<noteq> 0"
    and "validate (l_config l) = Ok ()" "l_queue l = []"
    and "map_of (l_active_streams l) peer = None" "admissible peer (k_max_pending_connections (l_config l)) (l_state l)"
  shows "\<exists>l1 l2 e args s. on_datagram le_buf_api rnd now True data peer l = Some (None, l1)
    \<and> accept le_buf_api ring clk chan l1 = (l2, Accepted (e, args, s) peer) \<and> e_conv e = e_conv (a_engine a)
    \<and> connects ga gb ca (l_config l) (M, a) (Some ([], actor_start le_buf_api gb v e))"
proof -
  obtain h where h: "opening_header le_buf_api data = Some h" "h_conv h = e_conv (a_engine a)"
    by (rule client_opens [OF assms(1,2)])
  obtain l1 l2 e where l: "on_datagram le_buf_api rnd now True data peer l = Some (None, l1)"
    "accept le_buf_api ring clk chan l1 = (l2, Accepted (e, stream_args (l_config l), stream_value False (l_config l)) peer)"
    "endpoint {data} (l_config l) e" "e_conv e = e_conv (a_engine a)"
    using opening_accepted [OF assms(4) h(1) _ assms(6,7,5)] h(2) assms(3) by metis
  have "endpoint (set (a_wire a)) (l_config l) e" using endpoint_mono [OF l(3)] assms(2) by simp
  from peer_starts [OF assms(1) this] l(1,2,4) show ?thesis by blast
qed

theorem client_datagram_opens_its_connection_witness:
  "\<exists>d\<in>set (a_wire hello_state). \<exists>l1 l2 e args s. on_datagram le_buf_api (\<lambda>_. 0) 0 True d 9 some_listener = Some (None, l1)
    \<and> accept le_buf_api (\<lambda>_. 0) (\<lambda>_ _ _. 0) (\<lambda>i. i) l1 = (l2, Accepted (e, args, s) 9) \<and> e_conv e = 7"
proof -
  obtain d where d: "d \<in> set (a_wire hello_state)" using hello_sent by (cases "a_wire hello_state") auto
  have "connects some_args some_args KcpConfig_default (l_config some_listener) ([[1, 2, 3]], hello_state) None"
    using hello_alone some_listener_empty(1) by simp
  from client_datagram_opens_its_connection [OF this d _ _ some_listener_empty(2,3,4), of "\<lambda>_. 0" 0 9 "\<lambda>_. 0" "\<lambda>_ _ _. 0" "\<lambda>i. i"]
  show ?thesis using d hello_conv some_listener_empty(1) default_validates by fastforce
qed


text \<open>
  C15. Each stream hears its own peer. Whatever arrives from however many addresses, and whatever \<open>accept\<close>,
  cleanup and the application do in between, interleaved wherever the code releases its lock, what the listener forwards to the channel of a stream are
  datagrams from the one address that the stream was accepted for.
\<close>

theorem streams_hear_their_own_peer:
  assumes "with_transport capacity_ok period_ok config local_addr = Some (Ok l0)"
    and "(route_step B R)\<^sup>*\<^sup>* (listen_start l0, {}, []) (\<sigma>, made, fed)" "(chan, data) \<in> set fed"
  shows "\<exists>peer. {a. (chan, a) \<in> made} = {peer} \<and> R peer data"
proof -
  have "new_router (listen_start l0, {}, [])" using assms(1) unfolding new_router_def by blast
  from rtr.reachable_inv [OF this assms(2)] have ok: "routes_ok R (\<sigma>, made, fed)" .
  then obtain peer where "(chan, peer) \<in> made" "R peer data" using assms(3) by (cases \<sigma>) (fastforce simp: routes_ok_def)
  moreover from this have "\<forall>a. (chan, a) \<in> made \<longrightarrow> a = peer" using ok by (cases \<sigma>) (fastforce simp: routes_ok_def)
  ultimately show ?thesis by blast
qed

text \<open>A first datagram arrives, is accepted with channel 5, and arrives again.\<close>

theorem streams_hear_their_own_peer_witness:
  "\<exists>l made. (route_step le_buf_api (\<lambda>a d. a = 9 \<and> d = first_datagram))\<^sup>*\<^sup>* (listen_start some_listener, {}, [])
      ((l, Task_idle, Accept_idle), made, [(5, first_datagram)])
    \<and> (\<exists>peer. {a. (5, a) \<in> made} = {peer} \<and> peer = 9)"
proof -
  let ?R = "\<lambda>a d. a = (9 :: nat) \<and> d = first_datagram" and ?i = first_connection
  let ?l1 = "register_connection True ?i some_listener"
  let ?c = "create_stream_for_connection le_buf_api (\<lambda>_. 0) (\<lambda>_ _. 0) 5 ?i (accept_begin ?l1)"
  let ?l2 = "accept_finish ?i (fst ?c)"
  have l1: "l_queue ?l1 = [?i]" "l_config ?l1 = KcpConfig_default" "n_active (l_state ?l1) = {}" "l_active_streams ?l1 = []"
    by (simp_all add: register_connection_def some_listener_def ConnectionState_new_def Let_def)
  have i: "i_peer_addr ?i = 9" "24 \<le> length (i_handshake_data ?i)"
    using opening_header_length first_datagram_opens by (auto simp: first_connection_def)
  obtain s where s: "new_server_stream le_buf_api (\<lambda>_. 0) (\<lambda>_ _. 0) (i_client_conv ?i) (i_conv ?i)
      (l_config (accept_begin ?l1)) (i_handshake_data ?i) = Ok s"
    using le.server_engine_quiet(1) [OF default_validates i(2)] default_validates l1(2)
    by (auto simp: new_server_stream_def split_def)
  note made = accept_create_run [OF s, of ?R Task_idle 5]
  have c: "?c = (route_stream 9 5 (activate 9 (accept_begin ?l1)), Ok s)" by (simp only: create_stream_pieces s sum.case i(1))
  have "l_active_streams ?l2 = [(9, 5)]"
    unfolding c using l1(3,4) i(1) by (simp add: accept_begin_pieces [OF l1(1)] piece_defs accept_finish_def)
  then have heard: "listener_step le_buf_api ?R (?l2, Task_idle, Accept_idle) (Forward 5 first_datagram) (?l2, Task_idle, Accept_idle)"
    by (intro task_forward) simp_all
  have "silent_run le_buf_api ?R (listen_start some_listener) (?l1, Task_idle, Accept_idle)"
    using unrouted_datagram_run [OF first_datagram_step, of ?R Accept_idle] by (simp add: listen_start_def some_listener_def)
  moreover have "silent_run le_buf_api ?R (?l1, Task_idle, Accept_idle) (accept_begin ?l1, Task_idle, Marked ?i)"
    by (rule accept_begin_run [OF l1(1)]) (simp add: l1(3))
  ultimately have begun: "silent_run le_buf_api ?R (listen_start some_listener) (accept_begin ?l1, Task_idle, Marked ?i)"
    by (rule rtranclp_trans)
  have steps: "(route_step le_buf_api ?R)\<^sup>*\<^sup>* (listen_start some_listener, {}, [])
      ((?l2, Task_idle, Accept_idle), {(5, 9)}, [(5, first_datagram)])"
    by (rule rtranclp.rtrancl_into_rtrancl, rule rtranclp_trans, rule rtranclp.rtrancl_into_rtrancl,
        rule silent_run_routes [OF begun], rule route_made [OF made(1)], simp,
        simp only: i(1), rule silent_run_routes [OF made(2)], rule route_forward [where fed = "[]", simplified, OF heard])
  from streams_hear_their_own_peer [OF some_listener_new this, of 5 first_datagram] steps show ?thesis by blast
qed

end
