(* ===== verification/Spec2Isabelle.thy ===== *)
theory Spec2Isabelle
  imports Kcp_Delivery Kcp_Server
begin

text \<open>
  A verification development for the KCP implementation in Rust: the protocol engine of the crate
  \<open>kcp-core\<close> (\<open>src/kcp-core/src\<close>) and the connections built on it in the crate \<open>kcp\<close> (\<open>src/kcp\<close>).

  KCP is a reliable transport over datagrams. An application message is cut into segments of at most
  one MTU; segments are numbered, acknowledged one by one and cumulatively, retransmitted on a timer or
  after later acknowledgements, and put into order and back together by the receiver. The engine does
  no I/O: it is a state machine with \<open>send\<close>, \<open>recv\<close>, \<open>input\<close>, \<open>flush\<close>, \<open>update\<close> and \<open>check\<close>. An event loop (the
  actor) owns one engine and connects it with the network and the application; a stream is the
  application's handle of an actor; a listener makes the streams of a server.

  \<^bold>\<open>Theories and code\<close>

  \<^item> \<open>Kcp_Prelude\<close>: type names (\<open>u32\<close>, \<open>usize\<close>, \<open>bytes\<close>), results, outcomes \<open>state \<times> result\<close> and their
    sequencing, shared lemmas.
  \<^item> \<open>Kcp_Protocol\<close> (\<open>protocol.rs\<close>): commands, wrapping order of sequence numbers and of the clock, header and
    segment with encoder and decoder, \<open>random_conv_id\<close>. The interface \<open>buf_codec\<close> has the laws of the
    little-endian integer codecs.
  \<^item> \<open>Kcp_Error\<close>, \<open>Kcp_Config\<close> (\<open>error.rs\<close>, \<open>config.rs\<close> of both crates): errors, conversions, settings, presets,
    validation. \<open>Kcp_BTree\<close>: the ordered map that the receive buffer is (\<open>std\<close> \<open>BTreeMap\<close>).
  \<^item> \<open>Kcp_Engine_State\<close> (\<open>engine.rs\<close>, up to line 160 and the accessors): the record \<open>KcpEngine\<close> with the source's
    groups \<open>wnd\<close>, \<open>rtt\<close>, \<open>cong\<close>, \<open>probe\<close>; \<open>KcpEngine_new\<close>.
  \<^item> \<open>Kcp_Engine_Output\<close>, \<open>Kcp_Engine_Send\<close>, \<open>Kcp_Engine_Recv\<close>, \<open>Kcp_Engine_Ack\<close>, \<open>Kcp_Engine_Flush\<close>,
    \<open>Kcp_Engine_Input\<close> (\<open>engine.rs\<close>): datagram packing; \<open>send\<close>; \<open>parse_data\<close> and \<open>recv\<close>; acknowledgements, round
    trip and window; \<open>flush\<close>, \<open>check\<close>, \<open>update\<close>; \<open>input\<close>.
  \<^item> \<open>Kcp_Engine\<close>: the engine as a whole, the reachable states of any sequence of calls; the interface
    \<open>safe_system\<close> of a step relation with an invariant.
  \<^item> \<open>Kcp_Actor\<close>, \<open>Kcp_Actor_Delivery\<close> (\<open>actor.rs\<close>): the event loop; what it delivers, refinement of a FIFO.
  \<^item> \<open>Kcp_Peer\<close>: an engine with what its calls exchange with the network and the application; every turn of
    the event loop is a sequence of such calls (\<open>turn_calls\<close>).
  \<^item> \<open>Kcp_Stream\<close> (\<open>stream.rs\<close> and the handle of \<open>actor.rs\<close>): construction of connections, messages, the poll
    functions.
  \<^item> \<open>Kcp_Listener\<close> (\<open>listener.rs\<close>): the tables of waiting and active peers, \<open>accept\<close>, cleanup,
    and their interleaving.
  \<^item> \<open>Kcp_Connection\<close>: two event loops, client or server, with a network from the one to the other.
  \<^item> \<open>Kcp_Reliability\<close>, \<open>Kcp_Link\<close>, \<open>Kcp_Recovery\<close>, \<open>Kcp_Delivery\<close>: a network in both directions. The relation \<open>linked\<close> between an
    engine and its peer, with one lemma per operation; the interleaved calls of two engines (\<open>link_step\<close>) and
    turns of two event loops (\<open>connects\<close>), which are runs of the former (\<open>connects_reached\<close>); retransmission after
    loss; that what has left the send buffer can be read.
  \<^item> \<open>Kcp_Opening\<close>, \<open>Kcp_Server\<close>: how a connection comes about. Every datagram of a client opens a connection; a
    listener that receives datagrams from many addresses (\<open>listener_moves\<close>), the streams \<open>accept\<close> makes of them, and
    what it forwards to which stream (\<open>route_step\<close>).

  \<^bold>\<open>How the model corresponds to the code\<close>

  Names are the source's, with a prefix for record fields (\<open>e_\<close> engine, \<open>a_\<close> actor, \<open>t_\<close> stream, \<open>l_\<close>
  listener). Integers have their width and wrap, as in a release build; \<open>usize\<close> is \<open>nat\<close>, since such values
  are lengths and counts. A \<open>Result\<close> is a sum, an operation on \<open>&mut self\<close> returns the new state with
  its result, and \<open>?\<close> is \<open>and_then\<close>; every early return is a branch. What the code gets from outside is
  an argument: the clock (\<open>clk k\<close> is the \<open>k\<close>-th reading), hash values used as randomness, where the ring
  buffer of \<open>VecDeque\<close> wraps (\<open>parse_ack\<close> searches the two slices), and the results of channel, timer and
  transport calls (the record \<open>event\<close> of the actor, the arguments of the poll functions, \<open>sent\<close> and \<open>gone\<close> of
  the listener). What the code sends out is recorded in the state in order. \<open>DashMap\<close>, \<open>HashMap\<close> are
  association lists with distinct keys; a \<open>Default\<close> of the source is an instance of the class \<open>default\<close>, the
  size of an encoded segment one of \<open>size\<close>.

  The handlers of the listener are functions, as they act when run alone. The listening task and \<open>accept\<close> run
  concurrently and a handler takes the lock of the shared state several times: the checks of a new peer, the entry into
  the table, \<open>try_send\<close> and its roll-back, the mark of \<open>accept\<close>, the change to active, the entry into the concurrent
  map and the removal of the mark are separate steps of \<open>listener_step\<close>, interleaved in every order the places of
  the two allow, with an abort of the task or the loss of the future of \<open>accept\<close> at every \<open>await\<close>. What is claimed of
  reachable states of the listener (C8, C14, C15) is claimed of these steps; \<open>unrouted_datagram_run\<close>, \<open>cleanup_run\<close>,
  \<open>accept_begin_run\<close> and \<open>accept_create_run\<close> show that the handlers run alone are among them. The loop that removes dead
  streams is one step under the lock: the insertion of \<open>accept\<close> into the map, the only thing that can come between
  its removals, has the same effect after it.

  \<^bold>\<open>What is proved\<close>

  Each component has an invariant that every operation keeps (\<open>engine_inv\<close>, \<open>actor_ok\<close>, \<open>stream_ok\<close>,
  \<open>listen_ok\<close>), used through the interface \<open>safe_system\<close> for all reachable states. The functional lemmas say
  what each operation does on every branch: fragments of \<open>send\<close>, reassembly by \<open>recv\<close>, what a flush emits and
  which segments it picks, when it fails, the binary search of \<open>parse_ack\<close> against a linear scan,
  arithmetic without overflow of the estimators, the deadline \<open>check\<close> computes, probing of a closed
  window. Encoding and decoding are inverse for segments and for whole datagrams. \<open>Kcp_Actor_Delivery\<close>
  relates the event loop to a FIFO of the peer's segments by a forward simulation: for any order,
  repetition and loss of datagrams the delivered bytes are those of a prefix of the peer's segments.
  What every call of the engine keeps, the event loop keeps, by the simulation of \<open>Kcp_Peer\<close>.
  \<open>Kcp_Connection\<close> adds the sender: every data segment on the wire is one of the history of numbered
  segments, so what one application reads is a prefix of what the other has written; without stream mode the
  delivered messages are the first messages written, whole and in order. What an event loop promises as
  a receiver and as a sender follows from interfaces on the engine alone: \<open>receive_side\<close> (what \<open>recv\<close> and \<open>input\<close>
  do to a relation with the delivered messages) and \<open>send_side\<close> (what \<open>send\<close> does to a relation with the
  accepted ones), each interpreted for bytes and for messages. \<open>Kcp_Link\<close> shows that nothing is
  forgotten: the numbers an end has given out are exactly those its peer holds and those it still
  keeps. \<open>Kcp_Recovery\<close> shows that retransmission makes up for whatever the network has lost, and
  \<open>Kcp_Delivery\<close> that a sender without unsent data has been heard in full: reading on gives exactly the bytes,
  and outside stream mode the messages, that were written. \<open>Kcp_Server\<close> shows that these results apply to what
  \<open>accept\<close> returns: a stream accepted for a client's address is the other end of this client, whatever else the
  listener does; any one datagram of the client is enough to get there; and a stream hears only the address
  it was accepted for. These
  results about two ends hold while each side takes at most \<open>2\<^sup>3\<^sup>0\<close> bytes, so that 32-bit numbers do not come round
  while old datagrams are in the network; every byte is at most one number (\<open>counted\<close>). Back-pressure, graceful
  close, the byte-stream view of messages and the admission of connections follow. Some properties
  show behaviour that deviates from the documentation or loses data; they are stated as the code behaves.

  \<^bold>\<open>Loops\<close>

  Loops over lists and byte strings are structural or have a \<open>measure\<close>; the search of \<open>random_conv_id\<close>, which may
  run for good, is \<open>partial_function (option)\<close>, and its termination is a theorem. The event loop is a
  function of the list of its events, so no fuel is used anywhere.

  \<^bold>\<open>Not modelled\<close>

  Socket I/O (\<open>transport.rs\<close>; \<open>connect\<close> and \<open>listen\<close> have its results as arguments), log output, spawning and waking of tasks, capacities and
  allocation, \<open>Display\<close> of addresses; examples, benchmarks and tests.
\<close>

end
